(* ===== verification/Prelude.thy ===== *)
theory Prelude
  imports Main "HOL-Library.Word"
begin

unbundle bit_operations_syntax

text \<open>
  Shared vocabulary of the development: the machine types of the C++ sources, the results
  of operations that may fail, bytes and strings, the little-endian loops that every
  serialiser of the program repeats, the byte swaps of \<^verbatim>\<open>htons\<close> and \<^verbatim>\<open>htonl\<close>, and decimal
  text as \<^verbatim>\<open>std::to_string\<close> writes it.
  The collection \<open>codec_simps\<close> gathers the facts that evaluate a decoder on the bytes an
  encoder wrote, and \<open>len_simps\<close> the lengths of encodings.
\<close>

named_theorems codec_simps
named_theorems len_simps

section \<open>Machine types and results\<close>

type_synonym byte = "8 word"
type_synonym u16 = "16 word"
type_synonym u32 = "32 word"
type_synonym u64 = "64 word"
type_synonym c_int = "32 word" \<comment> \<open>C++ \<open>int\<close>, read by \<open>sint\<close>\<close>

text \<open>
  \<open>Undefined\<close> stands for undefined behaviour (a read past the end of a vector). No handler
  of the program can catch it. The other values are the C++ exceptions the sources throw,
  with the text of \<^verbatim>\<open>what()\<close>. Where a handler may catch the exception, the state of the object at
  the throw matters as much as the exception: \<open>call\<close> is the type of a method of an object of type
  \<open>'s\<close> whose exceptions carry that state.
\<close>

datatype error =
    Undefined
  | Runtime_error string
  | Invalid_argument
  | Out_of_range

type_synonym 'a result = "error + 'a"
type_synonym ('s, 'a) call = "(error \<times> 's) + 'a"

definition bind_result :: "'e + 'a \<Rightarrow> ('a \<Rightarrow> 'e + 'b) \<Rightarrow> 'e + 'b" where
  "bind_result r f = (case r of Inl e \<Rightarrow> Inl e | Inr x \<Rightarrow> f x)"

lemma bind_result_simps [simp]:
  "bind_result (Inl e) f = Inl e"
  "bind_result (Inr x) f = f x"
  by (simp_all add: bind_result_def)

lemma bind_result_Inr_iff:
  "bind_result r f = Inr y \<longleftrightarrow> (\<exists>x. r = Inr x \<and> f x = Inr y)"
  by (cases r) simp_all

lemma bind_result_InrE:
  assumes "bind_result r f = Inr y"
  obtains x where "r = Inr x" and "f x = Inr y"
  using assms by (auto simp: bind_result_Inr_iff)

text \<open>
  Three ways between the two: something fails while the object is in state \<open>s\<close>; a member of the
  object throws, and \<open>f\<close> puts the member's state back into the object; nobody catches the exception,
  which ends the program, so that the state does not matter any more.
\<close>

definition throws_at :: "'s \<Rightarrow> 'a result \<Rightarrow> ('s, 'a) call" where
  "throws_at s r = (case r of Inl e \<Rightarrow> Inl (e, s) | Inr x \<Rightarrow> Inr x)"

definition throws_in :: "('s \<Rightarrow> 't) \<Rightarrow> ('s, 'a) call \<Rightarrow> ('t, 'a) call" where
  "throws_in f r = (case r of Inl (e, s) \<Rightarrow> Inl (e, f s) | Inr x \<Rightarrow> Inr x)"

definition uncaught :: "('s, 'a) call \<Rightarrow> 'a result" where
  "uncaught r = (case r of Inl (e, s) \<Rightarrow> Inl e | Inr x \<Rightarrow> Inr x)"

lemma throws_simps [simp]:
  "throws_at s (Inl e) = Inl (e, s)" "throws_at s (Inr x) = Inr x"
  "throws_in f (Inl (e, s)) = Inl (e, f s)" "throws_in f (Inr x) = Inr x"
  "uncaught (Inl (e, s)) = Inl e" "uncaught (Inr x) = Inr x"
  by (simp_all add: throws_at_def throws_in_def uncaught_def)

lemma throws_Inr_iff [simp]:
  "throws_at s r = Inr x \<longleftrightarrow> r = Inr x" "throws_in f q = Inr x \<longleftrightarrow> q = Inr x"
  "uncaught q = Inr x \<longleftrightarrow> q = Inr x"
  by (simp_all add: throws_at_def throws_in_def uncaught_def split: sum.splits)

text \<open>A \<^verbatim>\<open>for\<close> loop over a list whose body updates a state and may fail.\<close>

fun for_each :: "('b \<Rightarrow> 's \<Rightarrow> 'e + 's) \<Rightarrow> 'b list \<Rightarrow> 's \<Rightarrow> 'e + 's" where
  "for_each f [] s = Inr s"
| "for_each f (x # xs) s = bind_result (f x s) (for_each f xs)"

lemma for_each_inv:
  assumes "for_each f xs s = Inr s'" and "P s"
    and "\<And>x s s'. x \<in> set xs \<Longrightarrow> P s \<Longrightarrow> f x s = Inr s' \<Longrightarrow> P s'"
  shows "P s'"
  using assms by (induction xs arbitrary: s) (auto elim!: bind_result_InrE)

lemma for_each_total:
  assumes "P s" and "\<And>x s. x \<in> set xs \<Longrightarrow> P s \<Longrightarrow> \<exists>s'. f x s = Inr s' \<and> P s'"
  shows "\<exists>s'. for_each f xs s = Inr s' \<and> P s'"
  using assms
proof (induction xs arbitrary: s)
  case (Cons x xs)
  from Cons.prems obtain s1 where "f x s = Inr s1" and "P s1" by (metis list.set_intros(1))
  with Cons.IH [of s1] Cons.prems(2) show ?case by simp
qed simp

section \<open>Bytes and strings\<close>

text \<open>
  \<^verbatim>\<open>std::vector<char>\<close> is a list of bytes; \<^verbatim>\<open>std::string\<close> is a HOL string, whose characters
  are the 256 values of a byte. Copying between the two is the pair of conversions below.
\<close>

definition bytes_of :: "string \<Rightarrow> byte list" where
  "bytes_of s = map of_char s"

definition string_of :: "byte list \<Rightarrow> string" where
  "string_of bs = map (\<lambda>b. char_of (unat b)) bs"

lemma unat_of_char_byte: "unat (of_char c :: byte) = of_char c"
proof -
  have "unat (of_nat (of_char c) :: byte) = of_char c mod 256"
    by (simp only: unat_of_nat) simp
  then show ?thesis by (simp only: of_nat_of_char of_char_mod_256)
qed

lemma of_char_of_byte: "of_char (char_of (unat b)) = (b :: byte)"
proof -
  have "(of_nat (of_char (char_of (unat b))) :: byte) = of_nat (unat b mod 256)"
    by (simp only: of_char_of)
  moreover have "unat b mod 256 = unat b"
    using unsigned_less [of b, where 'a = nat] by simp
  ultimately show ?thesis by (simp only: of_nat_of_char) simp
qed

lemma string_of_bytes_of [simp]: "string_of (bytes_of s) = s"
  by (simp add: string_of_def bytes_of_def comp_def unat_of_char_byte)

lemma bytes_of_string_of [simp]: "bytes_of (string_of bs) = bs"
  by (simp add: string_of_def bytes_of_def comp_def of_char_of_byte)

lemma length_bytes_of [simp, len_simps]: "length (bytes_of s) = length s"
  by (simp add: bytes_of_def)

lemma length_string_of [simp, len_simps]: "length (string_of bs) = length bs"
  by (simp add: string_of_def)

lemma bytes_of_eq_iff [simp]: "bytes_of s = bytes_of t \<longleftrightarrow> s = t"
  by (metis string_of_bytes_of)

text \<open>Reading one byte of a vector, and copying a range of it.\<close>

definition byte_at :: "byte list \<Rightarrow> nat \<Rightarrow> byte result" where
  "byte_at data i = (if i < length data then Inr (data ! i) else Inl Undefined)"

definition range_of :: "byte list \<Rightarrow> nat \<Rightarrow> nat \<Rightarrow> byte list result" where
  "range_of data off n =
     (if off + n \<le> length data then Inr (take n (drop off data)) else Inl Undefined)"

lemma byte_at_append [codec_simps]:
  "i = length pre \<Longrightarrow> byte_at (pre @ b # post) i = Inr b"
  by (simp add: byte_at_def)

lemma byte_at_beyond [codec_simps]: "length data \<le> i \<Longrightarrow> byte_at data i = Inl Undefined"
  by (simp add: byte_at_def)

lemma range_of_append [codec_simps]:
  "off = length pre \<Longrightarrow> n = length xs \<Longrightarrow> range_of (pre @ xs @ post) off n = Inr xs"
  by (simp add: range_of_def)

lemma range_of_beyond [codec_simps]:
  "length data < off + n \<Longrightarrow> range_of data off n = Inl Undefined"
  by (simp add: range_of_def)

lemma length_range_of: "range_of data off n = Inr xs \<Longrightarrow> length xs = n \<and> off + n \<le> length data"
  by (auto simp: range_of_def split: if_splits)

section \<open>Counting in 64 bits\<close>

lemma unat_succ_u64: "a < b \<Longrightarrow> unat (a + 1) = Suc (unat a)" for a b :: u64
  using unsigned_less [of b, where 'a = nat] by (simp add: unat_word_ariths word_less_nat_alt)

lemma unat_of_nat_u64: "n < 2 ^ 64 \<Longrightarrow> unat (of_nat n :: u64) = n"
  by (simp add: unat_of_nat take_bit_nat_eq_self_iff)

lemma take_eq_shorter: "take c xs = take c ys \<Longrightarrow> a \<le> c \<Longrightarrow> take a xs = take a ys"
  by (metis min_absorb1 take_take)

section \<open>Little-endian words\<close>

text \<open>
  The loops \<^verbatim>\<open>for (j = 0; j < n; j++) v.push_back((x >> (j * 8)) & 0xFF)\<close> and
  \<^verbatim>\<open>for (j = 0; j < n; j++) x |= (T)(uint8_t)data[offset + j] << (j * 8)\<close>.
  \<open>le_word\<close> is the second one over any way \<open>rd\<close> of reading the j-th byte.
\<close>

definition put_le :: "nat \<Rightarrow> 'a::len word \<Rightarrow> byte list" where
  "put_le n x = map (\<lambda>j. ucast (drop_bit (j * 8) x AND 0xFF)) [0..<n]"

definition le_word :: "nat \<Rightarrow> (nat \<Rightarrow> byte) \<Rightarrow> 'a::len word" where
  "le_word n rd = foldl (\<lambda>x j. x OR push_bit (j * 8) (ucast (rd j))) 0 [0..<n]"

definition get_le :: "nat \<Rightarrow> byte list \<Rightarrow> nat \<Rightarrow> 'a::len word result" where
  "get_le n data off =
     (if off + n \<le> length data then Inr (le_word n (\<lambda>j. data ! (off + j))) else Inl Undefined)"

lemma length_put_le [simp, len_simps]: "length (put_le n x) = n"
  by (simp add: put_le_def)

lemma bit_0xFF [simp]: "bit (0xFF :: int) k \<longleftrightarrow> k < 8"
proof -
  have "(0xFF :: int) = mask 8" by (simp add: mask_eq_exp_minus_1)
  then show ?thesis by (simp only: bit_mask_iff) simp
qed

lemma bit_put_le:
  "j < n \<Longrightarrow> bit (put_le n x ! j) k \<longleftrightarrow> k < 8 \<and> bit x (j * 8 + k)"
  for x :: "'a::len word"
  by (auto simp: put_le_def bit_simps dest: bit_imp_le_length)

lemma bit_le_word:
  "bit (le_word n rd :: 'a::len word) k \<longleftrightarrow>
     k < LENGTH('a) \<and> k < n * 8 \<and> bit (rd (k div 8)) (k mod 8)"
proof (induction n)
  case 0
  then show ?case by (simp add: le_word_def)
next
  case (Suc n)
  have "bit (le_word (Suc n) rd :: 'a word) k \<longleftrightarrow> bit (le_word n rd :: 'a word) k \<or>
      (n * 8 \<le> k \<and> k < LENGTH('a) \<and> bit (rd n) (k - n * 8))"
    by (auto simp: le_word_def bit_simps)
  moreover have "n * 8 \<le> k \<and> bit (rd n) (k - n * 8) \<longleftrightarrow>
      n * 8 \<le> k \<and> k < Suc n * 8 \<and> bit (rd (k div 8)) (k mod 8)"
  proof (cases "n * 8 \<le> k \<and> k < Suc n * 8")
    case True
    then obtain d where d: "k = d + n * 8" "d < 8"
      by (metis add.commute le_Suc_ex less_diff_conv2 add_diff_cancel_left' mult_Suc)
    then show ?thesis by simp
  next
    case False
    have "bit (rd n) (k - n * 8) \<Longrightarrow> k - n * 8 < 8"
      using bit_imp_le_length [of "rd n" "k - n * 8"] by simp
    with False show ?thesis by (cases "n * 8 \<le> k") auto
  qed
  ultimately show ?case using Suc.IH by auto
qed

lemma le_word_put_le:
  fixes x :: "'a::len word"
  assumes "LENGTH('a) \<le> n * 8" and "\<And>j. j < n \<Longrightarrow> rd j = put_le n x ! j"
  shows "le_word n rd = x"
proof (rule bit_word_eqI)
  fix k assume k: "k < LENGTH('a)"
  with assms(1) have "k div 8 < n" by (simp add: less_mult_imp_div_less)
  with k assms show "bit (le_word n rd :: 'a word) k = bit x k"
    by (simp add: bit_le_word bit_put_le)
qed

lemma get_le_put_le [codec_simps]:
  fixes x :: "'a::len word"
  assumes "LENGTH('a) \<le> n * 8" and "off = length pre"
  shows "get_le n (pre @ put_le n x @ post) off = Inr x"
  using assms by (simp add: get_le_def le_word_put_le nth_append)

lemma get_le_beyond [codec_simps]:
  "length data < off + n \<Longrightarrow> get_le n data off = Inl Undefined"
  by (simp add: get_le_def)

lemma get_le_Inr_bound: "get_le n data off = Inr x \<Longrightarrow> off + n \<le> length data"
  by (simp add: get_le_def split: if_splits)

section \<open>Network byte order\<close>

text \<open>
  \<^verbatim>\<open>htons\<close>/\<^verbatim>\<open>ntohs\<close> and \<^verbatim>\<open>htonl\<close>/\<^verbatim>\<open>ntohl\<close> on a little-endian host (the x86-64 Linux the
  program is built for): they reverse the bytes of a 16-bit and of a 32-bit value.
\<close>

definition htons :: "u16 \<Rightarrow> u16" where
  "htons x = push_bit 8 x OR drop_bit 8 x"

definition ntohs :: "u16 \<Rightarrow> u16" where
  "ntohs x = push_bit 8 x OR drop_bit 8 x"

definition htonl :: "u32 \<Rightarrow> u32" where
  "htonl x = push_bit 24 x OR (push_bit 8 x AND 0xFF0000) OR (drop_bit 8 x AND 0xFF00)
     OR drop_bit 24 x"

definition ntohl :: "u32 \<Rightarrow> u32" where
  "ntohl x = push_bit 24 x OR (push_bit 8 x AND 0xFF0000) OR (drop_bit 8 x AND 0xFF00)
     OR drop_bit 24 x"

lemma ntohs_htons [simp, codec_simps]: "ntohs (htons x) = x"
  by (rule bit_word_eqI) (auto simp: ntohs_def htons_def bit_simps dest: bit_imp_le_length)

lemma bit_0xFF00 [simp]: "bit (0xFF00 :: int) k \<longleftrightarrow> 8 \<le> k \<and> k < 16"
proof -
  have "(0xFF00 :: int) = push_bit 8 0xFF" by (simp add: push_bit_eq_mult)
  then show ?thesis by (simp only: bit_push_bit_iff) auto
qed

lemma bit_0xFF0000 [simp]: "bit (0xFF0000 :: int) k \<longleftrightarrow> 16 \<le> k \<and> k < 24"
proof -
  have "(0xFF0000 :: int) = push_bit 16 0xFF" by (simp add: push_bit_eq_mult)
  then show ?thesis by (simp only: bit_push_bit_iff) auto
qed

lemma bit_swap32:
  "bit (push_bit 24 x OR (push_bit 8 x AND 0xFF0000) OR (drop_bit 8 x AND 0xFF00)
     OR drop_bit 24 x) k \<longleftrightarrow>
   (24 \<le> k \<and> k < 32 \<and> bit x (k - 24)) \<or> (16 \<le> k \<and> k < 24 \<and> bit x (k - 8)) \<or>
   (8 \<le> k \<and> k < 16 \<and> bit x (k + 8)) \<or> (k < 8 \<and> bit x (k + 24))"
  for x :: u32
  using bit_imp_le_length [of x "k + 24"] by (auto simp: bit_simps ac_simps)

lemma ntohl_htonl [simp, codec_simps]: "ntohl (htonl x) = x"
proof (rule bit_word_eqI)
  fix k assume "k < LENGTH(32)"
  then have "k < 8 \<or> (8 \<le> k \<and> k < 16) \<or> (16 \<le> k \<and> k < 24) \<or> (24 \<le> k \<and> k < 32)"
    by auto
  then show "bit (ntohl (htonl x)) k = bit x k"
    unfolding ntohl_def htonl_def bit_swap32 by (elim disjE conjE) auto
qed

section \<open>Decimal text\<close>

text \<open>\<^verbatim>\<open>std::to_string\<close> on unsigned and signed integers, and \<^verbatim>\<open>std::stoi\<close>.\<close>

definition digit :: "nat \<Rightarrow> char" where
  "digit d = char_of (48 + d)"

definition digit_value :: "char \<Rightarrow> nat" where
  "digit_value c = of_char c - 48"

definition is_digit :: "char \<Rightarrow> bool" where
  "is_digit c \<longleftrightarrow> 48 \<le> (of_char c :: nat) \<and> (of_char c :: nat) \<le> 57"

definition is_space :: "char \<Rightarrow> bool" where
  "is_space c \<longleftrightarrow> (of_char c :: nat) \<in> {9, 10, 11, 12, 13, 32}"

fun decimal :: "nat \<Rightarrow> string" where
  "decimal n = (if n < 10 then [digit n] else decimal (n div 10) @ [digit (n mod 10)])"

declare decimal.simps [simp del]

definition to_string_int :: "int \<Rightarrow> string" where
  "to_string_int i = (if i < 0 then CHR ''-'' # decimal (nat (- i)) else decimal (nat i))"

definition digits_value :: "string \<Rightarrow> nat" where
  "digits_value ds = foldl (\<lambda>a c. a * 10 + digit_value c) 0 ds"

definition stoi :: "string \<Rightarrow> c_int result" where
  "stoi s =
     (let t = dropWhile is_space s;
          neg = (case t of c # _ \<Rightarrow> c = CHR ''-'' | [] \<Rightarrow> False);
          u = (case t of c # r \<Rightarrow> if c = CHR ''-'' \<or> c = CHR ''+'' then r else t | [] \<Rightarrow> []);
          ds = takeWhile is_digit u;
          v = (if neg then - int (digits_value ds) else int (digits_value ds))
      in if ds = [] then Inl Invalid_argument
         else if v < - (2 ^ 31) \<or> 2 ^ 31 \<le> v then Inl Out_of_range
         else Inr (word_of_int v))"

lemma of_char_digit: "d < 10 \<Longrightarrow> of_char (digit d) = 48 + d"
  by (simp add: digit_def)

lemma digit_value_digit [simp]: "d < 10 \<Longrightarrow> digit_value (digit d) = d"
  by (simp add: digit_value_def of_char_digit)

lemma is_digit_digit [simp]: "d < 10 \<Longrightarrow> is_digit (digit d)"
  by (simp add: is_digit_def of_char_digit)

lemma decimal_digits: "\<forall>c \<in> set (decimal n). is_digit c"
proof (induction n rule: decimal.induct)
  case (1 n)
  then show ?case by (subst decimal.simps) auto
qed

lemma decimal_not_Nil [simp]: "decimal n \<noteq> []"
  by (subst decimal.simps) simp

lemma digits_value_decimal [simp]: "digits_value (decimal n) = n"
proof (induction n rule: decimal.induct)
  case (1 n)
  show ?case
  proof (cases "n < 10")
    case True
    then show ?thesis by (subst decimal.simps) (simp add: digits_value_def)
  next
    case False
    with 1 have "digits_value (decimal (n div 10)) = n div 10" by simp
    then show ?thesis
      by (subst decimal.simps) (use False in \<open>simp add: digits_value_def\<close>)
  qed
qed

lemma decimal_inject [simp]: "decimal m = decimal n \<longleftrightarrow> m = n"
  by (metis digits_value_decimal)

lemma length_decimal: "n < 10 ^ Suc k \<Longrightarrow> length (decimal n) \<le> Suc k"
proof (induction k arbitrary: n)
  case 0
  then show ?case by (subst decimal.simps) simp
next
  case (Suc k)
  then have "n div 10 < 10 ^ Suc k" by (simp add: div_less_iff_less_mult)
  with Suc.IH have "length (decimal (n div 10)) \<le> Suc k" by blast
  then show ?case by (subst decimal.simps) simp
qed

lemma decimal_hd_digit: "decimal n = c # cs \<Longrightarrow> is_digit c"
  using decimal_digits [of n] by simp

lemma digit_not_special:
  "is_digit c \<Longrightarrow> \<not> is_space c \<and> c \<noteq> CHR ''-'' \<and> c \<noteq> CHR ''+''"
  by (auto simp: is_digit_def is_space_def)

lemma to_string_int_inject [simp]: "to_string_int i = to_string_int j \<longleftrightarrow> i = j"
proof -
  have *: "CHR ''-'' # decimal m \<noteq> decimal n" for m n
    using decimal_hd_digit [of n "CHR ''-''"] digit_not_special by metis
  have "decimal n \<noteq> CHR ''-'' # decimal m" for m n using * by metis
  with * show ?thesis by (auto simp: to_string_int_def)
qed

lemma takeWhile_decimal:
  "rest = [] \<or> \<not> is_digit (hd rest) \<Longrightarrow> takeWhile is_digit (decimal n @ rest) = decimal n"
  using decimal_digits [of n]
  by (metis append.right_neutral list.collapse takeWhile_append2 takeWhile.simps)

lemma stoi_decimal_append:
  assumes "n < 2 ^ 31" and "rest = [] \<or> \<not> is_digit (hd rest)"
  shows "stoi (decimal n @ rest) = Inr (word_of_nat n)"
proof -
  obtain c cs where d: "decimal n = c # cs" by (metis decimal_not_Nil list.exhaust)
  then have c: "\<not> is_space c" "c \<noteq> CHR ''-''" "c \<noteq> CHR ''+''"
    using decimal_hd_digit digit_not_special by blast+
  from takeWhile_decimal [OF assms(2), of n] have tw': "takeWhile is_digit (c # cs @ rest) = decimal n"
    by (simp add: d)
  show ?thesis using c assms(1) tw'
    by (simp add: stoi_def d Let_def) (simp add: d [symmetric])
qed

lemma stoi_to_string_int:
  assumes "- (2 ^ 31) \<le> i" and "i < 2 ^ 31" and "rest = [] \<or> \<not> is_digit (hd rest)"
  shows "stoi (to_string_int i @ rest) = Inr (word_of_int i)"
proof (cases "i < 0")
  case False
  then have "stoi (decimal (nat i) @ rest) = Inr (word_of_nat (nat i))"
    using assms by (intro stoi_decimal_append) simp_all
  with False show ?thesis by (simp add: to_string_int_def)
next
  case True
  have "\<not> is_space CHR ''-''" by (simp add: is_space_def)
  with True assms show ?thesis
    by (simp add: to_string_int_def stoi_def Let_def takeWhile_decimal)
qed

section \<open>Decoding a truncated buffer\<close>

text \<open>
  Cutting a buffer at \<open>m\<close> changes nothing for reads that end before \<open>m\<close>; every other read
  runs past the end.
\<close>

lemma get_le_take:
  "get_le n (take m data) off = (if off + n \<le> m then get_le n data off else Inl Undefined)"
proof (cases "off + n \<le> m \<and> off + n \<le> length data")
  case True
  then have "le_word n (\<lambda>j. take m data ! (off + j)) = (le_word n (\<lambda>j. data ! (off + j)) :: 'a word)"
    unfolding le_word_def by (intro foldl_cong) auto
  with True show ?thesis by (simp add: get_le_def)
next
  case False
  then show ?thesis by (auto simp: get_le_def)
qed

lemma range_of_take:
  "range_of (take m data) off n = (if off + n \<le> m then range_of data off n else Inl Undefined)"
  by (auto simp: range_of_def drop_take min_def)

section \<open>Self-delimiting records\<close>

text \<open>
  What the users of a record format rely on: decoding at the start of an encoding gives the
  record and the offset behind it, and an encoding that is cut short runs the decoder past the
  end of the buffer. \<open>decode_count\<close> is the loop of a decoder that knows how many records follow.
\<close>

fun decode_count ::
  "(byte list \<Rightarrow> nat \<Rightarrow> ('a \<times> nat) result) \<Rightarrow> nat \<Rightarrow> byte list \<Rightarrow> nat \<Rightarrow> ('a list \<times> nat) result" where
  "decode_count dec 0 data off = Inr ([], off)"
| "decode_count dec (Suc n) data off =
     bind_result (dec data off) (\<lambda>(x, off').
     bind_result (decode_count dec n data off') (\<lambda>(xs, off''). Inr (x # xs, off'')))"

locale record_codec =
  fixes enc :: "'a \<Rightarrow> byte list"
    and dec :: "byte list \<Rightarrow> nat \<Rightarrow> ('a \<times> nat) result"
    and ok :: "'a \<Rightarrow> bool"
  assumes dec_enc: "ok x \<Longrightarrow> dec (pre @ enc x @ post) (length pre) = Inr (x, length pre + length (enc x))"
    and dec_torn: "ok x \<Longrightarrow> n < length (enc x) \<Longrightarrow>
      dec (pre @ take n (enc x)) (length pre) = Inl Undefined"
begin

lemma enc_inject: "ok x \<Longrightarrow> ok y \<Longrightarrow> enc x = enc y \<Longrightarrow> x = y"
  using dec_enc [of x "[]" "[]"] dec_enc [of y "[]" "[]"] by simp

lemma enc_prefix_free: "ok x \<Longrightarrow> ok y \<Longrightarrow> x \<noteq> y \<Longrightarrow> enc x @ r \<noteq> enc y @ s"
  using dec_enc [of x "[]" r] dec_enc [of y "[]" s] by auto

lemma decode_count_enc:
  "\<forall>x \<in> set xs. ok x \<Longrightarrow>
    decode_count dec (length xs) (pre @ concat (map enc xs) @ post) (length pre) =
      Inr (xs, length pre + length (concat (map enc xs)))"
proof (induction xs arbitrary: pre)
  case Nil
  then show ?case by simp
next
  case (Cons x xs)
  from Cons.prems have "dec (pre @ enc x @ concat (map enc xs) @ post) (length pre) =
      Inr (x, length (pre @ enc x))"
    by (simp add: dec_enc)
  moreover from Cons have "decode_count dec (length xs)
      ((pre @ enc x) @ concat (map enc xs) @ post) (length (pre @ enc x)) =
      Inr (xs, length (pre @ enc x) + length (concat (map enc xs)))"
    by (intro Cons.IH) simp
  ultimately show ?case by simp
qed

lemma decode_count_torn:
  "\<forall>x \<in> set xs. ok x \<Longrightarrow> n < length (concat (map enc xs)) \<Longrightarrow>
    decode_count dec (length xs) (pre @ take n (concat (map enc xs))) (length pre) = Inl Undefined"
proof (induction xs arbitrary: pre n)
  case Nil
  then show ?case by simp
next
  case (Cons x xs)
  show ?case
  proof (cases "n < length (enc x)")
    case True
    with Cons.prems show ?thesis by (simp add: dec_torn)
  next
    case False
    define m where "m = n - length (enc x)"
    with False have cut: "pre @ take n (concat (map enc (x # xs))) =
        pre @ enc x @ take m (concat (map enc xs))" by simp
    from False Cons.prems have "m < length (concat (map enc xs))" by (simp add: m_def)
    then have "decode_count dec (length xs) ((pre @ enc x) @ take m (concat (map enc xs)))
        (length (pre @ enc x)) = Inl Undefined"
      using Cons.prems by (intro Cons.IH) simp_all
    with Cons.prems show ?thesis unfolding cut by (simp add: dec_enc)
  qed
qed

end

end
