(* ===== verification/Crc32.thy ===== *)
theory Crc32
  imports Prelude
begin

text \<open>
  The checksum of \<^verbatim>\<open>include/crc32.h\<close>: the table the first call builds, the table-driven
  update of one byte and the whole computation.
  The lemmas show that the table lookup is eight steps of the bit-serial shift register,
  that the register's step is a linear bijection, and hence that the checksum tells apart
  any two messages that differ only inside a window of four bytes.
\<close>

section \<open>The code\<close>

definition poly :: u32 where
  "poly = 0xEDB88320"

text \<open>One round of the inner loop that builds a table entry.\<close>

definition crc_shift :: "u32 \<Rightarrow> u32" where
  "crc_shift crc = (if crc AND 1 \<noteq> 0 then drop_bit 1 crc XOR poly else drop_bit 1 crc)"

definition table_entry :: "nat \<Rightarrow> u32" where
  "table_entry i = (crc_shift ^^ 8) (of_nat i)"

definition build_table :: "u32 list" where
  "build_table = map table_entry [0..<256]"

text \<open>The function-local statics \<^verbatim>\<open>table\<close> and \<^verbatim>\<open>inited\<close>.\<close>

record crc_static =
  table :: "u32 list"
  inited :: bool

definition crc_static0 :: crc_static where
  "crc_static0 = \<lparr>table = replicate 256 0, inited = False\<rparr>"

definition crc_init :: "crc_static \<Rightarrow> crc_static" where
  "crc_init st = (if \<not> inited st then \<lparr>table = build_table, inited = True\<rparr> else st)"

definition crc_update :: "u32 list \<Rightarrow> u32 \<Rightarrow> byte \<Rightarrow> u32" where
  "crc_update tab crc b = drop_bit 8 crc XOR tab ! unat ((crc XOR ucast b) AND 0xFF)"

definition crc32_call :: "crc_static \<Rightarrow> byte list \<Rightarrow> u32 \<times> crc_static" where
  "crc32_call st data =
     (let st' = crc_init st
      in (foldl (crc_update (table st')) 0xFFFFFFFF data XOR 0xFFFFFFFF, st'))"

text \<open>
  The value every caller sees. \<open>crc32_call_eq\<close> below justifies leaving the statics out of the
  other components.
\<close>

definition crc32_compute :: "byte list \<Rightarrow> u32" where
  "crc32_compute data = foldl (crc_update build_table) 0xFFFFFFFF data XOR 0xFFFFFFFF"

text \<open>The bit-serial checksum: one shift per message bit, least significant bit first.\<close>

definition crc_bit :: "u32 \<Rightarrow> bool \<Rightarrow> u32" where
  "crc_bit crc d = (if bit crc 0 \<noteq> d then drop_bit 1 crc XOR poly else drop_bit 1 crc)"

definition byte_bits :: "byte \<Rightarrow> bool list" where
  "byte_bits b = map (bit b) [0..<8]"

definition crc32_serial :: "byte list \<Rightarrow> u32" where
  "crc32_serial data = foldl crc_bit 0xFFFFFFFF (concat (map byte_bits data)) XOR 0xFFFFFFFF"

definition crc_static_ok :: "crc_static \<Rightarrow> bool" where
  "crc_static_ok st \<longleftrightarrow> (inited st \<longrightarrow> table st = build_table)"

section \<open>The shift register is linear and injective\<close>

lemma crc_shift_eq: "crc_shift x = drop_bit 1 x XOR (if bit x 0 then poly else 0)"
  by (simp add: crc_shift_def and_one_eq bit_0 odd_iff_mod_2_eq_one)

lemma crc_shift_xor: "crc_shift (x XOR y) = crc_shift x XOR crc_shift y"
  by (rule bit_word_eqI) (auto simp: crc_shift_eq bit_simps)

lemma crc_shifts_xor: "(crc_shift ^^ n) (x XOR y) = (crc_shift ^^ n) x XOR (crc_shift ^^ n) y"
  by (induction n) (simp_all add: crc_shift_xor)

lemma crc_shifts_zeros:
  "(\<forall>i < n. \<not> bit x i) \<Longrightarrow> (crc_shift ^^ n) x = drop_bit n x"
proof (induction n)
  case 0
  then show ?case by simp
next
  case (Suc n)
  then have "(crc_shift ^^ n) x = drop_bit n x" and "\<not> bit (drop_bit n x) 0"
    by (simp_all add: bit_drop_bit_eq)
  then have "(crc_shift ^^ Suc n) x = drop_bit 1 (drop_bit n x)"
    by (simp add: crc_shift_eq [of "drop_bit n x"])
  then show ?case by simp
qed

lemma bit_poly_31: "bit poly 31"
  by (simp add: poly_def)

lemma xor_right_cancel: "x XOR z = y XOR z \<longleftrightarrow> x = y" for x y z :: "'a::len word"
  by (metis xor.assoc xor.right_neutral xor_self_eq)

lemma crc_shift_inject: "crc_shift x = crc_shift y \<longleftrightarrow> x = y"
proof
  assume eq: "crc_shift x = crc_shift y"
  have "bit (crc_shift z) 31 \<longleftrightarrow> bit z 0" for z
    using bit_poly_31 bit_imp_le_length [of z 32]
    by (auto simp: crc_shift_eq bit_xor_iff bit_drop_bit_eq)
  with eq have low: "bit x 0 \<longleftrightarrow> bit y 0" by metis
  with eq have "drop_bit 1 x = drop_bit 1 y"
    by (simp add: crc_shift_eq xor_right_cancel)
  then have high: "bit x (Suc n) \<longleftrightarrow> bit y (Suc n)" for n
    by (metis bit_drop_bit_eq comp_apply plus_1_eq_Suc)
  show "x = y"
  proof (rule bit_word_eqI)
    fix n show "bit x n = bit y n" using low high by (cases n) auto
  qed
qed simp

lemma crc_shifts_inject: "(crc_shift ^^ n) x = (crc_shift ^^ n) y \<longleftrightarrow> x = y"
  by (induction n) (simp_all add: crc_shift_inject)

section \<open>Table lookup and bit-serial steps\<close>

abbreviation crc_byte :: "u32 \<Rightarrow> byte \<Rightarrow> u32" where
  "crc_byte \<equiv> crc_update build_table"

lemma build_table_nth: "i < 256 \<Longrightarrow> build_table ! i = table_entry i"
  by (simp add: build_table_def)

lemma bit_and_255: "bit (x AND 0xFF) k \<longleftrightarrow> k < 8 \<and> bit x k" for x :: u32
  by (auto simp: bit_and_iff)

lemma crc_byte_eq: "crc_byte crc b = (crc_shift ^^ 8) (crc XOR ucast b)"
proof -
  define y where "y = crc XOR ucast b"
  have "y AND 0xFF \<le> (0xFF :: u32)" by (rule word_and_le1)
  then have "unat (y AND 0xFF) < 256" by (simp add: word_le_nat_alt)
  then have look: "build_table ! unat (y AND 0xFF) = (crc_shift ^^ 8) (y AND 0xFF)"
    by (simp add: build_table_nth table_entry_def)
  define m :: u32 where "m = NOT 0xFF"
  have m: "bit m k \<longleftrightarrow> 8 \<le> k \<and> k < 32" for k
    unfolding m_def bit_not_iff by auto
  have split: "y = (y AND 0xFF) XOR (y AND m)"
    by (rule bit_word_eqI) (auto simp: bit_and_iff bit_xor_iff m)
  have "(crc_shift ^^ 8) (y AND m) = drop_bit 8 (y AND m)"
    by (rule crc_shifts_zeros) (auto simp: bit_and_iff m)
  moreover have "drop_bit 8 (y AND m) = drop_bit 8 crc"
    by (rule bit_word_eqI)
      (auto simp: y_def bit_drop_bit_eq bit_and_iff bit_xor_iff bit_ucast_iff m
        dest: bit_imp_le_length)
  ultimately have "(crc_shift ^^ 8) y = (crc_shift ^^ 8) (y AND 0xFF) XOR drop_bit 8 crc"
    by (metis split crc_shifts_xor)
  with look show ?thesis by (simp add: crc_update_def y_def ac_simps)
qed

lemma crc_bit_eq: "crc_bit crc d = crc_shift (crc XOR of_bool d)"
proof -
  have "drop_bit 1 (crc XOR of_bool d) = drop_bit 1 crc"
    by (rule bit_word_eqI) (auto simp: bit_simps bit_1_iff)
  then show ?thesis by (auto simp: crc_bit_def crc_shift_eq bit_simps)
qed

lemma crc_bits_eq:
  "n \<le> 8 \<Longrightarrow> foldl crc_bit crc (map (bit b) [0..<n]) =
     (crc_shift ^^ n) (crc XOR ucast (take_bit n b))"
  for b :: byte
proof (induction n)
  case 0
  then show ?case by simp
next
  case (Suc n)
  define d :: u32 where "d = push_bit n (of_bool (bit b n))"
  have "(crc_shift ^^ n) d = drop_bit n d"
    by (rule crc_shifts_zeros) (auto simp: d_def bit_simps)
  moreover have "drop_bit n d = of_bool (bit b n)"
    using Suc.prems by (intro bit_word_eqI) (auto simp: d_def bit_simps bit_1_iff)
  moreover have "ucast (take_bit (Suc n) b) = ucast (take_bit n b) XOR d"
    using Suc.prems
    by (intro bit_word_eqI) (auto simp: d_def bit_simps bit_1_iff less_Suc_eq)
  ultimately show ?case using Suc
    by (simp add: crc_bit_eq crc_shifts_xor ac_simps)
qed

lemma crc_serial_byte: "foldl crc_bit crc (byte_bits b) = crc_byte crc b"
  using crc_bits_eq [of 8 crc b] take_bit_word_eq_self [of 8 b]
  by (simp add: byte_bits_def crc_byte_eq)

lemma foldl_crc_serial:
  "foldl crc_bit crc (concat (map byte_bits data)) = foldl crc_byte crc data"
  by (induction data arbitrary: crc) (simp_all add: crc_serial_byte)

section \<open>Windows of at most four bytes\<close>

lemma le_word_Suc:
  "le_word (Suc n) rd = (le_word n rd OR push_bit (n * 8) (ucast (rd n)) :: 'a::len word)"
  by (simp add: le_word_def)

lemma le_word_cong: "(\<And>j. j < n \<Longrightarrow> rd j = rd' j) \<Longrightarrow> le_word n rd = le_word n rd'"
  by (induction n) (simp_all add: le_word_Suc, simp add: le_word_def)

lemma crc_window:
  "n \<le> 4 \<Longrightarrow> n \<le> length u \<Longrightarrow>
    foldl crc_byte crc (take n u) = (crc_shift ^^ (n * 8)) (crc XOR le_word n ((!) u))"
proof (induction n)
  case 0
  then show ?case by (simp add: le_word_def)
next
  case (Suc n)
  define d :: u32 where "d = push_bit (n * 8) (ucast (u ! n))"
  have "(crc_shift ^^ (n * 8)) d = drop_bit (n * 8) d"
    by (rule crc_shifts_zeros) (auto simp: d_def bit_simps)
  moreover have "drop_bit (n * 8) d = ucast (u ! n)"
    using Suc.prems
    by (intro bit_word_eqI) (auto simp: d_def bit_simps dest: bit_imp_le_length)
  moreover have "le_word (Suc n) ((!) u) = le_word n ((!) u) XOR d"
    by (rule bit_word_eqI) (auto simp: le_word_Suc d_def bit_simps bit_le_word)
  moreover have "take (Suc n) u = take n u @ [u ! n]"
    using Suc.prems by (simp add: take_Suc_conv_app_nth)
  ultimately show ?case using Suc
    by (simp add: crc_byte_eq crc_shifts_xor funpow_add ac_simps add.commute)
qed

lemma le_word_inject:
  assumes "le_word n rd = (le_word n rd' :: u32)" and "n \<le> 4" and "j < n"
  shows "rd j = rd' j"
proof (rule bit_word_eqI)
  fix k assume k: "k < LENGTH(8)"
  have "bit (le_word n r :: u32) (j * 8 + k) \<longleftrightarrow> bit (r j) k" for r
    using k assms(2,3) by (simp add: bit_le_word)
  with assms(1) show "bit (rd j) k = bit (rd' j) k" by metis
qed

lemma foldl_crc_inject: "foldl crc_byte c data = foldl crc_byte c' data \<longleftrightarrow> c = c'"
proof (induction data arbitrary: c c')
  case (Cons b data)
  have "crc_byte c b = crc_byte c' b \<longleftrightarrow> c = c'"
    by (simp add: crc_byte_eq crc_shifts_inject xor_right_cancel)
  with Cons show ?case by simp
qed simp

section \<open>Properties\<close>

text \<open>Whatever earlier calls left in the statics, a call returns \<open>crc32_compute\<close>.\<close>

lemma crc32_call_eq:
  "crc_static_ok st \<Longrightarrow>
     fst (crc32_call st data) = crc32_compute data \<and> crc_static_ok (snd (crc32_call st data))"
  by (simp add: crc32_call_def crc32_compute_def crc_init_def crc_static_ok_def Let_def)

lemma crc_static0_ok: "crc_static_ok crc_static0"
  by (simp add: crc_static_ok_def crc_static0_def)

lemma crc32_compute_serial: "crc32_compute data = crc32_serial data"
  by (simp add: crc32_compute_def crc32_serial_def foldl_crc_serial)

lemma crc32_window_inject:
  assumes "length u = length v" and "length u \<le> 4"
    and "crc32_compute (xs @ u @ ys) = crc32_compute (xs @ v @ ys)"
  shows "u = v"
proof -
  let ?c = "foldl crc_byte 0xFFFFFFFF xs"
  from assms(3) have "foldl crc_byte ?c u = foldl crc_byte ?c v"
    by (simp add: crc32_compute_def xor_right_cancel foldl_crc_inject)
  with assms crc_window [of "length u" u ?c] crc_window [of "length v" v ?c]
  have "le_word (length u) ((!) u) = (le_word (length u) ((!) v) :: u32)"
    by (simp add: crc_shifts_inject xor.commute [of ?c] xor_right_cancel)
  with assms show ?thesis
    by (intro nth_equalityI) (auto intro: le_word_inject [of "length u"])
qed

end
