(* ===== verification/Command.thy ===== *)
theory Command
  imports Prelude
begin

text \<open>
  The commands of \<^verbatim>\<open>include/Command.h\<close>: operation, key and value, their wire format (one byte of
  operation, two 16-bit lengths, key bytes, value bytes) and its decoder.
  The lemmas show the round trip, that the decoder accepts exactly the inputs whose declared
  lengths fit, and what it does with everything else.
\<close>

section \<open>The code\<close>

text \<open>
  \<^verbatim>\<open>enum class OpType : uint8_t\<close> has a fixed underlying type, so \<^verbatim>\<open>static_cast<OpType>\<close> of any
  byte is a value of it; \<open>UNNAMED\<close> holds the values that are no enumerator.
\<close>

datatype OpType = PUT | DELETE | NOOP | UNNAMED byte

fun op_byte :: "OpType \<Rightarrow> byte" where
  "op_byte PUT = 1"
| "op_byte DELETE = 2"
| "op_byte NOOP = 3"
| "op_byte (UNNAMED b) = b"

definition op_of_byte :: "byte \<Rightarrow> OpType" where
  "op_of_byte b = (if b = 1 then PUT else if b = 2 then DELETE else if b = 3 then NOOP else UNNAMED b)"

record Command =
  oper :: OpType
  Key :: string
  Val :: string

definition Command_default :: Command where
  "Command_default = \<lparr>oper = NOOP, Key = [], Val = []\<rparr>"

definition mk_Command :: "OpType \<Rightarrow> string \<Rightarrow> string \<Rightarrow> Command" where
  "mk_Command op k v = \<lparr>oper = op, Key = k, Val = v\<rparr>"

definition push_u16 :: "u16 \<Rightarrow> byte list" where
  "push_u16 x = [ucast (drop_bit 8 x AND 0xFF), ucast (x AND 0xFF)]"

definition Command_serialize :: "Command \<Rightarrow> byte list" where
  "Command_serialize c =
     [op_byte (oper c)]
     @ push_u16 (htons (of_nat (length (Key c))))
     @ push_u16 (htons (of_nat (length (Val c))))
     @ bytes_of (Key c)
     @ bytes_of (Val c)"

definition read_u16 :: "byte list \<Rightarrow> nat \<Rightarrow> u16" where
  "read_u16 data pos = push_bit 8 (ucast (data ! pos)) OR ucast (data ! (pos + 1))"

definition Command_deserialize :: "byte list \<Rightarrow> Command result" where
  "Command_deserialize data =
     (if length data < 5 then Inl (Runtime_error ''Command too short'')
      else
        let op = op_of_byte (data ! 0);
            Keylen = unat (ntohs (read_u16 data 1));
            val_len = unat (ntohs (read_u16 data 3))
        in bind_result (range_of data 5 Keylen) (\<lambda>key.
           bind_result (range_of data (5 + Keylen) val_len) (\<lambda>value.
           Inr (mk_Command op (string_of key) (string_of value)))))"

definition isNoop :: "Command \<Rightarrow> bool" where
  "isNoop c \<longleftrightarrow> oper c = NOOP"

definition isPut :: "Command \<Rightarrow> bool" where
  "isPut c \<longleftrightarrow> oper c = PUT"

definition isDelete :: "Command \<Rightarrow> bool" where
  "isDelete c \<longleftrightarrow> oper c = DELETE"

definition Command_toString :: "Command \<Rightarrow> string" where
  "Command_toString c =
     (if oper c = PUT then ''PUT '' @ Key c @ ''='' @ Val c
      else if oper c = DELETE then ''DELETE '' @ Key c
      else ''NOOP'')"

section \<open>Well-formed commands\<close>

fun op_ok :: "OpType \<Rightarrow> bool" where
  "op_ok (UNNAMED b) \<longleftrightarrow> b \<noteq> 1 \<and> b \<noteq> 2 \<and> b \<noteq> 3"
| "op_ok _ \<longleftrightarrow> True"

definition command_ok :: "Command \<Rightarrow> bool" where
  "command_ok c \<longleftrightarrow> op_ok (oper c) \<and> length (Key c) < 2 ^ 16 \<and> length (Val c) < 2 ^ 16"

lemma op_of_byte_op_byte [simp]: "op_ok op \<Longrightarrow> op_of_byte (op_byte op) = op"
  by (cases op) (simp_all add: op_of_byte_def)

lemma op_byte_op_of_byte [simp]: "op_byte (op_of_byte b) = b"
  by (simp add: op_of_byte_def)

lemma op_ok_op_of_byte [simp]: "op_ok (op_of_byte b)"
  by (simp add: op_of_byte_def)

lemma read_push_u16:
  assumes "data ! i = ucast (drop_bit 8 x AND 0xFF)" and "data ! Suc i = ucast (x AND 0xFF)"
  shows "read_u16 data i = x"
  using assms
  by (intro bit_word_eqI) (auto simp: read_u16_def bit_simps dest: bit_imp_le_length)

lemma push_read_u16:
  "push_u16 (read_u16 data i) = [data ! i, data ! (i + 1)]"
  by (auto simp: push_u16_def read_u16_def intro!: bit_word_eqI)
    (auto simp: bit_simps dest: bit_imp_le_length)

lemma unat_of_nat_u16: "n < 2 ^ 16 \<Longrightarrow> unat (of_nat n :: u16) = n"
  by (simp add: unat_of_nat take_bit_nat_eq_self_iff)

lemma length_push_u16 [simp, len_simps]: "length (push_u16 x) = 2"
  by (simp add: push_u16_def)

lemma length_Command_serialize [len_simps]:
  "length (Command_serialize c) = 5 + length (Key c) + length (Val c)"
  by (simp add: Command_serialize_def)

section \<open>The decoder on every input\<close>

text \<open>A command frame: operation byte, the two length fields as they are on the wire, the rest.\<close>

lemma read_u16_frame:
  "read_u16 (b # push_u16 k @ push_u16 v @ body) (Suc 0) = k"
  "read_u16 (b # push_u16 k @ push_u16 v @ body) 3 = v"
  by (rule read_push_u16; simp add: push_u16_def numeral_3_eq_3)+

lemma Command_deserialize_frame:
  "Command_deserialize (b # push_u16 k @ push_u16 v @ body) =
     (if unat (ntohs k) + unat (ntohs v) \<le> length body
      then Inr (mk_Command (op_of_byte b) (string_of (take (unat (ntohs k)) body))
                  (string_of (take (unat (ntohs v)) (drop (unat (ntohs k)) body))))
      else Inl Undefined)"
proof -
  have "drop 5 (b # push_u16 k @ push_u16 v @ body) = body"
    by (simp add: push_u16_def)
  then have "range_of (b # push_u16 k @ push_u16 v @ body) (5 + m) n =
      (if m + n \<le> length body then Inr (take n (drop m body)) else Inl Undefined)" for m n
    by (simp add: range_of_def drop_drop [symmetric, of m 5] add.commute)
  from this [of 0] this show ?thesis
    by (simp add: Command_deserialize_def Let_def read_u16_frame)
qed

lemma frame_of_data:
  assumes "5 \<le> length data"
  shows "data = data ! 0 # push_u16 (read_u16 data 1) @ push_u16 (read_u16 data 3) @ drop 5 data"
proof -
  from assms have "data = take 5 data @ drop 5 data" and "length (take 5 data) = 5" by simp_all
  moreover have "take 5 data = [data ! 0, data ! 1, data ! 2, data ! 3, data ! 4]"
    using assms by (intro nth_equalityI) (auto simp: less_Suc_eq numeral_eq_Suc)
  ultimately have "data = [data ! 0, data ! 1, data ! 2, data ! 3, data ! 4] @ drop 5 data"
    by metis
  then show ?thesis by (simp add: push_read_u16 numeral_2_eq_2)
qed

lemma Command_roundtrip_append:
  assumes "command_ok c"
  shows "Command_deserialize (Command_serialize c @ rest) = Inr c"
proof -
  have "Command_serialize c @ rest = op_byte (oper c) # push_u16 (htons (of_nat (length (Key c))))
      @ push_u16 (htons (of_nat (length (Val c)))) @ bytes_of (Key c) @ bytes_of (Val c) @ rest"
    by (simp add: Command_serialize_def)
  with assms show ?thesis
    by (simp add: Command_deserialize_frame command_ok_def unat_of_nat_u16 mk_Command_def)
qed

lemma Command_deserialize_ok:
  assumes "Command_deserialize data = Inr c"
  shows "command_ok c \<and>
    Command_serialize c = take (5 + length (Key c) + length (Val c)) data \<and>
    5 + length (Key c) + length (Val c) \<le> length data"
proof -
  have len: "5 \<le> length data" using assms by (auto simp: Command_deserialize_def split: if_splits)
  define k v body where "k = read_u16 data 1" and "v = read_u16 data 3" and "body = drop 5 data"
  from frame_of_data [OF len]
  have data: "data = data ! 0 # push_u16 k @ push_u16 v @ body"
    by (simp add: k_def v_def body_def)
  with assms have c: "unat (ntohs k) + unat (ntohs v) \<le> length body"
    "c = mk_Command (op_of_byte (data ! 0)) (string_of (take (unat (ntohs k)) body))
                  (string_of (take (unat (ntohs v)) (drop (unat (ntohs k)) body)))"
    using Command_deserialize_frame [of "data ! 0" k v body] by (auto split: if_splits)
  have inv: "htons (ntohs x) = x" for x using ntohs_htons [of x] by (simp add: ntohs_def htons_def)
  have "unat (ntohs x) < 2 ^ 16" for x using unsigned_less [of "ntohs x", where 'a = nat] by simp
  then have "command_ok c" using c by (simp add: command_ok_def mk_Command_def)
  moreover have "Command_serialize c = take (5 + unat (ntohs k) + unat (ntohs v)) data"
  proof -
    have "drop (5 + n) data = drop n body" for n by (simp add: body_def add.commute)
    moreover have "take 5 data = data ! 0 # push_u16 k @ push_u16 v"
      by (subst data) (simp add: push_u16_def)
    ultimately show ?thesis using c
      by (simp add: Command_serialize_def mk_Command_def inv take_add body_def)
  qed
  moreover have "length data = 5 + length body" using len by (simp add: body_def)
  ultimately show ?thesis using c by (simp add: mk_Command_def)
qed

end
