(* ===== verification/LogEntry.thy ===== *)
theory LogEntry
  imports Crc32 Command
begin

text \<open>
  The log records of \<^verbatim>\<open>include/LogEntry.h\<close>: term, index, command bytes and a checksum over all
  three, their on-disk and on-wire format, and the decoder that refuses a record whose
  checksum does not fit. The theory interprets the interface \<open>record_codec\<close> for them.
\<close>

section \<open>The code\<close>

record LogEntry =
  le_term :: u64
  le_index :: u64
  le_command :: "byte list"
  le_crc :: u32

definition LogEntry_default :: LogEntry where
  "LogEntry_default = \<lparr>le_term = 0, le_index = 0, le_command = [], le_crc = 0\<rparr>"

text \<open>The bytes the checksum covers; the constructor and \<^verbatim>\<open>verify\<close> both build them.\<close>

definition crc_input :: "u64 \<Rightarrow> u64 \<Rightarrow> byte list \<Rightarrow> byte list" where
  "crc_input t i cmd = put_le 8 t @ put_le 8 i @ cmd"

definition mk_LogEntry :: "u64 \<Rightarrow> u64 \<Rightarrow> Command \<Rightarrow> LogEntry" where
  "mk_LogEntry t i cmd =
     (let c = Command_serialize cmd
      in \<lparr>le_term = t, le_index = i, le_command = c, le_crc = crc32_compute (crc_input t i c)\<rparr>)"

definition LogEntry_verify :: "LogEntry \<Rightarrow> bool" where
  "LogEntry_verify e \<longleftrightarrow> le_crc e = crc32_compute (crc_input (le_term e) (le_index e) (le_command e))"

definition LogEntry_serialize :: "LogEntry \<Rightarrow> byte list" where
  "LogEntry_serialize e =
     put_le 8 (le_term e)
     @ put_le 8 (le_index e)
     @ put_le 4 (htonl (of_nat (length (le_command e))))
     @ le_command e
     @ put_le 4 (le_crc e)"

definition crc_mismatch :: error where
  "crc_mismatch = Runtime_error ''CRC mismatch in the log entry!''"

definition LogEntry_deserialize :: "byte list \<Rightarrow> nat \<Rightarrow> (LogEntry \<times> nat) result" where
  "LogEntry_deserialize data offset =
     bind_result (get_le 8 data offset) (\<lambda>t.
     bind_result (get_le 8 data (offset + 8)) (\<lambda>i.
     bind_result (get_le 4 data (offset + 16)) (\<lambda>raw.
     let cmd_len = unat (ntohl raw) in
     bind_result (range_of data (offset + 20) cmd_len) (\<lambda>cmd.
     bind_result (get_le 4 data (offset + 20 + cmd_len)) (\<lambda>c.
     let temp = \<lparr>le_term = t, le_index = i, le_command = cmd, le_crc = c\<rparr> in
     if \<not> LogEntry_verify temp then Inl crc_mismatch
     else Inr (temp, offset + 20 + cmd_len + 4))))))"

definition getCommand :: "LogEntry \<Rightarrow> Command result" where
  "getCommand e = Command_deserialize (le_command e)"

section \<open>Round trip and torn records\<close>

definition entry_ok :: "LogEntry \<Rightarrow> bool" where
  "entry_ok e \<longleftrightarrow> LogEntry_verify e \<and> length (le_command e) < 2 ^ 32"

lemma unat_of_nat_u32: "n < 2 ^ 32 \<Longrightarrow> unat (of_nat n :: u32) = n"
  by (simp add: unat_of_nat take_bit_nat_eq_self_iff)

lemma length_LogEntry_serialize [len_simps]:
  "length (LogEntry_serialize e) = 24 + length (le_command e)"
  by (simp add: LogEntry_serialize_def)

lemma LogEntry_eta [simp]:
  "\<lparr>le_term = le_term e, le_index = le_index e, le_command = le_command e, le_crc = le_crc e\<rparr> = e"
  for e :: LogEntry
  by (cases e) simp

text \<open>The five reads of the decoder at the start of an encoding.\<close>

lemma entry_reads:
  fixes e :: LogEntry and pre post :: "byte list"
  defines "data \<equiv> pre @ LogEntry_serialize e @ post"
  shows "get_le 8 data (length pre) = Inr (le_term e)"
    and "get_le 8 data (length pre + 8) = Inr (le_index e)"
    and "get_le 4 data (length pre + 16) = Inr (htonl (of_nat (length (le_command e))))"
    and "range_of data (length pre + 20) (length (le_command e)) = Inr (le_command e)"
    and "get_le 4 data (length pre + 20 + length (le_command e)) = Inr (le_crc e)"
proof -
  let ?t = "put_le 8 (le_term e)" and ?i = "put_le 8 (le_index e)" and ?c = "le_command e"
  let ?l = "put_le 4 (htonl (of_nat (length ?c)))" and ?x = "put_le 4 (le_crc e)"
  show "get_le 8 data (length pre) = Inr (le_term e)"
    using get_le_put_le [of 8 _ pre "le_term e" "?i @ ?l @ ?c @ ?x @ post"]
    by (simp add: data_def LogEntry_serialize_def)
  show "get_le 8 data (length pre + 8) = Inr (le_index e)"
    using get_le_put_le [of 8 _ "pre @ ?t" "le_index e" "?l @ ?c @ ?x @ post"]
    by (simp add: data_def LogEntry_serialize_def)
  show "get_le 4 data (length pre + 16) = Inr (htonl (of_nat (length (le_command e))))"
    using get_le_put_le [of 4 _ "pre @ ?t @ ?i" "htonl (of_nat (length ?c))" "?c @ ?x @ post"]
    by (simp add: data_def LogEntry_serialize_def)
  show "range_of data (length pre + 20) (length (le_command e)) = Inr (le_command e)"
    using range_of_append [of _ "pre @ ?t @ ?i @ ?l" _ ?c "?x @ post"]
    by (simp add: data_def LogEntry_serialize_def)
  show "get_le 4 data (length pre + 20 + length (le_command e)) = Inr (le_crc e)"
    using get_le_put_le [of 4 _ "pre @ ?t @ ?i @ ?l @ ?c" "le_crc e" post]
    by (simp add: data_def LogEntry_serialize_def add.assoc)
qed

lemma LogEntry_deserialize_serialize:
  assumes "length (le_command e) < 2 ^ 32"
  shows "LogEntry_deserialize (pre @ LogEntry_serialize e @ post) (length pre) =
    (if LogEntry_verify e then Inr (e, length pre + length (LogEntry_serialize e))
     else Inl crc_mismatch)"
  using assms
  by (simp add: LogEntry_deserialize_def entry_reads unat_of_nat_u32 Let_def len_simps)

lemma LogEntry_deserialize_torn:
  assumes "length (le_command e) < 2 ^ 32" and "n < length (LogEntry_serialize e)"
  shows "LogEntry_deserialize (pre @ take n (LogEntry_serialize e)) (length pre) = Inl Undefined"
proof -
  have cut: "pre @ take n (LogEntry_serialize e) =
      take (length pre + n) (pre @ LogEntry_serialize e @ [])" by simp
  from assms show ?thesis
    unfolding cut LogEntry_deserialize_def
    by (simp only: get_le_take range_of_take entry_reads)
      (auto simp: entry_reads [where post = "[]", simplified] unat_of_nat_u32 Let_def len_simps)
qed

interpretation entry_codec: record_codec LogEntry_serialize LogEntry_deserialize entry_ok
  by unfold_locales
    (simp_all add: entry_ok_def LogEntry_deserialize_serialize LogEntry_deserialize_torn)

section \<open>What the decoder accepts, and what the checksum catches\<close>

lemma LogEntry_deserialize_InrD:
  assumes "LogEntry_deserialize data off = Inr (e, off')"
  shows "entry_ok e \<and> off' = off + 24 + length (le_command e) \<and> off' \<le> length data"
proof -
  from assms obtain t i raw cmd c where
    cmd: "range_of data (off + 20) (unat (ntohl raw)) = Inr cmd" and
    crc: "get_le 4 data (off + 20 + unat (ntohl raw)) = Inr c" and
    e: "e = \<lparr>le_term = t, le_index = i, le_command = cmd, le_crc = c\<rparr>" and
    v: "LogEntry_verify e" and off': "off' = off + 20 + unat (ntohl raw) + 4"
    unfolding LogEntry_deserialize_def
    by (auto simp: Let_def split: if_splits elim!: bind_result_InrE)
  have "unat (ntohl raw) < 2 ^ 32" using unsigned_less [of "ntohl raw", where 'a = nat] by simp
  with length_range_of [OF cmd] get_le_Inr_bound [OF crc] e v off'
  show ?thesis by (simp add: entry_ok_def)
qed

lemma mk_LogEntry_sel [simp]:
  "le_term (mk_LogEntry t i c) = t"
  "le_index (mk_LogEntry t i c) = i"
  "le_command (mk_LogEntry t i c) = Command_serialize c"
  by (simp_all add: mk_LogEntry_def Let_def)

lemma mk_LogEntry_verify [simp]: "LogEntry_verify (mk_LogEntry t i c)"
  by (simp add: LogEntry_verify_def mk_LogEntry_def Let_def)

lemma mk_LogEntry_ok: "command_ok c \<Longrightarrow> entry_ok (mk_LogEntry t i c)"
  by (simp add: entry_ok_def command_ok_def len_simps)

lemma getCommand_mk_LogEntry: "command_ok c \<Longrightarrow> getCommand (mk_LogEntry t i c) = Inr c"
  using Command_roundtrip_append [of c "[]"] by (simp add: getCommand_def)

lemma crc_catches_window:
  assumes "LogEntry_verify e" and "le_crc e' = le_crc e"
    and "crc_input (le_term e) (le_index e) (le_command e) = xs @ u @ ys"
    and "crc_input (le_term e') (le_index e') (le_command e') = xs @ v @ ys"
    and "length u = length v" and "length u \<le> 4" and "u \<noteq> v"
  shows "\<not> LogEntry_verify e'"
proof
  assume "LogEntry_verify e'"
  with assms(1-4) have "crc32_compute (xs @ u @ ys) = crc32_compute (xs @ v @ ys)"
    by (simp add: LogEntry_verify_def)
  with assms(5-7) show False using crc32_window_inject by blast
qed

end
