(* ===== verification/LogSpec.thy ===== *)
theory LogSpec
  imports LogEntry
begin

text \<open>
  The abstract log: a list of entries whose indices count from one. \<open>merge_log\<close> is what an
  AppendEntries message is to do to a follower's log. The locale \<open>log_store\<close> is the interface
  the Raft node uses of its storage; the two loops of \<^verbatim>\<open>handleAppendEntries\<close> (conflict
  resolution, then appending) are shown inside it to compute \<open>merge_log\<close>.
\<close>

section \<open>Logs\<close>

definition entry_good :: "LogEntry \<Rightarrow> bool" where
  "entry_good e \<longleftrightarrow> entry_ok e \<and> \<not> isl (getCommand e)"

text \<open>
  A log is shorter than \<open>2 ^ 64 - 1\<close> entries, so that the index of the next entry is a 64-bit
  value other than zero. \<open>chain p\<close>: a run of entries that continues a log of length \<open>p\<close>.
\<close>

fun chain :: "nat \<Rightarrow> LogEntry list \<Rightarrow> bool" where
  "chain p [] \<longleftrightarrow> True"
| "chain p (e # es) \<longleftrightarrow> le_index e = of_nat (Suc p) \<and> entry_good e \<and> chain (Suc p) es"

definition log_ok :: "LogEntry list \<Rightarrow> bool" where
  "log_ok es \<longleftrightarrow> chain 0 es \<and> Suc (length es) < 2 ^ 64"

definition last_term :: "LogEntry list \<Rightarrow> u64" where
  "last_term es = (if es = [] then 0 else le_term (last es))"

definition entry_term :: "LogEntry list \<Rightarrow> nat \<Rightarrow> u64" where
  "entry_term es i = (if i = 0 \<or> length es < i then 0 else le_term (es ! (i - 1)))"

lemma chain_append [simp]: "chain p (xs @ ys) \<longleftrightarrow> chain p xs \<and> chain (p + length xs) ys"
  by (induction xs arbitrary: p) auto

lemma chain_take: "chain p es \<Longrightarrow> chain p (take n es)"
  using chain_append [of p "take n es" "drop n es"] by simp

lemma chain_drop: "chain p es \<Longrightarrow> n \<le> length es \<Longrightarrow> chain (p + n) (drop n es)"
  using chain_append [of p "take n es" "drop n es"] by (simp add: min_absorb2)

lemma chain_good: "chain p es \<Longrightarrow> e \<in> set es \<Longrightarrow> entry_good e"
  by (induction es arbitrary: p) auto

lemma chain_nth: "chain p es \<Longrightarrow> i < length es \<Longrightarrow> le_index (es ! i) = of_nat (Suc (p + i))"
  by (induction es arbitrary: p i) (auto simp: nth_Cons split: nat.splits)

lemma log_ok_Nil [simp]: "log_ok []"
  by (simp add: log_ok_def)

lemma log_ok_entries: "log_ok es \<Longrightarrow> e \<in> set es \<Longrightarrow> entry_ok e \<and> \<not> isl (getCommand e)"
  using chain_good by (auto simp: log_ok_def entry_good_def)

lemma log_ok_index: "log_ok es \<Longrightarrow> i < length es \<Longrightarrow> le_index (es ! i) = of_nat (Suc i)"
  using chain_nth [of 0 es i] by (simp add: log_ok_def)

lemma log_ok_take: "log_ok es \<Longrightarrow> log_ok (take n es)"
  by (auto simp: log_ok_def chain_take)

lemma log_ok_last: "log_ok es \<Longrightarrow> es \<noteq> [] \<Longrightarrow> le_index (last es) = of_nat (length es)"
  using log_ok_index [of es "length es - 1"] by (cases es rule: rev_cases) simp_all

section \<open>Merging received entries\<close>

text \<open>
  Entries received for the positions after \<open>p\<close>: walk along the log while the terms agree; at
  the first disagreement drop the rest of the log, at its end append what is left.
\<close>

fun merge_log :: "LogEntry list \<Rightarrow> nat \<Rightarrow> LogEntry list \<Rightarrow> LogEntry list" where
  "merge_log log p [] = log"
| "merge_log log p (e # es) =
     (if p < length log then
        if le_term (log ! p) = le_term e then merge_log log (Suc p) es
        else take p log @ e # es
      else log @ e # es)"

text \<open>The part of the log that conflict resolution keeps.\<close>

fun cut_log :: "LogEntry list \<Rightarrow> nat \<Rightarrow> LogEntry list \<Rightarrow> LogEntry list" where
  "cut_log log p [] = log"
| "cut_log log p (e # es) =
     (if p < length log then
        if le_term (log ! p) = le_term e then cut_log log (Suc p) es else take p log
      else log)"

lemma cut_log_beyond [simp]: "length log \<le> p \<Longrightarrow> cut_log log p es = log"
  by (cases es) simp_all

lemma cut_log_prefix: "\<exists>n. cut_log log p es = take n log \<and> (p \<le> length log \<longrightarrow> p \<le> n)"
proof (induction log p es rule: cut_log.induct)
  case (1 log p)
  then show ?case by (auto intro: exI [of _ "length log"])
next
  case (2 log p e es)
  show ?case
  proof (cases "p < length log \<and> le_term (log ! p) = le_term e")
    case True
    then obtain n where "cut_log log (Suc p) es = take n log" "Suc p \<le> length log \<longrightarrow> Suc p \<le> n"
      using 2 by blast
    with True show ?thesis by (auto intro!: exI [of _ n])
  next
    case False
    then show ?thesis by (cases "p < length log") (auto intro: exI [of _ p] exI [of _ "length log"])
  qed
qed

lemma merge_log_cut:
  "p \<le> length log \<Longrightarrow>
    merge_log log p es = cut_log log p es @ drop (length (cut_log log p es) - p) es"
proof (induction log p es rule: cut_log.induct)
  case (1 log p)
  then show ?case by simp
next
  case (2 log p e es)
  show ?case
  proof (cases "p < length log \<and> le_term (log ! p) = le_term e")
    case True
    obtain n where n: "cut_log log (Suc p) es = take n log" "Suc p \<le> n"
      using cut_log_prefix [of log "Suc p" es] True by auto
    then have "Suc p \<le> length (cut_log log (Suc p) es)" using True by simp
    with True 2 show ?thesis by (simp add: drop_Cons' Suc_diff_le)
  next
    case False
    with 2 show ?thesis by (auto simp: min_def)
  qed
qed

lemma merge_log_before: "p \<le> length log \<Longrightarrow> take p (merge_log log p es) = take p log"
proof -
  assume p: "p \<le> length log"
  obtain n where "cut_log log p es = take n log" "p \<le> n" using cut_log_prefix p by blast
  with p show ?thesis by (simp add: merge_log_cut min_def)
qed

lemma merge_log_terms:
  "p \<le> length log \<Longrightarrow> i < length es \<Longrightarrow>
    p + i < length (merge_log log p es) \<and> le_term (merge_log log p es ! (p + i)) = le_term (es ! i)"
proof (induction log p es arbitrary: i rule: merge_log.induct)
  case (2 log p e es)
  show ?case
  proof (cases "p < length log \<and> le_term (log ! p) = le_term e")
    case True
    show ?thesis
    proof (cases i)
      case 0
      have "Suc p \<le> length log" using True by simp
      then have before: "take (Suc p) (merge_log log (Suc p) es) = take (Suc p) log"
        by (rule merge_log_before)
      then have "Suc p \<le> length (merge_log log (Suc p) es)" using True
        by (metis Suc_leI length_take min.absorb_iff2 min.commute)
      moreover from before have "merge_log log (Suc p) es ! p = log ! p"
        by (metis lessI nth_take)
      ultimately show ?thesis using True 0 by simp
    next
      case (Suc j)
      with 2 True show ?thesis by simp
    qed
  next
    case False
    with 2 show ?thesis by (auto simp: nth_append min_def nth_Cons split: nat.splits)
  qed
qed simp

text \<open>Without a conflict the log is only extended.\<close>

definition agrees :: "LogEntry list \<Rightarrow> nat \<Rightarrow> LogEntry list \<Rightarrow> bool" where
  "agrees log p es \<longleftrightarrow>
     (\<forall>i < length es. p + i < length log \<longrightarrow> le_term (log ! (p + i)) = le_term (es ! i))"

lemma agrees_Cons:
  "agrees log p (e # es) \<longleftrightarrow>
     (p < length log \<longrightarrow> le_term (log ! p) = le_term e) \<and> agrees log (Suc p) es"
  by (auto simp: agrees_def less_Suc_eq_0_disj)

lemma cut_log_agrees: "agrees log p es \<Longrightarrow> cut_log log p es = log"
  by (induction log p es rule: cut_log.induct) (simp_all add: agrees_Cons)

lemma merge_log_agrees:
  "p \<le> length log \<Longrightarrow> agrees log p es \<Longrightarrow> merge_log log p es = log @ drop (length log - p) es"
  by (simp add: merge_log_cut cut_log_agrees)

lemma merge_log_idem:
  assumes "p \<le> length log"
  shows "merge_log (merge_log log p es) p es = merge_log log p es"
proof -
  let ?m = "merge_log log p es"
  have terms: "p + i < length ?m \<and> le_term (?m ! (p + i)) = le_term (es ! i)" if "i < length es" for i
    using merge_log_terms [OF assms that] .
  then have agree: "agrees ?m p es" by (simp add: agrees_def)
  have len: "length ?m - p \<ge> length es" using terms [of "length es - 1"] by (cases es) auto
  have "length (take p ?m) = p" using assms merge_log_before [OF assms, of es] by simp
  then have "p \<le> length ?m" by simp
  from merge_log_agrees [OF this agree] len show ?thesis by simp
qed

text \<open>
  Log matching: where two logs have the same term at the same index they are equal up to there.
  Merging a suffix of such a log gives that log, unless the other one already extends it.
\<close>

definition log_match :: "LogEntry list \<Rightarrow> LogEntry list \<Rightarrow> bool" where
  "log_match l f \<longleftrightarrow>
     (\<forall>i < length l. i < length f \<longrightarrow> le_term (l ! i) = le_term (f ! i) \<longrightarrow> take (Suc i) l = take (Suc i) f)"

lemma log_match_nth:
  "take (length l) f = l \<Longrightarrow> i < length l \<Longrightarrow> i < length f \<and> f ! i = l ! i"
  by (metis length_take min_less_iff_conj nth_take)

lemma merge_log_match:
  assumes "log_match l f" and "take p l = take p f" and "p \<le> length f" and "p \<le> length l"
  shows "merge_log f p (drop p l) = (if take (length l) f = l then f else l)"
  using assms(2-)
proof (induction "length l - p" arbitrary: p)
  case 0
  then have "take (length l) f = l" by (simp add: order_antisym)
  with 0 show ?case by simp
next
  case (Suc n)
  then have p: "p < length l" by simp
  then have d: "drop p l = l ! p # drop (Suc p) l" by (simp add: Cons_nth_drop_Suc)
  consider "p < length f" "le_term (f ! p) = le_term (l ! p)" | "p < length f" "le_term (f ! p) \<noteq> le_term (l ! p)"
    | "p = length f" using Suc.prems by linarith
  then show ?case
  proof cases
    case 1
    with p assms(1) have "take (Suc p) l = take (Suc p) f" by (simp add: log_match_def)
    with Suc(1) [of "Suc p"] Suc(2) p 1 show ?thesis by (simp add: d)
  next
    case 2
    then have "take (length l) f \<noteq> l" using log_match_nth [OF _ p] by metis
    moreover have "take p f @ drop p l = l" using Suc.prems(1) by (metis append_take_drop_id)
    ultimately show ?thesis using 2 by (simp add: d)
  next
    case 3
    then have "take (length l) f \<noteq> l" using p by (metis length_take min_less_iff_conj nat_neq_iff)
    moreover have "f @ drop p l = l" using Suc.prems(1) 3 by (metis append_take_drop_id take_all_iff order_refl)
    moreover have "merge_log f p (drop p l) = f @ drop p l" unfolding d using 3 by simp
    ultimately show ?thesis by simp
  qed
qed

lemma log_ok_merge:
  assumes "log_ok log" and "chain p es" and "p \<le> length log" and "Suc (p + length es) < 2 ^ 64"
  shows "log_ok (merge_log log p es)"
proof -
  obtain n where n: "cut_log log p es = take n log" "p \<le> n" using cut_log_prefix assms(3) by blast
  let ?k = "length (take n log)"
  have k: "p \<le> ?k" "?k \<le> length log" using n assms(3) by simp_all
  have m: "merge_log log p es = take n log @ drop (?k - p) es"
    using assms(3) n by (simp add: merge_log_cut)
  have "chain ?k (drop (?k - p) es)"
  proof (cases "?k - p \<le> length es")
    case True
    with chain_drop [OF assms(2) True] k show ?thesis by simp
  qed simp
  with assms k show ?thesis unfolding m by (auto simp: log_ok_def chain_take)
qed

section \<open>The interface of the log store\<close>

locale log_store =
  fixes inv :: "'s \<Rightarrow> bool"
    and entries :: "'s \<Rightarrow> LogEntry list"
    and last_index :: "'s \<Rightarrow> u64"
    and add :: "LogEntry \<Rightarrow> 's \<Rightarrow> 's"
    and cut :: "u64 \<Rightarrow> 's \<Rightarrow> 's result"
    and term_at :: "u64 \<Rightarrow> 's \<Rightarrow> u64 result"
  assumes inv_log: "inv s \<Longrightarrow> log_ok (entries s)"
    and inv_last: "inv s \<Longrightarrow> last_index s = of_nat (length (entries s))"
    and add: "inv s \<Longrightarrow> log_ok (entries s @ [e]) \<Longrightarrow> inv (add e s) \<and> entries (add e s) = entries s @ [e]"
    and cut: "inv s \<Longrightarrow> \<exists>s'. cut k s = Inr s' \<and> inv s' \<and> entries s' = take (unat k) (entries s)"
    and term_at: "inv s \<Longrightarrow> term_at i s = Inr (entry_term (entries s) (unat i))"
begin

lemma unat_last: "inv s \<Longrightarrow> unat (last_index s) = length (entries s)"
  using inv_log [of s] by (simp add: inv_last log_ok_def unat_of_nat take_bit_nat_eq_self_iff)

text \<open>One round of conflict resolution at a position below \<open>2 ^ 64\<close>.\<close>

lemma resolve_round:
  assumes "inv s" and "Suc p < 2 ^ 64"
  shows "\<exists>s'. (if of_nat (Suc p) \<le> last_index s then
       bind_result (term_at (of_nat (Suc p)) s)
         (\<lambda>t. if t \<noteq> le_term e then cut (of_nat (Suc p) - 1) s else Inr s)
     else Inr s) = Inr s' \<and> inv s' \<and> entries s' = cut_log (entries s) p [e]"
proof -
  have idx: "unat (of_nat (Suc p) :: u64) = Suc p" and pred: "unat (of_nat (Suc p) - 1 :: u64) = p"
    using assms(2) by (simp_all add: unat_of_nat take_bit_nat_eq_self_iff del: of_nat_Suc) (simp add: unat_of_nat take_bit_nat_eq_self_iff)
  have le: "of_nat (Suc p) \<le> last_index s \<longleftrightarrow> p < length (entries s)"
    using assms by (simp add: word_le_nat_alt idx unat_last Suc_le_eq del: of_nat_Suc)
  from cut [OF assms(1), of "of_nat (Suc p) - 1"]
  obtain s' where "cut (of_nat (Suc p) - 1) s = Inr s'" "inv s'" "entries s' = take p (entries s)"
    unfolding pred by blast
  then show ?thesis using assms(1)
    unfolding le by (auto simp: term_at idx entry_term_def simp del: of_nat_Suc)
qed

lemma resolve_loop:
  assumes "inv s" and "start = of_nat (Suc p)" and "p + n + length es < 2 ^ 64"
  shows "\<exists>s'. for_each (\<lambda>(i, e) s. let idx = start + of_nat i in
       if idx \<le> last_index s then
         bind_result (term_at idx s) (\<lambda>t. if t \<noteq> le_term e then cut (idx - 1) s else Inr s)
       else Inr s) (enumerate n es) s = Inr s'
     \<and> inv s' \<and> entries s' = cut_log (entries s) (p + n) es"
  using assms
proof (induction es arbitrary: n s)
  case (Cons e es)
  have idx: "start + of_nat n = of_nat (Suc (p + n))" using Cons.prems(2) by simp
  obtain s1 where s1: "(if of_nat (Suc (p + n)) \<le> last_index s then
       bind_result (term_at (of_nat (Suc (p + n))) s)
         (\<lambda>t. if t \<noteq> le_term e then cut (of_nat (Suc (p + n)) - 1) s else Inr s)
     else Inr s) = Inr s1" and inv1: "inv s1" and es1: "entries s1 = cut_log (entries s) (p + n) [e]"
    using resolve_round [of s "p + n" e] Cons.prems by auto
  obtain s2 where s2: "for_each (\<lambda>(i, e) s. let idx = start + of_nat i in
       if idx \<le> last_index s then
         bind_result (term_at idx s) (\<lambda>t. if t \<noteq> le_term e then cut (idx - 1) s else Inr s)
       else Inr s) (enumerate (Suc n) es) s1 = Inr s2" "inv s2"
       "entries s2 = cut_log (entries s1) (p + Suc n) es"
    using Cons.IH [of s1 "Suc n"] inv1 Cons.prems by auto
  have "entries s2 = cut_log (entries s) (p + n) (e # es)"
    using s2(3) es1 by (auto simp: min_def)
  with s1 s2 show ?case unfolding enumerate_simps for_each.simps case_prod_conv Let_def idx by auto
qed simp

text \<open>The loop that appends the entries behind the end of the log.\<close>

lemma append_loop:
  assumes "inv s" and "chain p es" and "p \<le> length (entries s)" and "Suc (p + length es) < 2 ^ 64"
    and "s' = fold (\<lambda>e s. if le_index e > last_index s then add e s else s) es s"
  shows "inv s' \<and> entries s' = entries s @ drop (length (entries s) - p) es"
  using assms
proof (induction es arbitrary: p s)
  case (Cons e es)
  let ?n = "length (entries s)"
  have "unat (le_index e) = Suc p" using Cons.prems
    by (simp add: unat_of_nat take_bit_nat_eq_self_iff del: of_nat_Suc)
  then have gt: "le_index e > last_index s \<longleftrightarrow> ?n < Suc p"
    using Cons.prems by (simp add: word_less_nat_alt unat_last)
  show ?case
  proof (cases "?n < Suc p")
    case True
    with Cons.prems have n: "?n = p" by simp
    with Cons.prems inv_log [of s] have "log_ok (entries s @ [e])" by (simp add: log_ok_def)
    from add [OF Cons.prems(1) this] have "inv (add e s)" "entries (add e s) = entries s @ [e]" by auto
    with Cons.IH [of "add e s" "Suc p"] Cons.prems True gt n show ?thesis by simp
  next
    case False
    with Cons.IH [of s "Suc p"] Cons.prems gt show ?thesis by (simp add: drop_Cons' Suc_diff_le)
  qed
qed simp

text \<open>Both loops together.\<close>

lemma resolve_then_append:
  assumes "inv s" and "start = of_nat (Suc p)" and "chain p es" and "p \<le> length (entries s)"
    and "Suc (p + length es) < 2 ^ 64"
  obtains s1 where "for_each (\<lambda>(i, e) s. let idx = start + of_nat i in
       if idx \<le> last_index s then
         bind_result (term_at idx s) (\<lambda>t. if t \<noteq> le_term e then cut (idx - 1) s else Inr s)
       else Inr s) (enumerate 0 es) s = Inr s1"
    and "inv (fold (\<lambda>e s. if le_index e > last_index s then add e s else s) es s1)"
    and "entries (fold (\<lambda>e s. if le_index e > last_index s then add e s else s) es s1) =
      merge_log (entries s) p es"
proof -
  obtain s1 where s1: "for_each (\<lambda>(i, e) s. let idx = start + of_nat i in
       if idx \<le> last_index s then
         bind_result (term_at idx s) (\<lambda>t. if t \<noteq> le_term e then cut (idx - 1) s else Inr s)
       else Inr s) (enumerate 0 es) s = Inr s1" "inv s1" "entries s1 = cut_log (entries s) p es"
    using resolve_loop [OF assms(1,2), of 0 es] assms(5) by auto
  obtain n where n: "cut_log (entries s) p es = take n (entries s)" "p \<le> n"
    using cut_log_prefix assms(4) by blast
  then have "p \<le> length (entries s1)" using s1(3) assms(4) by simp
  note app = append_loop [OF s1(2) assms(3) this assms(5) refl]
  show ?thesis
  proof (rule that [OF s1(1)])
    show "inv (fold (\<lambda>e s. if le_index e > last_index s then add e s else s) es s1)"
      using app by blast
    show "entries (fold (\<lambda>e s. if le_index e > last_index s then add e s else s) es s1) =
        merge_log (entries s) p es"
      using app s1(3) assms(4) by (simp add: merge_log_cut)
  qed
qed

end

end
