(* ===== verification/Storage.thy ===== *)
theory Storage
  imports LogSpec
begin

text \<open>
  The persistent state of \<^verbatim>\<open>include/Storage.h\<close>: the log file, the metadata file with term and
  vote, and the volatile indices. The file system is a record of file contents; the calls the
  class makes (\<^verbatim>\<open>open\<close>, \<^verbatim>\<open>write\<close>, \<^verbatim>\<open>fsync\<close>, \<^verbatim>\<open>rename\<close>) succeed, as the code takes for granted.
  The lemmas show that every operation implements an operation on an abstract list of entries
  (the locale \<open>log_store\<close>), that no operation on a well-formed store reads past the end of
  the file, that reopening the store gives back term, vote and log, and what a log file with
  a torn last record does to the reader.
\<close>

section \<open>The code\<close>

record Disk =
  raft_log :: "byte list option"
  raft_meta :: "byte list option"
  raft_meta_tmp :: "byte list option"

text \<open>
  \<^verbatim>\<open>log_fd\<close>: the constructor opens the log with \<^verbatim>\<open>O_APPEND\<close>, so every write goes to the end of the
  file; \<^verbatim>\<open>truncate\<close> opens it again without, and from then on a write goes to the descriptor's own
  offset. \<open>Closed\<close> is the value -1.
\<close>

datatype log_handle = Closed | Appending | At nat

record Storage =
  log_fd :: log_handle
  st_disk :: Disk
  st_term :: u64
  st_last_log_term :: u64
  st_voted :: string
  st_log_length :: u64
  st_commitIndex :: u64
  st_lastApplied :: u64

definition file_bytes :: "byte list option \<Rightarrow> byte list" where
  "file_bytes f = (case f of None \<Rightarrow> [] | Some bs \<Rightarrow> bs)"

definition meta_bytes :: "u64 \<Rightarrow> string \<Rightarrow> byte list" where
  "meta_bytes t v = put_le 8 t @ put_le 4 (htonl (of_nat (length v))) @ bytes_of v"

text \<open>\<^verbatim>\<open>save_meta\<close>: write the temporary file, then rename it over \<^verbatim>\<open>raft.meta\<close>.\<close>

definition write_meta_tmp :: "Storage \<Rightarrow> Storage" where
  "write_meta_tmp s =
     s\<lparr>st_disk := (st_disk s)\<lparr>raft_meta_tmp := Some (meta_bytes (st_term s) (st_voted s))\<rparr>\<rparr>"

definition rename_meta_tmp :: "Storage \<Rightarrow> Storage" where
  "rename_meta_tmp s =
     s\<lparr>st_disk := (st_disk s)\<lparr>raft_meta := raft_meta_tmp (st_disk s), raft_meta_tmp := None\<rparr>\<rparr>"

definition save_meta :: "Storage \<Rightarrow> Storage" where
  "save_meta s = rename_meta_tmp (write_meta_tmp s)"

text \<open>
  \<^verbatim>\<open>load_meta\<close>: past the end of the file \<^verbatim>\<open>f.get()\<close> is -1, so \<^verbatim>\<open>(uint8_t)f.get()\<close> is 255, and
  \<^verbatim>\<open>f.read\<close> leaves the zeros the buffer was created with.
\<close>

definition load_meta :: "Storage \<Rightarrow> Storage" where
  "load_meta s =
     (case raft_meta (st_disk s) of
        None \<Rightarrow> s\<lparr>st_term := 0, st_last_log_term := 0, st_voted := []\<rparr>
      | Some f \<Rightarrow>
          let rd = (\<lambda>j. if j < length f then f ! j else 255);
              t = le_word 8 rd;
              len = unat (ntohl (le_word 4 (\<lambda>j. rd (8 + j))));
              buf = take len (drop 12 f)
          in s\<lparr>st_term := t, st_last_log_term := 0,
               st_voted := (if len > 0 then string_of (buf @ replicate (len - length buf) 0) else [])\<rparr>)"

text \<open>
  \<^verbatim>\<open>readAll\<close>. The \<^verbatim>\<open>catch (...)\<close> ends the loop on an exception; undefined behaviour is not an
  exception and is the result of the whole call.
\<close>

function readAll_loop :: "byte list \<Rightarrow> nat \<Rightarrow> LogEntry list result" where
  "readAll_loop data offset =
     (if offset < length data then
        case LogEntry_deserialize data offset of
          Inl e \<Rightarrow> if e = Undefined then Inl Undefined else Inr []
        | Inr (entry, offset') \<Rightarrow>
            if LogEntry_verify entry
            then bind_result (readAll_loop data offset') (\<lambda>es. Inr (entry # es))
            else Inr []
      else Inr [])"
  by pat_completeness auto
termination
  by (relation "measure (\<lambda>(data, offset). length data - offset)")
    (auto dest: LogEntry_deserialize_InrD)

declare readAll_loop.simps [simp del]

definition readAll :: "Storage \<Rightarrow> LogEntry list result" where
  "readAll s =
     (case raft_log (st_disk s) of None \<Rightarrow> Inr [] | Some data \<Rightarrow> readAll_loop data 0)"

text \<open>The constructor: the member initialisers and the opened log file, then the rest of its body.\<close>

definition Storage_members :: "Disk \<Rightarrow> Storage" where
  "Storage_members d =
     \<lparr>log_fd = Appending, st_disk = d\<lparr>raft_log := Some (file_bytes (raft_log d))\<rparr>, st_term = 0,
      st_last_log_term = 0, st_voted = [], st_log_length = 0, st_commitIndex = 0, st_lastApplied = 0\<rparr>"

definition Storage_open :: "Disk \<Rightarrow> Storage result" where
  "Storage_open d =
     (let s = load_meta (Storage_members d)
      in bind_result (readAll s) (\<lambda>entries.
         if entries \<noteq> [] then
           Inr (save_meta (s\<lparr>st_log_length := le_index (last entries),
                             st_last_log_term := le_term (last entries)\<rparr>))
         else Inr s))"

abbreviation logLen :: "Storage \<Rightarrow> u64" where "logLen \<equiv> st_log_length"
abbreviation getTerm :: "Storage \<Rightarrow> u64" where "getTerm \<equiv> st_term"
abbreviation getLastLogIndex :: "Storage \<Rightarrow> u64" where "getLastLogIndex \<equiv> st_log_length"
abbreviation getLastLogTerm :: "Storage \<Rightarrow> u64" where "getLastLogTerm \<equiv> st_last_log_term"
abbreviation getCommit :: "Storage \<Rightarrow> u64" where "getCommit \<equiv> st_commitIndex"
abbreviation getApplied :: "Storage \<Rightarrow> u64" where "getApplied \<equiv> st_lastApplied"
abbreviation getVoted :: "Storage \<Rightarrow> string" where "getVoted \<equiv> st_voted"

definition setTerm :: "u64 \<Rightarrow> Storage \<Rightarrow> Storage" where
  "setTerm t s = save_meta (s\<lparr>st_term := t\<rparr>)"

definition setCommit :: "u64 \<Rightarrow> Storage \<Rightarrow> Storage" where
  "setCommit c s = s\<lparr>st_commitIndex := c\<rparr>"

definition setApplied :: "u64 \<Rightarrow> Storage \<Rightarrow> Storage" where
  "setApplied a s = s\<lparr>st_lastApplied := a\<rparr>"

definition setVoted :: "string \<Rightarrow> Storage \<Rightarrow> Storage" where
  "setVoted v s = save_meta (s\<lparr>st_voted := v\<rparr>)"

definition Storage_destroy :: "Storage \<Rightarrow> Storage" where
  "Storage_destroy s = s\<lparr>log_fd := Closed\<rparr>"

text \<open>
  \<^verbatim>\<open>write\<close> to the log: at the end, or over what is at the offset, a gap before it being filled
  with zeros.
\<close>

definition overwrite :: "nat \<Rightarrow> byte list \<Rightarrow> byte list \<Rightarrow> byte list" where
  "overwrite n data f =
     take n f @ replicate (n - length f) 0 @ data @ drop (n + length data) f"

definition write_log :: "byte list \<Rightarrow> Storage \<Rightarrow> Storage" where
  "write_log data s =
     (let f = file_bytes (raft_log (st_disk s)) in
      case log_fd s of
        Closed \<Rightarrow> s
      | Appending \<Rightarrow> s\<lparr>st_disk := (st_disk s)\<lparr>raft_log := Some (f @ data)\<rparr>\<rparr>
      | At n \<Rightarrow> s\<lparr>log_fd := At (n + length data),
                 st_disk := (st_disk s)\<lparr>raft_log := Some (overwrite n data f)\<rparr>\<rparr>)"

definition append_entry :: "LogEntry \<Rightarrow> Storage \<Rightarrow> Storage" where
  "append_entry entry s =
     save_meta ((write_log (LogEntry_serialize entry) s)
       \<lparr>st_log_length := le_index entry, st_last_log_term := le_term entry\<rparr>)"

definition getTermAt :: "u64 \<Rightarrow> Storage \<Rightarrow> u64 result" where
  "getTermAt index s =
     (if index = 0 \<or> index > st_log_length s then Inr 0
      else bind_result (readAll s) (\<lambda>entries.
        if unat index \<le> length entries then Inr (le_term (entries ! (unat index - 1))) else Inr 0))"

definition truncate_log :: "u64 \<Rightarrow> Storage \<Rightarrow> Storage result" where
  "truncate_log keep s =
     (if keep \<ge> st_log_length s then Inr s
      else bind_result (readAll s) (\<lambda>entries.
        if unat keep \<ge> length entries then Inr s
        else
          let entries = take (unat keep) entries;
              s = s\<lparr>log_fd := At 0, st_disk := (st_disk s)\<lparr>raft_log := Some []\<rparr>\<rparr>;
              s = fold (\<lambda>e. write_log (LogEntry_serialize e)) entries s
          in Inr (save_meta (s\<lparr>st_log_length := keep,
               st_last_log_term := (if keep = 0 then 0 else le_term (last entries))\<rparr>))))"

definition readFrom :: "u64 \<Rightarrow> Storage \<Rightarrow> LogEntry list result" where
  "readFrom start_index s =
     (if start_index < 1 \<or> start_index > st_log_length s then Inr []
      else bind_result (readAll s) (\<lambda>entries.
        if unat start_index > length entries then Inr []
        else Inr (drop (unat start_index - 1) entries)))"

definition readRange :: "u64 \<Rightarrow> u64 \<Rightarrow> Storage \<Rightarrow> LogEntry list result" where
  "readRange start end s =
     (if start < 1 \<or> end < start \<or> end > st_log_length s then Inr []
      else bind_result (readAll s) (\<lambda>entries.
        if unat end > length entries then Inr []
        else Inr (drop (unat start - 1) (take (unat end) entries))))"

section \<open>Reading a log file\<close>

definition log_file :: "LogEntry list \<Rightarrow> byte list" where
  "log_file es = concat (map LogEntry_serialize es)"

lemma log_file_simps [simp]:
  "log_file [] = []" "log_file (e # es) = LogEntry_serialize e @ log_file es"
  "log_file (es @ fs) = log_file es @ log_file fs"
  by (simp_all add: log_file_def)

lemma readAll_loop_step:
  assumes "LogEntry_deserialize data off = Inr (e, off')"
  shows "readAll_loop data off = bind_result (readAll_loop data off') (\<lambda>es. Inr (e # es))"
proof -
  from LogEntry_deserialize_InrD [OF assms] have "off < length data" and "LogEntry_verify e"
    by (auto simp: entry_ok_def)
  with assms show ?thesis by (subst readAll_loop.simps) simp
qed

lemma readAll_loop_end: "length data \<le> off \<Longrightarrow> readAll_loop data off = Inr []"
  by (subst readAll_loop.simps) simp

text \<open>What follows a run of well-formed records decides how the reader ends.\<close>

lemma readAll_loop_log_file:
  "\<forall>e \<in> set es. entry_ok e \<Longrightarrow>
    readAll_loop (pre @ log_file es @ post) (length pre) =
      bind_result (readAll_loop (pre @ log_file es @ post) (length pre + length (log_file es)))
        (\<lambda>fs. Inr (es @ fs))"
proof (induction es arbitrary: pre)
  case Nil
  show ?case by (cases "readAll_loop (pre @ post) (length pre)") simp_all
next
  case (Cons e es)
  let ?data = "pre @ log_file (e # es) @ post"
  from Cons.prems have "LogEntry_deserialize (pre @ LogEntry_serialize e @ log_file es @ post) (length pre) =
      Inr (e, length pre + length (LogEntry_serialize e))"
    by (intro entry_codec.dec_enc) simp
  then have step: "readAll_loop ?data (length pre) =
      bind_result (readAll_loop ?data (length (pre @ LogEntry_serialize e))) (\<lambda>es. Inr (e # es))"
    using readAll_loop_step by simp
  have "readAll_loop ((pre @ LogEntry_serialize e) @ log_file es @ post) (length (pre @ LogEntry_serialize e)) =
      bind_result (readAll_loop ((pre @ LogEntry_serialize e) @ log_file es @ post)
        (length (pre @ LogEntry_serialize e) + length (log_file es))) (\<lambda>fs. Inr (es @ fs))"
    using Cons.prems by (intro Cons.IH) simp
  then have IH: "readAll_loop ?data (length (pre @ LogEntry_serialize e)) =
      bind_result (readAll_loop ?data (length pre + length (log_file (e # es)))) (\<lambda>fs. Inr (es @ fs))"
    by (simp add: add.assoc)
  show ?case
    unfolding step IH
    by (cases "readAll_loop ?data (length pre + length (log_file (e # es)))") simp_all
qed

lemma readAll_loop_whole:
  "\<forall>e \<in> set es. entry_ok e \<Longrightarrow> readAll_loop (log_file es) 0 = Inr es"
  using readAll_loop_log_file [of es "[]" "[]"] readAll_loop_end [of "log_file es" "length (log_file es)"]
  by simp

text \<open>A torn last record: the reader runs past the end of the buffer.\<close>

lemma readAll_loop_torn:
  assumes "\<forall>e \<in> set es. entry_ok e" and "entry_ok x" and "0 < n" and "n < length (LogEntry_serialize x)"
  shows "readAll_loop (log_file es @ take n (LogEntry_serialize x)) 0 = Inl Undefined"
proof -
  let ?data = "log_file es @ take n (LogEntry_serialize x)"
  from entry_codec.dec_torn [OF assms(2,4), of "log_file es"] assms(3,4)
  have "readAll_loop ?data (length (log_file es)) = Inl Undefined"
    by (subst readAll_loop.simps) simp
  with readAll_loop_log_file [OF assms(1), of "[]" "take n (LogEntry_serialize x)"]
  show ?thesis by simp
qed

text \<open>A record with a wrong checksum: the reader stops in front of it.\<close>

lemma readAll_loop_corrupt:
  assumes "\<forall>e \<in> set es. entry_ok e" and "length (le_command x) < 2 ^ 32" and "\<not> LogEntry_verify x"
  shows "readAll_loop (log_file es @ LogEntry_serialize x @ rest) 0 = Inr es"
proof -
  let ?data = "log_file es @ LogEntry_serialize x @ rest"
  from LogEntry_deserialize_serialize [OF assms(2), of "log_file es" rest] assms(3)
  have "readAll_loop ?data (length (log_file es)) = Inr []"
    by (subst readAll_loop.simps) (simp add: crc_mismatch_def len_simps)
  with readAll_loop_log_file [OF assms(1), of "[]" "LogEntry_serialize x @ rest"]
  show ?thesis by simp
qed

section \<open>Well-formed stores\<close>

definition log_of :: "Storage \<Rightarrow> LogEntry list" where
  "log_of s = (case readAll s of Inr es \<Rightarrow> es | Inl e \<Rightarrow> [])"

definition meta_ok :: "Storage \<Rightarrow> bool" where
  "meta_ok s \<longleftrightarrow> length (st_voted s) < 2 ^ 32 \<and>
     (case raft_meta (st_disk s) of
        Some f \<Rightarrow> f = meta_bytes (st_term s) (st_voted s)
      | None \<Rightarrow> st_term s = 0 \<and> st_voted s = [])"

text \<open>The next write goes to the end of the log file, in whichever mode it is open.\<close>

definition at_end :: "Storage \<Rightarrow> bool" where
  "at_end s \<longleftrightarrow> log_fd s \<in> {Appending, At (length (file_bytes (raft_log (st_disk s))))}"

definition store_inv :: "Storage \<Rightarrow> bool" where
  "store_inv s \<longleftrightarrow> raft_log (st_disk s) = Some (log_file (log_of s)) \<and> log_ok (log_of s)
     \<and> st_log_length s = of_nat (length (log_of s)) \<and> st_last_log_term s = last_term (log_of s)
     \<and> at_end s \<and> meta_ok s"

lemma readAll_file:
  assumes "raft_log (st_disk s) = Some (log_file es)" and "log_ok es"
  shows "readAll s = Inr es"
  using assms by (simp add: readAll_def readAll_loop_whole log_ok_entries)

text \<open>The form in which the operations establish the invariant.\<close>

lemma store_invI:
  assumes "raft_log (st_disk s) = Some (log_file es)" and "log_ok es"
    and "st_log_length s = of_nat (length es)" and "st_last_log_term s = last_term es"
    and "at_end s" and "meta_ok s"
  shows "store_inv s \<and> log_of s = es"
  using assms readAll_file [OF assms(1,2)] by (simp add: store_inv_def log_of_def)

lemma store_inv_readAll: "store_inv s \<Longrightarrow> readAll s = Inr (log_of s)"
  by (rule readAll_file) (simp_all add: store_inv_def)

lemma store_inv_length: "store_inv s \<Longrightarrow> unat (st_log_length s) = length (log_of s)"
  by (simp add: store_inv_def log_ok_def unat_of_nat take_bit_nat_eq_self_iff)

section \<open>What each operation does to the fields\<close>

lemma save_meta_sel [simp]:
  "log_fd (save_meta s) = log_fd s" "st_term (save_meta s) = st_term s" "st_voted (save_meta s) = st_voted s"
  "st_last_log_term (save_meta s) = st_last_log_term s" "st_log_length (save_meta s) = st_log_length s"
  "st_commitIndex (save_meta s) = st_commitIndex s" "st_lastApplied (save_meta s) = st_lastApplied s"
  "raft_log (st_disk (save_meta s)) = raft_log (st_disk s)"
  "raft_meta (st_disk (save_meta s)) = Some (meta_bytes (st_term s) (st_voted s))"
  by (simp_all add: save_meta_def write_meta_tmp_def rename_meta_tmp_def)

lemma setTerm_sel [simp]:
  "log_fd (setTerm t s) = log_fd s" "st_term (setTerm t s) = t" "st_voted (setTerm t s) = st_voted s"
  "st_last_log_term (setTerm t s) = st_last_log_term s" "st_log_length (setTerm t s) = st_log_length s"
  "st_commitIndex (setTerm t s) = st_commitIndex s" "st_lastApplied (setTerm t s) = st_lastApplied s"
  "raft_log (st_disk (setTerm t s)) = raft_log (st_disk s)"
  by (simp_all add: setTerm_def)

lemma setVoted_sel [simp]:
  "log_fd (setVoted v s) = log_fd s" "st_term (setVoted v s) = st_term s" "st_voted (setVoted v s) = v"
  "st_last_log_term (setVoted v s) = st_last_log_term s" "st_log_length (setVoted v s) = st_log_length s"
  "st_commitIndex (setVoted v s) = st_commitIndex s" "st_lastApplied (setVoted v s) = st_lastApplied s"
  "raft_log (st_disk (setVoted v s)) = raft_log (st_disk s)"
  by (simp_all add: setVoted_def)

lemma setCommit_sel [simp]:
  "log_fd (setCommit c s) = log_fd s" "st_term (setCommit c s) = st_term s" "st_voted (setCommit c s) = st_voted s"
  "st_last_log_term (setCommit c s) = st_last_log_term s" "st_log_length (setCommit c s) = st_log_length s"
  "st_commitIndex (setCommit c s) = c" "st_lastApplied (setCommit c s) = st_lastApplied s"
  "st_disk (setCommit c s) = st_disk s"
  by (simp_all add: setCommit_def)

lemma setApplied_sel [simp]:
  "log_fd (setApplied a s) = log_fd s" "st_term (setApplied a s) = st_term s" "st_voted (setApplied a s) = st_voted s"
  "st_last_log_term (setApplied a s) = st_last_log_term s" "st_log_length (setApplied a s) = st_log_length s"
  "st_commitIndex (setApplied a s) = st_commitIndex s" "st_lastApplied (setApplied a s) = a"
  "st_disk (setApplied a s) = st_disk s"
  by (simp_all add: setApplied_def)

lemma write_log_sel [simp]:
  "st_term (write_log d s) = st_term s" "st_voted (write_log d s) = st_voted s"
  "st_last_log_term (write_log d s) = st_last_log_term s" "st_log_length (write_log d s) = st_log_length s"
  "st_commitIndex (write_log d s) = st_commitIndex s" "st_lastApplied (write_log d s) = st_lastApplied s"
  "raft_meta (st_disk (write_log d s)) = raft_meta (st_disk s)"
  by (simp_all add: write_log_def Let_def split: log_handle.split)

lemma write_log_end:
  assumes "at_end s"
  shows "raft_log (st_disk (write_log d s)) = Some (file_bytes (raft_log (st_disk s)) @ d)"
    and "at_end (write_log d s)"
  using assms by (auto simp: at_end_def write_log_def overwrite_def file_bytes_def Let_def)

lemma at_end_meta [simp]:
  "at_end (save_meta s) = at_end s" "at_end (setTerm t s) = at_end s" "at_end (setVoted v s) = at_end s"
  "at_end (s\<lparr>st_log_length := n, st_last_log_term := u\<rparr>) = at_end s"
  by (simp_all add: at_end_def)

lemma append_entry_sel [simp]:
  "st_term (append_entry e s) = st_term s" "st_voted (append_entry e s) = st_voted s"
  "st_last_log_term (append_entry e s) = le_term e" "st_log_length (append_entry e s) = le_index e"
  "st_commitIndex (append_entry e s) = st_commitIndex s" "st_lastApplied (append_entry e s) = st_lastApplied s"
  by (simp_all add: append_entry_def)

lemma append_entry_end:
  assumes "at_end s"
  shows "raft_log (st_disk (append_entry e s)) = Some (file_bytes (raft_log (st_disk s)) @ LogEntry_serialize e)"
    and "at_end (append_entry e s)"
  using write_log_end [OF assms, of "LogEntry_serialize e"] by (simp_all add: append_entry_def at_end_def)

lemma fold_write_log:
  "st_term (fold (\<lambda>e. write_log (LogEntry_serialize e)) es s) = st_term s"
  "st_voted (fold (\<lambda>e. write_log (LogEntry_serialize e)) es s) = st_voted s"
  "st_commitIndex (fold (\<lambda>e. write_log (LogEntry_serialize e)) es s) = st_commitIndex s"
  "st_lastApplied (fold (\<lambda>e. write_log (LogEntry_serialize e)) es s) = st_lastApplied s"
  "raft_meta (st_disk (fold (\<lambda>e. write_log (LogEntry_serialize e)) es s)) = raft_meta (st_disk s)"
  by (induction es arbitrary: s) simp_all

lemma fold_write_log_end:
  assumes "raft_log (st_disk s) = Some d" and "at_end s"
  shows "raft_log (st_disk (fold (\<lambda>e. write_log (LogEntry_serialize e)) es s)) = Some (d @ log_file es)
    \<and> at_end (fold (\<lambda>e. write_log (LogEntry_serialize e)) es s)"
  using assms by (induction es arbitrary: s d) (simp_all add: write_log_end file_bytes_def)

lemma truncate_log_sel:
  assumes "truncate_log k s = Inr s'"
  shows "st_term s' = st_term s" "st_voted s' = st_voted s" "st_commitIndex s' = st_commitIndex s"
    "st_lastApplied s' = st_lastApplied s"
  using assms
  by (auto simp: truncate_log_def Let_def fold_write_log split: if_splits elim!: bind_result_InrE)

lemma truncate_log_frame:
  "truncate_log k s = Inr s' \<Longrightarrow> st_term s' = st_term s \<and> st_voted s' = st_voted s
    \<and> st_commitIndex s' = st_commitIndex s \<and> st_lastApplied s' = st_lastApplied s"
  by (auto dest: truncate_log_sel)

section \<open>Metadata survives a restart\<close>

lemma meta_ok_save_meta: "length (st_voted s) < 2 ^ 32 \<Longrightarrow> meta_ok (save_meta s)"
  by (simp add: meta_ok_def)

lemma load_meta_bytes:
  assumes "raft_meta (st_disk s) = Some (meta_bytes t v)" and "length v < 2 ^ 32"
  shows "load_meta s = s\<lparr>st_term := t, st_last_log_term := 0, st_voted := v\<rparr>"
proof -
  let ?f = "meta_bytes t v"
  let ?rd = "\<lambda>j. if j < length ?f then ?f ! j else 255"
  have len: "length ?f = 12 + length v" by (simp add: meta_bytes_def)
  have "le_word 8 ?rd = t"
    by (rule le_word_put_le) (auto simp: meta_bytes_def nth_append)
  moreover have "le_word 4 (\<lambda>j. ?rd (8 + j)) = htonl (of_nat (length v))"
    by (rule le_word_put_le) (auto simp: meta_bytes_def nth_append)
  moreover have "drop 12 ?f = bytes_of v" by (simp add: meta_bytes_def)
  ultimately show ?thesis using assms
    by (simp add: load_meta_def Let_def unat_of_nat_u32)
qed

section \<open>Storage implements the log interface\<close>

lemma meta_ok_cong:
  "st_term s' = st_term s \<Longrightarrow> st_voted s' = st_voted s \<Longrightarrow>
    raft_meta (st_disk s') = raft_meta (st_disk s) \<Longrightarrow> meta_ok s' = meta_ok s"
  by (cases "raft_meta (st_disk s)") (simp_all add: meta_ok_def)

text \<open>Every operation leaves the metadata file up to date.\<close>

lemma meta_ok_ops [simp]:
  "meta_ok (setVoted v s) \<longleftrightarrow> length v < 2 ^ 32"
  "meta_ok s \<Longrightarrow> meta_ok (setTerm t s)" "meta_ok s \<Longrightarrow> meta_ok (append_entry e s)"
  by (simp_all add: meta_ok_def setVoted_def setTerm_def append_entry_def)

lemma meta_ok_volatile [simp]:
  "meta_ok (setCommit c s) = meta_ok s" "meta_ok (setApplied a s) = meta_ok s"
  by (rule meta_ok_cong, simp_all)+

lemma meta_ok_truncate: "truncate_log k s = Inr s' \<Longrightarrow> meta_ok s \<Longrightarrow> meta_ok s'"
  by (auto simp: truncate_log_def Let_def fold_write_log meta_ok_save_meta meta_ok_def
      split: if_splits elim!: bind_result_InrE)

text \<open>Only the metadata file decides what term and vote a restart finds.\<close>

lemma Storage_open_meta:
  assumes "Storage_open (st_disk s) = Inr s'" and "meta_ok s"
  shows "st_term s' = st_term s \<and> st_voted s' = st_voted s \<and> meta_ok s'"
proof -
  define s0 where "s0 = Storage_members (st_disk s)"
  have load: "load_meta s0 = s0\<lparr>st_term := st_term s, st_last_log_term := 0, st_voted := st_voted s\<rparr>"
  proof (cases "raft_meta (st_disk s)")
    case None
    with assms(2) show ?thesis by (simp add: s0_def Storage_members_def load_meta_def meta_ok_def)
  next
    case (Some f)
    with assms(2) show ?thesis by (intro load_meta_bytes) (simp_all add: s0_def Storage_members_def meta_ok_def)
  qed
  have "meta_ok (load_meta s0)"
    using assms(2) unfolding load by (cases "raft_meta (st_disk s)") (simp_all add: s0_def Storage_members_def meta_ok_def)
  with assms(1) show ?thesis
    unfolding Storage_open_def Let_def s0_def [symmetric] load
    by (auto split: if_splits elim!: bind_result_InrE simp: meta_ok_save_meta meta_ok_def)
qed

text \<open>The invariant does not depend on the volatile indices.\<close>

lemma store_inv_volatile [simp]:
  "store_inv (setCommit c s) = store_inv s" "log_of (setCommit c s) = log_of s"
  "store_inv (setApplied a s) = store_inv s" "log_of (setApplied a s) = log_of s"
  by (simp_all add: store_inv_def at_end_def log_of_def readAll_def meta_ok_cong [of "setCommit c s" s]
      meta_ok_cong [of "setApplied a s" s])

lemma log_of_meta [simp]: "log_of (setTerm t s) = log_of s" "log_of (setVoted v s) = log_of s"
  by (simp_all add: log_of_def readAll_def)

lemma store_inv_setTerm: "store_inv s \<Longrightarrow> store_inv (setTerm t s) \<and> log_of (setTerm t s) = log_of s"
  by (rule store_invI) (simp_all add: store_inv_def)

lemma store_inv_setVoted:
  "store_inv s \<Longrightarrow> length v < 2 ^ 32 \<Longrightarrow> store_inv (setVoted v s) \<and> log_of (setVoted v s) = log_of s"
  by (rule store_invI) (simp_all add: store_inv_def)

lemma store_inv_append:
  assumes "store_inv s" and "log_ok (log_of s @ [e])"
  shows "store_inv (append_entry e s) \<and> log_of (append_entry e s) = log_of s @ [e]"
proof (rule store_invI)
  show "st_log_length (append_entry e s) = of_nat (length (log_of s @ [e]))"
    using assms(2) log_ok_last [of "log_of s @ [e]"] by simp
  from assms(1) have e: "at_end s" by (simp add: store_inv_def)
  show "raft_log (st_disk (append_entry e s)) = Some (log_file (log_of s @ [e]))"
    using assms(1) append_entry_end(1) [OF e] by (simp add: store_inv_def file_bytes_def)
  show "at_end (append_entry e s)" by (rule append_entry_end(2) [OF e])
qed (use assms in \<open>simp_all add: store_inv_def last_term_def\<close>)

lemma store_inv_truncate:
  assumes inv: "store_inv s"
  shows "\<exists>s'. truncate_log k s = Inr s' \<and> store_inv s' \<and> log_of s' = take (unat k) (log_of s)"
proof (cases "k \<ge> st_log_length s")
  case True
  then have "length (log_of s) \<le> unat k" using store_inv_length [OF inv] by (simp add: word_le_nat_alt)
  with True inv show ?thesis by (simp add: truncate_log_def)
next
  case False
  let ?es = "take (unat k) (log_of s)"
  have k: "unat k < length (log_of s)"
    using False store_inv_length [OF inv] by (simp add: word_le_nat_alt)
  let ?s0 = "s\<lparr>log_fd := At 0, st_disk := (st_disk s)\<lparr>raft_log := Some []\<rparr>\<rparr>"
  let ?s1 = "fold (\<lambda>e. write_log (LogEntry_serialize e)) ?es ?s0"
  let ?s2 = "save_meta (?s1\<lparr>st_log_length := k, st_last_log_term := (if k = 0 then 0 else le_term (last ?es))\<rparr>)"
  have "truncate_log k s = Inr ?s2"
    using False k by (simp add: truncate_log_def store_inv_readAll [OF inv] Let_def)
  moreover have "store_inv ?s2 \<and> log_of ?s2 = ?es"
  proof (rule store_invI)
    have "at_end ?s0" by (simp add: at_end_def file_bytes_def)
    then have "raft_log (st_disk ?s1) = Some (log_file ?es) \<and> at_end ?s1"
      using fold_write_log_end [of ?s0 "[]" ?es] by simp
    then show "raft_log (st_disk ?s2) = Some (log_file ?es)" and "at_end ?s2" by simp_all
    show "log_ok ?es" using inv by (simp add: store_inv_def log_ok_take)
    show "st_log_length ?s2 = of_nat (length ?es)" using k by simp
    have "(?es = []) = (k = 0)" using k by (cases "log_of s") (auto simp: unat_eq_zero take_Cons')
    then show "st_last_log_term ?s2 = last_term ?es" by (simp add: last_term_def)
    show "meta_ok ?s2" using inv by (simp add: meta_ok_def store_inv_def fold_write_log)
  qed
  ultimately show ?thesis by blast
qed

lemma getTermAt_eq:
  assumes inv: "store_inv s"
  shows "getTermAt i s = Inr (entry_term (log_of s) (unat i))"
  using store_inv_length [OF inv]
  by (auto simp: getTermAt_def entry_term_def store_inv_readAll [OF inv] word_less_nat_alt unat_eq_zero)

interpretation storage: log_store store_inv log_of getLastLogIndex append_entry truncate_log getTermAt
proof unfold_locales
  show "store_inv s \<Longrightarrow> getTermAt i s = Inr (entry_term (log_of s) (unat i))" for s i
    by (rule getTermAt_eq)
  show "store_inv s \<Longrightarrow>
      \<exists>s'. truncate_log k s = Inr s' \<and> store_inv s' \<and> log_of s' = take (unat k) (log_of s)" for s k
    by (rule store_inv_truncate)
qed (simp_all add: store_inv_append, simp_all add: store_inv_def)

lemma readFrom_eq:
  assumes inv: "store_inv s"
  shows "readFrom i s = Inr (if i = 0 then [] else drop (unat i - 1) (log_of s))"
  using store_inv_length [OF inv]
  by (auto simp: readFrom_def store_inv_readAll [OF inv] word_less_nat_alt unat_eq_zero)

lemma readRange_eq:
  assumes inv: "store_inv s"
  shows "readRange i j s = Inr (if 1 \<le> i \<and> i \<le> j \<and> unat j \<le> length (log_of s)
    then drop (unat i - 1) (take (unat j) (log_of s)) else [])"
  using store_inv_length [OF inv]
  by (auto simp: readRange_def store_inv_readAll [OF inv] word_less_nat_alt word_le_nat_alt)

section \<open>Reopening\<close>

text \<open>
  Opening the files of a well-formed store gives the same term, vote and log, with the
  volatile indices back at zero.
\<close>

lemma Storage_open_reopens:
  assumes inv: "store_inv s"
  obtains s' where "Storage_open (st_disk s) = Inr s'" and "store_inv s'" and "log_of s' = log_of s"
    and "st_term s' = st_term s" and "st_voted s' = st_voted s"
    and "st_commitIndex s' = 0" and "st_lastApplied s' = 0"
proof -
  let ?log = "raft_log (st_disk s)" and ?es = "log_of s"
  have logf: "?log = Some (log_file ?es)" and ok: "log_ok ?es" and meta: "meta_ok s"
    using inv by (simp_all add: store_inv_def)
  define s0 where "s0 = Storage_members (st_disk s)"
  define s1 where "s1 = load_meta s0"
  have s1: "s1 = s0\<lparr>st_term := st_term s, st_last_log_term := 0, st_voted := st_voted s\<rparr>"
  proof (cases "raft_meta (st_disk s)")
    case None
    with meta show ?thesis by (simp add: s1_def s0_def Storage_members_def load_meta_def meta_ok_def)
  next
    case (Some f)
    with meta show ?thesis unfolding s1_def
      by (intro load_meta_bytes) (simp_all add: s0_def Storage_members_def meta_ok_def)
  qed
  have rd: "readAll s1 = Inr ?es"
    using logf ok by (intro readAll_file) (simp_all add: s1 s0_def Storage_members_def file_bytes_def)
  define s2 where "s2 = (if ?es \<noteq> [] then save_meta (s1\<lparr>st_log_length := le_index (last ?es),
                             st_last_log_term := le_term (last ?es)\<rparr>) else s1)"
  have op: "Storage_open (st_disk s) = Inr s2"
    using rd by (simp add: Storage_open_def Let_def s0_def [symmetric] s1_def [symmetric] s2_def)
  have "store_inv s2 \<and> log_of s2 = ?es"
  proof (rule store_invI)
    show "st_log_length s2 = of_nat (length ?es)"
      using log_ok_last [OF ok] by (simp add: s2_def s1 s0_def Storage_members_def)
    show "meta_ok s2" using meta by (cases "raft_meta (st_disk s)") (simp_all add: s2_def s1 s0_def Storage_members_def meta_ok_def)
  qed (use logf ok meta in \<open>simp_all add: s2_def s1 s0_def Storage_members_def file_bytes_def last_term_def meta_ok_def at_end_def\<close>)
  then show ?thesis by (intro that [OF op]) (auto simp: s2_def s1 s0_def Storage_members_def)
qed

lemma Storage_open_empty:
  "Storage_open \<lparr>raft_log = None, raft_meta = None, raft_meta_tmp = None\<rparr> =
     Inr \<lparr>log_fd = Appending, st_disk = \<lparr>raft_log = Some [], raft_meta = None, raft_meta_tmp = None\<rparr>, st_term = 0,
       st_last_log_term = 0, st_voted = [], st_log_length = 0, st_commitIndex = 0, st_lastApplied = 0\<rparr>"
  by (simp add: Storage_open_def Storage_members_def Let_def file_bytes_def load_meta_def readAll_def readAll_loop_end)

end
