(* ===== verification/StateMachine.thy ===== *)
theory StateMachine
  imports Command
begin

text \<open>
  The key-value store of \<^verbatim>\<open>include/StateMachine.h\<close>. \<^verbatim>\<open>std::unordered_map\<close> is a map; the console
  output is left out. A lookup of a missing key gives the empty string.
\<close>

section \<open>The code\<close>

record StateMachine =
  db :: "string \<rightharpoonup> string"

definition StateMachine_init :: StateMachine where
  "StateMachine_init = \<lparr>db = Map.empty\<rparr>"

definition sm_apply :: "Command \<Rightarrow> StateMachine \<Rightarrow> StateMachine" where
  "sm_apply cmd sm =
     (if oper cmd = PUT then sm\<lparr>db := (db sm)(Key cmd \<mapsto> Val cmd)\<rparr>
      else if oper cmd = DELETE then sm\<lparr>db := (db sm)(Key cmd := None)\<rparr>
      else sm)"

definition sm_get :: "string \<Rightarrow> StateMachine \<Rightarrow> string" where
  "sm_get key sm = (case db sm key of Some v \<Rightarrow> v | None \<Rightarrow> [])"

section \<open>The key-value contract\<close>

text \<open>
  What the replicated log needs of the machine it drives: the effect of one command on one
  key. The value of a key after a sequence of commands then depends on the last command that
  touches the key, and on nothing else.
\<close>

fun last_write :: "string \<Rightarrow> Command list \<Rightarrow> string option" where
  "last_write k [] = None"
| "last_write k (c # cs) =
     (case last_write k cs of
        Some v \<Rightarrow> Some v
      | None \<Rightarrow>
          if Key c = k \<and> isPut c then Some (Val c)
          else if Key c = k \<and> isDelete c then Some [] else None)"

locale kv_machine =
  fixes run :: "Command \<Rightarrow> 's \<Rightarrow> 's" and look :: "string \<Rightarrow> 's \<Rightarrow> string"
  assumes look_put: "isPut c \<Longrightarrow> look k (run c s) = (if k = Key c then Val c else look k s)"
    and look_delete: "isDelete c \<Longrightarrow> look k (run c s) = (if k = Key c then [] else look k s)"
    and look_other: "\<not> isPut c \<Longrightarrow> \<not> isDelete c \<Longrightarrow> run c s = s"
begin

lemma look_run:
  "look k (run c s) = (if Key c = k \<and> isPut c then Val c
     else if Key c = k \<and> isDelete c then [] else look k s)"
  by (cases "isPut c"; cases "isDelete c") (auto simp: look_put look_delete look_other)

lemma look_fold:
  "look k (fold run cs s) = (case last_write k cs of Some v \<Rightarrow> v | None \<Rightarrow> look k s)"
  by (induction cs arbitrary: s) (auto simp: look_run split: option.splits)

end

interpretation kv: kv_machine sm_apply sm_get
  by unfold_locales (auto simp: sm_apply_def sm_get_def isPut_def isDelete_def)

lemma sm_get_init [simp]: "sm_get k StateMachine_init = []"
  by (simp add: sm_get_def StateMachine_init_def)

end
