(* ===== verification/Peer.thy ===== *)
theory Peer
  imports Prelude "HOL-Library.Multiset"
begin

text \<open>
  The connection to one other node, \<^verbatim>\<open>include/Peer.h\<close>. The sockets belong to the operating
  system: what \<^verbatim>\<open>socket\<close>, \<^verbatim>\<open>connect\<close>, \<^verbatim>\<open>send\<close> and \<^verbatim>\<open>recv\<close> answer is an argument of the
  definitions, and what they are asked to close is part of the result.
\<close>

section \<open>The code\<close>

record Peer =
  peer_id :: c_int
  peer_ip :: string
  peer_port :: c_int
  sock_fd :: int
  connected :: bool
  peer_running :: bool

definition Peer_init :: "c_int \<Rightarrow> string \<Rightarrow> c_int \<Rightarrow> Peer" where
  "Peer_init pid ip port =
     \<lparr>peer_id = pid, peer_ip = ip, peer_port = port, sock_fd = -1, connected = False,
      peer_running = True\<rparr>"

text \<open>
  One round of \<^verbatim>\<open>backgroundConnect\<close>: \<open>fd\<close> is what \<^verbatim>\<open>socket\<close> returns, \<open>rc\<close> what \<^verbatim>\<open>connect\<close>
  returns. The second component lists the descriptors that are closed.
\<close>

definition backgroundConnect_step :: "int \<Rightarrow> int \<Rightarrow> Peer \<Rightarrow> Peer \<times> int list" where
  "backgroundConnect_step fd rc p =
     (if \<not> connected p then
        if fd \<ge> 0 then
          if rc = 0 then
            (p\<lparr>sock_fd := fd, connected := True\<rparr>, if sock_fd p \<ge> 0 then [sock_fd p] else [])
          else (p, [fd])
        else (p, [])
      else (p, []))"

text \<open>The thread: the rounds go on until the destructor clears \<open>peer_running\<close>.\<close>

fun backgroundConnect :: "(int \<times> int) list \<Rightarrow> Peer \<Rightarrow> Peer \<times> int list" where
  "backgroundConnect [] p = (p, [])"
| "backgroundConnect ((fd, rc) # rounds) p =
     (if \<not> peer_running p then (p, [])
      else
        let (p1, closed1) = backgroundConnect_step fd rc p;
            (p2, closed2) = backgroundConnect rounds p1
        in (p2, closed1 @ closed2))"

definition Peer_destroy :: "Peer \<Rightarrow> Peer \<times> int list" where
  "Peer_destroy p = (p\<lparr>peer_running := False\<rparr>, if sock_fd p \<ge> 0 then [sock_fd p] else [])"

text \<open>
  What happens around one call of \<^verbatim>\<open>sendRPC\<close>: whether the background thread connects (and with
  which descriptor) while the call waits, what \<^verbatim>\<open>send\<close> returns, and the bytes \<^verbatim>\<open>recv\<close> delivers
  for the request, none of them when it fails, times out or the other side has closed.
\<close>

record rpc_io =
  io_connect :: "int option"
  io_send :: int
  io_recv :: "byte list \<Rightarrow> byte list"

definition wait_connected :: "rpc_io \<Rightarrow> Peer \<Rightarrow> Peer" where
  "wait_connected io p =
     (if \<not> connected p then
        case io_connect io of Some fd \<Rightarrow> fst (backgroundConnect_step fd 0 p) | None \<Rightarrow> p
      else p)"

definition disconnect :: "Peer \<Rightarrow> Peer" where
  "disconnect p = p\<lparr>connected := False, sock_fd := -1\<rparr>"

definition sendRPC :: "rpc_io \<Rightarrow> byte list \<Rightarrow> Peer \<Rightarrow> byte list \<times> Peer" where
  "sendRPC io request p =
     (let p = wait_connected io p in
      if \<not> connected p then ([], p)
      else if io_send io < 0 then ([], disconnect p)
      else
        let buffer = take 65536 (io_recv io request) in
        if length buffer > 0 then (buffer, p) else ([], disconnect p))"

text \<open>The descriptors the call closes: in the connecting thread while it waits, and on a failure.\<close>

definition sendRPC_closed :: "rpc_io \<Rightarrow> byte list \<Rightarrow> Peer \<Rightarrow> int list" where
  "sendRPC_closed io request p =
     (if \<not> connected p then case io_connect io of Some fd \<Rightarrow> snd (backgroundConnect_step fd 0 p) | None \<Rightarrow> [] else [])
     @ (let p = wait_connected io p in
        if connected p \<and> (io_send io < 0 \<or> take 65536 (io_recv io request) = []) then [sock_fd p] else [])"

section \<open>Properties of a connection\<close>

text \<open>The flag and the descriptor agree: a connected peer has a descriptor to use.\<close>

definition peer_inv :: "Peer \<Rightarrow> bool" where
  "peer_inv p \<longleftrightarrow> (connected p \<longleftrightarrow> 0 \<le> sock_fd p)"

lemma peer_inv_init: "peer_inv (Peer_init pid ip port)"
  by (simp add: peer_inv_def Peer_init_def)

lemma peer_inv_connect: "peer_inv p \<Longrightarrow> peer_inv (fst (backgroundConnect_step fd rc p))"
  by (simp add: peer_inv_def backgroundConnect_step_def)

lemma peer_inv_background: "peer_inv p \<Longrightarrow> peer_inv (fst (backgroundConnect rounds p))"
proof (induction rounds arbitrary: p)
  case (Cons r rounds)
  obtain fd rc where r: "r = (fd, rc)" by fastforce
  have "peer_inv (fst (backgroundConnect_step fd rc p))" using Cons.prems by (rule peer_inv_connect)
  with Cons r show ?case by (simp add: Let_def split: prod.split) (metis fst_conv)
qed simp

lemma peer_inv_wait: "peer_inv p \<Longrightarrow> peer_inv (wait_connected io p)"
  by (simp add: wait_connected_def peer_inv_connect split: option.split)

lemma peer_inv_sendRPC: "peer_inv p \<Longrightarrow> peer_inv (snd (sendRPC io req p))"
  using peer_inv_wait [of p io]
  by (auto simp: sendRPC_def disconnect_def peer_inv_def Let_def)

lemma sendRPC_answer: "fst (sendRPC io req p) \<noteq> [] \<longleftrightarrow> connected (snd (sendRPC io req p))"
  by (auto simp: sendRPC_def disconnect_def Let_def)

lemma sendRPC_id [simp]: "peer_id (snd (sendRPC io req p)) = peer_id p"
  by (auto simp: sendRPC_def disconnect_def wait_connected_def backgroundConnect_step_def Let_def
      split: option.split)

section \<open>Descriptors\<close>

text \<open>
  A peer's life: rounds of the connecting thread (with what \<^verbatim>\<open>socket\<close> and \<^verbatim>\<open>connect\<close> return) and calls, in
  any order. The last two components list the descriptors that \<^verbatim>\<open>socket\<close> handed out and those that
  were closed.
\<close>

datatype peer_event = Round int int | Call rpc_io "byte list"

definition socket_opened :: "int \<Rightarrow> Peer \<Rightarrow> int list" where
  "socket_opened fd p = (if \<not> connected p \<and> 0 \<le> fd then [fd] else [])"

fun peer_event_step :: "peer_event \<Rightarrow> Peer \<Rightarrow> Peer \<times> int list \<times> int list" where
  "peer_event_step (Round fd rc) p =
     (fst (backgroundConnect_step fd rc p), socket_opened fd p, snd (backgroundConnect_step fd rc p))"
| "peer_event_step (Call io req) p =
     (snd (sendRPC io req p), (case io_connect io of Some fd \<Rightarrow> socket_opened fd p | None \<Rightarrow> []),
      sendRPC_closed io req p)"

fun peer_life :: "peer_event list \<Rightarrow> Peer \<Rightarrow> Peer \<times> int list \<times> int list" where
  "peer_life [] p = (p, [], [])"
| "peer_life (e # es) p =
     (let (p1, o1, c1) = peer_event_step e p; (p2, o2, c2) = peer_life es p1 in (p2, o1 @ o2, c1 @ c2))"

text \<open>What is open is what the peer holds.\<close>

definition held :: "Peer \<Rightarrow> int multiset" where
  "held p = (if 0 \<le> sock_fd p then {#sock_fd p#} else {#})"

lemma connect_balance:
  assumes "peer_inv p"
  shows "held p + mset (socket_opened fd p) =
    held (fst (backgroundConnect_step fd rc p)) + mset (snd (backgroundConnect_step fd rc p))"
  using assms by (auto simp: held_def socket_opened_def backgroundConnect_step_def peer_inv_def)

lemma sendRPC_balance:
  assumes inv: "peer_inv p"
  shows "held p + mset (case io_connect io of Some fd \<Rightarrow> socket_opened fd p | None \<Rightarrow> []) =
    held (snd (sendRPC io req p)) + mset (sendRPC_closed io req p)"
proof -
  let ?w = "wait_connected io p"
  have w: "held p + mset (case io_connect io of Some fd \<Rightarrow> socket_opened fd p | None \<Rightarrow> []) =
      held ?w + mset (if \<not> connected p
        then case io_connect io of Some fd \<Rightarrow> snd (backgroundConnect_step fd 0 p) | None \<Rightarrow> [] else [])"
    using connect_balance [OF inv, of _ 0]
    by (cases "connected p") (simp_all add: wait_connected_def socket_opened_def split: option.split)
  have r: "held ?w = held (snd (sendRPC io req p)) + mset (let p = ?w in
      if connected p \<and> (io_send io < 0 \<or> take 65536 (io_recv io req) = []) then [sock_fd p] else [])"
    using peer_inv_wait [OF inv, of io]
    by (auto simp: sendRPC_def disconnect_def held_def peer_inv_def Let_def)
  show ?thesis unfolding w r sendRPC_closed_def mset_append by (simp only: ac_simps)
qed

lemma peer_event_balance:
  assumes "peer_inv p" and "peer_event_step e p = (p', o1, c1)"
  shows "peer_inv p' \<and> held p + mset o1 = held p' + mset c1"
proof (cases e)
  case (Round fd rc)
  with assms connect_balance [OF assms(1), of fd rc] peer_inv_connect [OF assms(1), of fd rc] show ?thesis by auto
next
  case (Call io req)
  with assms sendRPC_balance [OF assms(1), of io req] peer_inv_sendRPC [OF assms(1), of io req] show ?thesis by auto
qed

lemma peer_life_balance:
  assumes "peer_inv p" and "peer_life es p = (p', opened, closed)"
  shows "peer_inv p' \<and> held p + mset opened = held p' + mset closed"
  using assms
proof (induction es arbitrary: p p' opened closed)
  case (Cons e es)
  obtain p1 o1 c1 where 1: "peer_event_step e p = (p1, o1, c1)" by (metis prod_cases3)
  obtain p2 o2 c2 where 2: "peer_life es p1 = (p2, o2, c2)" by (metis prod_cases3)
  have e: "peer_inv p1" "held p + mset o1 = held p1 + mset c1"
    using peer_event_balance [OF Cons.prems(1) 1] by auto
  from Cons.prems(2) 1 2 have "p' = p2" "opened = o1 @ o2" "closed = c1 @ c2" by simp_all
  moreover from Cons.IH [OF e(1) 2] have "peer_inv p2" "held p1 + mset o2 = held p2 + mset c2" by auto
  moreover have "held p + (mset o1 + mset o2) = held p2 + (mset c1 + mset c2)"
  proof -
    have "held p + (mset o1 + mset o2) = (held p1 + mset o2) + mset c1"
      using e(2) by (simp add: add.assoc [symmetric])
    also have "\<dots> = held p2 + (mset c1 + mset c2)"
      unfolding \<open>held p1 + mset o2 = held p2 + mset c2\<close> by (simp add: ac_simps)
    finally show ?thesis .
  qed
  ultimately show ?case by simp
qed simp

end
