(* ===== verification/Rpc.thy ===== *)
theory Rpc
  imports LogEntry
begin

text \<open>
  The four messages of \<^verbatim>\<open>include/RPC.h\<close>: AppendEntries (tag \<^verbatim>\<open>A\<close>, answered by \<^verbatim>\<open>R\<close>) and RequestVote
  (tag \<^verbatim>\<open>V\<close>, answered by \<^verbatim>\<open>W\<close>), their encoders and decoders.
  The decoders never look at the tag (the callers dispatch on it) and never at the length they
  were given, so a message that is cut short is a read past the end.
\<close>

section \<open>The code\<close>

definition push_uint64 :: "byte list \<Rightarrow> u64 \<Rightarrow> byte list" where
  "push_uint64 v val = v @ put_le 8 val"

definition read_uint64 :: "byte list \<Rightarrow> nat \<Rightarrow> (u64 \<times> nat) result" where
  "read_uint64 data offset = bind_result (get_le 8 data offset) (\<lambda>val. Inr (val, offset + 8))"

record AppendEntries =
  ae_term :: u64
  ae_leaderId :: u64
  ae_prevLogIndex :: u64
  ae_prevLogTerm :: u64
  ae_leaderCommit :: u64
  ae_entries :: "LogEntry list"

record AppendEntriesResponse =
  ar_term :: u64
  ar_success :: bool

record RequestVote =
  rv_term :: u64
  rv_candidateId :: u64
  rv_lastLogIndex :: u64
  rv_lastLogTerm :: u64

record RequestVoteResponse =
  vr_term :: u64
  vr_voteGranted :: bool

definition put_sized_entry :: "LogEntry \<Rightarrow> byte list" where
  "put_sized_entry e =
     (let bin_entry = LogEntry_serialize e
      in put_le 4 (of_nat (length bin_entry) :: u32) @ bin_entry)"

definition AppendEntries_serialize :: "AppendEntries \<Rightarrow> byte list" where
  "AppendEntries_serialize m =
     (let v = [of_char CHR ''A''];
          v = push_uint64 v (ae_term m);
          v = push_uint64 v (ae_leaderId m);
          v = push_uint64 v (ae_prevLogIndex m);
          v = push_uint64 v (ae_prevLogTerm m);
          v = push_uint64 v (ae_leaderCommit m);
          v = v @ put_le 4 (of_nat (length (ae_entries m)) :: u32)
      in v @ concat (map put_sized_entry (ae_entries m)))"

text \<open>One round of the entry loop: the length is read and not used.\<close>

definition read_sized_entry :: "byte list \<Rightarrow> nat \<Rightarrow> (LogEntry \<times> nat) result" where
  "read_sized_entry data offset =
     bind_result (get_le 4 data offset) (\<lambda>len :: u32. LogEntry_deserialize data (offset + 4))"

definition AppendEntries_deserialize :: "byte list \<Rightarrow> AppendEntries result" where
  "AppendEntries_deserialize data =
     bind_result (read_uint64 data 1) (\<lambda>(t, offset).
     bind_result (read_uint64 data offset) (\<lambda>(l, offset).
     bind_result (read_uint64 data offset) (\<lambda>(pi, offset).
     bind_result (read_uint64 data offset) (\<lambda>(pt, offset).
     bind_result (read_uint64 data offset) (\<lambda>(lc, offset).
     bind_result (get_le 4 data offset) (\<lambda>count :: u32.
     bind_result (decode_count read_sized_entry (unat count) data (offset + 4)) (\<lambda>(es, _).
     Inr \<lparr>ae_term = t, ae_leaderId = l, ae_prevLogIndex = pi, ae_prevLogTerm = pt,
          ae_leaderCommit = lc, ae_entries = es\<rparr>)))))))"

definition AppendEntriesResponse_serialize :: "AppendEntriesResponse \<Rightarrow> byte list" where
  "AppendEntriesResponse_serialize r =
     push_uint64 [of_char CHR ''R''] (ar_term r) @ [if ar_success r then 1 else 0]"

definition AppendEntriesResponse_deserialize :: "byte list \<Rightarrow> AppendEntriesResponse result" where
  "AppendEntriesResponse_deserialize data =
     bind_result (read_uint64 data 1) (\<lambda>(t, offset).
     bind_result (byte_at data offset) (\<lambda>b.
     Inr \<lparr>ar_term = t, ar_success = (b \<noteq> 0)\<rparr>))"

definition RequestVote_serialize :: "RequestVote \<Rightarrow> byte list" where
  "RequestVote_serialize m =
     (let v = [of_char CHR ''V''];
          v = push_uint64 v (rv_term m);
          v = push_uint64 v (rv_candidateId m);
          v = push_uint64 v (rv_lastLogIndex m)
      in push_uint64 v (rv_lastLogTerm m))"

definition RequestVote_deserialize :: "byte list \<Rightarrow> RequestVote result" where
  "RequestVote_deserialize data =
     bind_result (read_uint64 data 1) (\<lambda>(t, offset).
     bind_result (read_uint64 data offset) (\<lambda>(c, offset).
     bind_result (read_uint64 data offset) (\<lambda>(li, offset).
     bind_result (read_uint64 data offset) (\<lambda>(lt, _).
     Inr \<lparr>rv_term = t, rv_candidateId = c, rv_lastLogIndex = li, rv_lastLogTerm = lt\<rparr>))))"

definition RequestVoteResponse_serialize :: "RequestVoteResponse \<Rightarrow> byte list" where
  "RequestVoteResponse_serialize r =
     push_uint64 [of_char CHR ''W''] (vr_term r) @ [if vr_voteGranted r then 1 else 0]"

definition RequestVoteResponse_deserialize :: "byte list \<Rightarrow> RequestVoteResponse result" where
  "RequestVoteResponse_deserialize data =
     bind_result (read_uint64 data 1) (\<lambda>(t, offset).
     bind_result (byte_at data offset) (\<lambda>b.
     Inr \<lparr>vr_term = t, vr_voteGranted = (b \<noteq> 0)\<rparr>))"

section \<open>Fixed-width fields\<close>

lemma read_uint64_put [codec_simps]:
  "off = length pre \<Longrightarrow> read_uint64 (pre @ put_le 8 x @ post) off = Inr (x, off + 8)"
  by (simp add: read_uint64_def codec_simps)

lemma read_uint64_take:
  "read_uint64 (take m data) off =
     (if off + 8 \<le> m then read_uint64 data off else Inl Undefined)"
  by (simp add: read_uint64_def get_le_take)

text \<open>A header byte followed by 64-bit fields: the n-th field is at offset \<open>1 + 8 * n\<close>.\<close>

lemma read_field:
  "read_uint64 (tag # concat (map (put_le 8) fs) @ post) (1 + n * 8) = Inr (fs ! n, 1 + n * 8 + 8)"
  if "n < length fs" for fs :: "u64 list"
proof -
  have len: "length (concat (map (put_le 8) xs)) = length xs * 8" for xs :: "u64 list"
    by (induction xs) simp_all
  have fs: "tag # concat (map (put_le 8) fs) @ post = (tag # concat (map (put_le 8) (take n fs)))
      @ put_le 8 (fs ! n) @ concat (map (put_le 8) (drop (Suc n) fs)) @ post"
    using that by (subst id_take_nth_drop [OF that]) simp
  show ?thesis unfolding fs
    by (rule read_uint64_put [THEN trans]) (use that in \<open>simp_all add: len\<close>)
qed

lemmas read_fields =
  read_field [where n = 0, simplified] read_field [where n = 1, simplified]
  read_field [where n = 2, simplified] read_field [where n = 3, simplified]
  read_field [where n = 4, simplified]

section \<open>Round trips\<close>

lemma RequestVote_bytes:
  "RequestVote_serialize m = of_char CHR ''V'' # concat (map (put_le 8)
     [rv_term m, rv_candidateId m, rv_lastLogIndex m, rv_lastLogTerm m])"
  by (simp add: RequestVote_serialize_def push_uint64_def Let_def)

lemma RequestVote_roundtrip_append:
  "RequestVote_deserialize (RequestVote_serialize m @ post) = Inr m"
proof -
  let ?fs = "[rv_term m, rv_candidateId m, rv_lastLogIndex m, rv_lastLogTerm m]"
  note rd = read_fields [where fs = ?fs and tag = "of_char CHR ''V''" and post = post]
  show ?thesis
    unfolding RequestVote_bytes RequestVote_deserialize_def append_Cons
    using rd(1-4) by (simp del: concat.simps list.map append.simps)
qed

lemma length_RequestVote_serialize [len_simps]: "length (RequestVote_serialize m) = 33"
  by (simp add: RequestVote_serialize_def push_uint64_def Let_def)

lemma hd_RequestVote_serialize: "hd (RequestVote_serialize m) = of_char CHR ''V''"
  by (simp add: RequestVote_bytes)

lemma response_bytes:
  "read_uint64 (push_uint64 [tag] t @ b # post) 1 = Inr (t, 9)"
  "byte_at (push_uint64 [tag] t @ b # post) 9 = Inr b"
  using read_fields(1) [where fs = "[t]" and tag = tag and post = "b # post"]
  by (simp_all add: push_uint64_def byte_at_def nth_append)

lemma RequestVoteResponse_roundtrip_append:
  "RequestVoteResponse_deserialize (RequestVoteResponse_serialize r @ post) = Inr r"
  unfolding RequestVoteResponse_deserialize_def RequestVoteResponse_serialize_def append_assoc
    append_Cons append_Nil response_bytes
  by (simp add: response_bytes)

lemma AppendEntriesResponse_roundtrip_append:
  "AppendEntriesResponse_deserialize (AppendEntriesResponse_serialize r @ post) = Inr r"
  unfolding AppendEntriesResponse_deserialize_def AppendEntriesResponse_serialize_def append_assoc
    append_Cons append_Nil response_bytes
  by (simp add: response_bytes)

lemma response_tags:
  "RequestVoteResponse_serialize r \<noteq> []" "hd (RequestVoteResponse_serialize r) = of_char CHR ''W''"
  "AppendEntriesResponse_serialize a \<noteq> []" "hd (AppendEntriesResponse_serialize a) = of_char CHR ''R''"
  by (simp_all add: RequestVoteResponse_serialize_def AppendEntriesResponse_serialize_def push_uint64_def)

interpretation sized_codec: record_codec put_sized_entry read_sized_entry entry_ok
proof
  fix e pre post assume ok: "entry_ok e"
  let ?b = "LogEntry_serialize e" and ?l = "put_le 4 (of_nat (length (LogEntry_serialize e)) :: u32)"
  have "get_le 4 (pre @ ?l @ ?b @ post) (length pre) = Inr (of_nat (length ?b) :: u32)"
    by (rule get_le_put_le) simp_all
  moreover have "LogEntry_deserialize ((pre @ ?l) @ ?b @ post) (length (pre @ ?l)) =
      Inr (e, length (pre @ ?l) + length ?b)"
    by (rule entry_codec.dec_enc [OF ok])
  ultimately show "read_sized_entry (pre @ put_sized_entry e @ post) (length pre) =
      Inr (e, length pre + length (put_sized_entry e))"
    by (simp add: read_sized_entry_def put_sized_entry_def Let_def)
next
  fix e n pre assume ok: "entry_ok e" and n: "n < length (put_sized_entry e)"
  let ?b = "LogEntry_serialize e" and ?l = "put_le 4 (of_nat (length (LogEntry_serialize e)) :: u32)"
  show "read_sized_entry (pre @ take n (put_sized_entry e)) (length pre) = Inl Undefined"
  proof (cases "n < 4")
    case True
    then show ?thesis
      by (simp add: read_sized_entry_def put_sized_entry_def Let_def get_le_beyond)
  next
    case False
    then have cut: "pre @ take n (put_sized_entry e) = pre @ ?l @ take (n - 4) ?b"
      by (simp add: put_sized_entry_def Let_def)
    have "get_le 4 (pre @ ?l @ take (n - 4) ?b) (length pre) = Inr (of_nat (length ?b) :: u32)"
      by (rule get_le_put_le) simp_all
    moreover have "LogEntry_deserialize ((pre @ ?l) @ take (n - 4) ?b) (length (pre @ ?l)) = Inl Undefined"
      using False n by (intro entry_codec.dec_torn [OF ok]) (simp add: put_sized_entry_def Let_def)
    ultimately show ?thesis unfolding cut by (simp add: read_sized_entry_def)
  qed
qed

definition append_ok :: "AppendEntries \<Rightarrow> bool" where
  "append_ok m \<longleftrightarrow> (\<forall>e \<in> set (ae_entries m). entry_ok e) \<and> length (ae_entries m) < 2 ^ 32"

definition append_header :: "AppendEntries \<Rightarrow> byte list" where
  "append_header m = of_char CHR ''A'' # concat (map (put_le 8)
     [ae_term m, ae_leaderId m, ae_prevLogIndex m, ae_prevLogTerm m, ae_leaderCommit m])"

lemma AppendEntries_bytes:
  "AppendEntries_serialize m = append_header m @ put_le 4 (of_nat (length (ae_entries m)) :: u32)
     @ concat (map put_sized_entry (ae_entries m))"
  by (simp add: AppendEntries_serialize_def append_header_def push_uint64_def Let_def)

lemma length_append_header [simp]: "length (append_header m) = 41"
  by (simp add: append_header_def)

lemma append_header_reads:
  "read_uint64 (append_header m @ post) (Suc 0) = Inr (ae_term m, 9)"
  "read_uint64 (append_header m @ post) 9 = Inr (ae_leaderId m, 17)"
  "read_uint64 (append_header m @ post) 17 = Inr (ae_prevLogIndex m, 25)"
  "read_uint64 (append_header m @ post) 25 = Inr (ae_prevLogTerm m, 33)"
  "read_uint64 (append_header m @ post) 33 = Inr (ae_leaderCommit m, 41)"
  using read_fields [where fs = "[ae_term m, ae_leaderId m, ae_prevLogIndex m, ae_prevLogTerm m,
      ae_leaderCommit m]" and tag = "of_char CHR ''A''" and post = post]
  unfolding append_header_def append_Cons
  by (simp_all del: concat.simps list.map append.simps)

lemma AppendEntries_count:
  "get_le 4 (AppendEntries_serialize m @ post) 41 = Inr (of_nat (length (ae_entries m)) :: u32)"
  unfolding AppendEntries_bytes append_assoc by (rule get_le_put_le) simp_all

lemma AppendEntries_entries:
  assumes "append_ok m"
  shows "decode_count read_sized_entry (length (ae_entries m)) (AppendEntries_serialize m @ post) 45 =
    Inr (ae_entries m, length (AppendEntries_serialize m))"
proof -
  let ?h = "append_header m @ put_le 4 (of_nat (length (ae_entries m)) :: u32)"
  have "decode_count read_sized_entry (length (ae_entries m))
      (?h @ concat (map put_sized_entry (ae_entries m)) @ post) (length ?h) =
      Inr (ae_entries m, length ?h + length (concat (map put_sized_entry (ae_entries m))))"
    using assms by (intro sized_codec.decode_count_enc) (simp add: append_ok_def)
  then show ?thesis by (simp add: AppendEntries_bytes)
qed

lemma AppendEntries_roundtrip_append:
  assumes "append_ok m"
  shows "AppendEntries_deserialize (AppendEntries_serialize m @ post) = Inr m"
  using AppendEntries_entries [OF assms, of post] AppendEntries_count [of m post] assms
  by (simp add: AppendEntries_deserialize_def append_header_reads AppendEntries_bytes
      append_ok_def unat_of_nat_u32)

section \<open>Messages cut short\<close>

text \<open>
  The encodings of the fixed-size messages are read as a whole; a message that is cut short
  makes one of the reads run past the end.
\<close>

lemma RequestVote_torn:
  assumes "n < 33"
  shows "RequestVote_deserialize (take n (RequestVote_serialize m)) = Inl Undefined"
proof -
  let ?fs = "[rv_term m, rv_candidateId m, rv_lastLogIndex m, rv_lastLogTerm m]"
  note rd = read_fields [where fs = ?fs and tag = "of_char CHR ''V''" and post = "[]"]
  show ?thesis
    unfolding RequestVote_bytes RequestVote_deserialize_def read_uint64_take
    using rd(1-4) assms by (simp del: concat.simps list.map append.simps)
qed

lemma AppendEntries_torn:
  assumes ok: "append_ok m" and n: "n < length (AppendEntries_serialize m)"
  shows "AppendEntries_deserialize (take n (AppendEntries_serialize m)) = Inl Undefined"
proof -
  let ?es = "ae_entries m" and ?h = "append_header m @ put_le 4 (of_nat (length (ae_entries m)) :: u32)"
  let ?body = "concat (map put_sized_entry (ae_entries m))"
  have hdr: "read_uint64 (AppendEntries_serialize m) (Suc 0) = Inr (ae_term m, 9)"
    "read_uint64 (AppendEntries_serialize m) 9 = Inr (ae_leaderId m, 17)"
    "read_uint64 (AppendEntries_serialize m) 17 = Inr (ae_prevLogIndex m, 25)"
    "read_uint64 (AppendEntries_serialize m) 25 = Inr (ae_prevLogTerm m, 33)"
    "read_uint64 (AppendEntries_serialize m) 33 = Inr (ae_leaderCommit m, 41)"
    by (simp_all only: AppendEntries_bytes append_header_reads)
  have cnt: "get_le 4 (AppendEntries_serialize m) 41 = Inr (of_nat (length ?es) :: u32)"
    using AppendEntries_count [of m "[]"] by simp
  have body: "decode_count read_sized_entry (length ?es) (take n (AppendEntries_serialize m)) 45 =
      Inl Undefined" if "45 \<le> n"
  proof -
    have "take n (AppendEntries_serialize m) = ?h @ take (n - 45) ?body"
      using that by (simp add: AppendEntries_bytes)
    moreover have "decode_count read_sized_entry (length ?es) (?h @ take (n - 45) ?body) (length ?h) =
        Inl Undefined"
      using ok n that by (intro sized_codec.decode_count_torn) (auto simp: append_ok_def AppendEntries_bytes)
    ultimately show ?thesis by simp
  qed
  show ?thesis
    using body ok
    by (auto simp: AppendEntries_deserialize_def read_uint64_take get_le_take hdr cnt
        unat_of_nat_u32 append_ok_def)
qed

end
