(* ===== verification/RaftNode.thy ===== *)
theory RaftNode
  imports Storage StateMachine Peer Rpc
begin

text \<open>
  The consensus node of \<^verbatim>\<open>include/RaftNode.h\<close>, operation by operation. Time and randomness are
  inputs: \<open>readings\<close> gives the k-th pair of clock value (milliseconds) and \<^verbatim>\<open>rand()\<close> result
  that a call obtains. What the network answers is an input as well, one \<open>rpc_io\<close> per peer.
  Everything that can run past the end of a vector or throw returns a \<open>result\<close>. What requests of
  clients reach (\<open>submit\<close>, \<open>get\<close> and below) is a \<open>call\<close>: the connection handler catches exceptions and
  goes on with the node as the throw leaves it. Nobody catches what the constructor, the background
  thread or the handlers of messages throw (\<open>uncaught\<close>).
\<close>

section \<open>State\<close>

datatype NodeState = FOLLOWER | CANDIDATE | LEADER

record RaftNode =
  store :: Storage
  sm :: StateMachine
  node_id :: c_int
  peers :: "Peer list"
  state :: NodeState
  running :: bool
  last_heartbeat :: int
  current_timeout :: int
  current_leader_id :: c_int
  nextIndex :: "u64 list"
  matchIndex :: "u64 list"
  noop_committed :: bool

type_synonym readings = "nat \<Rightarrow> int \<times> nat"

definition getRandomTimeout :: "nat \<Rightarrow> int" where
  "getRandomTimeout r = 3000 + int (r mod 201)"

definition reset_timer :: "readings \<Rightarrow> nat \<Rightarrow> RaftNode \<Rightarrow> RaftNode" where
  "reset_timer ev k s =
     s\<lparr>last_heartbeat := fst (ev k), current_timeout := getRandomTimeout (snd (ev k))\<rparr>"

abbreviation on_store :: "(Storage \<Rightarrow> Storage) \<Rightarrow> RaftNode \<Rightarrow> RaftNode" where
  "on_store f s \<equiv> s\<lparr>store := f (store s)\<rparr>"

abbreviation cur_term :: "RaftNode \<Rightarrow> u64" where
  "cur_term s \<equiv> getTerm (store s)"

definition to_string_cint :: "c_int \<Rightarrow> string" where
  "to_string_cint i = to_string_int (sint i)"

definition to_string_u64 :: "u64 \<Rightarrow> string" where
  "to_string_u64 x = decimal (unat x)"

section \<open>Applying entries\<close>

definition apply_entries :: "LogEntry list \<Rightarrow> StateMachine \<Rightarrow> (StateMachine, StateMachine) call" where
  "apply_entries =
     for_each (\<lambda>e m. bind_result (throws_at m (getCommand e)) (\<lambda>c. Inr (sm_apply c m)))"

definition replay :: "RaftNode \<Rightarrow> RaftNode result" where
  "replay s =
     bind_result (readAll (store s)) (\<lambda>entries.
     bind_result (uncaught (apply_entries entries (sm s))) (\<lambda>m.
     let s = s\<lparr>sm := m\<rparr> in
     if entries \<noteq> [] then
       Inr (on_store (setCommit (le_index (last entries)) \<circ> setApplied (le_index (last entries))) s)
     else Inr s))"

definition applyCommitted :: "RaftNode \<Rightarrow> (RaftNode, RaftNode) call" where
  "applyCommitted s =
     (let last_applied = getApplied (store s); commit = getCommit (store s) in
      if commit > last_applied then
        bind_result (throws_at s (readRange (last_applied + 1) commit (store s))) (\<lambda>entries.
        bind_result (throws_in (\<lambda>m. s\<lparr>sm := m\<rparr>) (apply_entries entries (sm s))) (\<lambda>m.
        Inr (on_store (setApplied commit) (s\<lparr>sm := m\<rparr>))))
      else Inr s)"

text \<open>The constructor, given what the files of the working directory hold.\<close>

definition RaftNode_init :: "readings \<Rightarrow> c_int \<Rightarrow> Peer list \<Rightarrow> Disk \<Rightarrow> RaftNode result" where
  "RaftNode_init ev nid cluster_peers d =
     bind_result (Storage_open d) (\<lambda>st.
     bind_result (replay \<lparr>store = st, sm = StateMachine_init, node_id = nid, peers = cluster_peers,
        state = FOLLOWER, running = True, last_heartbeat = 0, current_timeout = 0,
        current_leader_id = 0, nextIndex = [], matchIndex = [], noop_committed = False\<rparr>) (\<lambda>s.
     Inr (reset_timer ev 0 s)))"

section \<open>Leader side of replication\<close>

definition majority :: "RaftNode \<Rightarrow> nat" where
  "majority s = (length (peers s) + 1) div 2 + 1"

text \<open>How many nodes, the leader included, are known to hold the entry at \<open>idx\<close>.\<close>

definition match_count :: "u64 \<Rightarrow> RaftNode \<Rightarrow> nat result" where
  "match_count idx s =
     (if list_ex (\<lambda>j. connected (peers s ! j) \<and> length (matchIndex s) \<le> j) [0..<length (peers s)]
      then Inl Undefined
      else Inr (1 + length (filter (\<lambda>j. connected (peers s ! j) \<and> matchIndex s ! j \<ge> idx)
                              [0..<length (peers s)])))"

fun commit_scan :: "RaftNode \<Rightarrow> u64 list \<Rightarrow> u64 \<Rightarrow> u64 result" where
  "commit_scan s [] new_commit = Inr new_commit"
| "commit_scan s (idx # rest) new_commit =
     bind_result (getTermAt idx (store s)) (\<lambda>t.
     if t \<noteq> cur_term s then commit_scan s rest new_commit
     else bind_result (match_count idx s) (\<lambda>count.
       if count \<ge> (length (peers s) + 1) div 2 + 1 then commit_scan s rest idx
       else Inr new_commit))"

text \<open>
  The indices are \<^verbatim>\<open>commit + 1\<close> (a 64-bit sum) up to the last one. (With a log of \<open>2 ^ 64 - 1\<close>
  entries the loop of the source would not end; \<open>log_ok\<close> of \<open>LogSpec\<close> leaves such logs out.)
\<close>

definition advanceCommitIndex :: "RaftNode \<Rightarrow> (RaftNode, RaftNode) call" where
  "advanceCommitIndex s =
     (let commit = getCommit (store s) in
      bind_result
        (throws_at s
          (commit_scan s (map of_nat [unat (commit + 1) ..< unat (getLastLogIndex (store s)) + 1]) commit))
        (\<lambda>new_commit.
          if new_commit > commit then applyCommitted (on_store (setCommit new_commit) s)
          else Inr s))"

definition prepare_AppendEntries :: "nat \<Rightarrow> RaftNode \<Rightarrow> AppendEntries result" where
  "prepare_AppendEntries i s =
     (if length (peers s) \<le> i \<or> length (nextIndex s) \<le> i then Inl Undefined
      else
        let next = nextIndex s ! i; prev = next - 1 in
        bind_result (if prev = 0 then Inr 0 else getTermAt prev (store s)) (\<lambda>prevTerm.
        bind_result (if next \<le> getLastLogIndex (store s) then readFrom next (store s) else Inr [])
          (\<lambda>es.
        Inr \<lparr>ae_term = cur_term s, ae_leaderId = scast (node_id s), ae_prevLogIndex = prev,
             ae_prevLogTerm = prevTerm, ae_leaderCommit = getCommit (store s), ae_entries = es\<rparr>)))"

text \<open>
  The answer of peer \<open>i\<close>. (\<^verbatim>\<open>nextIndex\<close> and \<^verbatim>\<open>matchIndex\<close> are always assigned together, so an
  index that is out of range for one is out of range for the other.)
\<close>

definition back_off :: "nat \<Rightarrow> AppendEntries \<Rightarrow> RaftNode \<Rightarrow> RaftNode" where
  "back_off i ae s =
     (if ae_entries ae \<noteq> [] \<and> nextIndex s ! i > 1
      then s\<lparr>nextIndex := (nextIndex s)[i := nextIndex s ! i - 1]\<rparr> else s)"

definition handle_append_reply ::
  "nat \<Rightarrow> AppendEntries \<Rightarrow> byte list \<Rightarrow> RaftNode \<Rightarrow> (RaftNode, RaftNode) call" where
  "handle_append_reply i ae resp_data s =
     (if length (matchIndex s) \<le> i then Inl (Undefined, s)
      else
        let s = (if resp_data = [] then s\<lparr>matchIndex := (matchIndex s)[i := 0]\<rparr> else s) in
        if resp_data \<noteq> [] \<and> hd resp_data = of_char CHR ''R'' then
          bind_result (throws_at s (AppendEntriesResponse_deserialize resp_data)) (\<lambda>resp.
          if ar_term resp > cur_term s then
            Inr (on_store (setVoted []) ((on_store (setTerm (ar_term resp)) s)\<lparr>state := FOLLOWER\<rparr>))
          else if ar_success resp \<and> ae_entries ae \<noteq> [] then
            let last_sent = ae_prevLogIndex ae + of_nat (length (ae_entries ae));
                m = max (matchIndex s ! i) last_sent
            in advanceCommitIndex
                 (s\<lparr>matchIndex := (matchIndex s)[i := m], nextIndex := (nextIndex s)[i := m + 1]\<rparr>)
          else Inr (back_off i ae s))
        else Inr (back_off i ae s))"

definition sendAppendEntries :: "rpc_io \<Rightarrow> nat \<Rightarrow> RaftNode \<Rightarrow> (RaftNode, RaftNode) call" where
  "sendAppendEntries io i s =
     bind_result (throws_at s (prepare_AppendEntries i s)) (\<lambda>ae.
     let (resp_data, p) = sendRPC io (AppendEntries_serialize ae) (peers s ! i)
     in handle_append_reply i ae resp_data (s\<lparr>peers := (peers s)[i := p]\<rparr>))"

text \<open>\<^verbatim>\<open>for (i = 0; i < peers.size(); ++i) sendAppendEntries(i)\<close>.\<close>

definition sendAll :: "(nat \<Rightarrow> rpc_io) \<Rightarrow> RaftNode \<Rightarrow> (RaftNode, RaftNode) call" where
  "sendAll io s = for_each (\<lambda>i. sendAppendEntries (io i) i) [0..<length (peers s)] s"

section \<open>Elections\<close>

text \<open>\<^verbatim>\<open>becomeLeader\<close> behind its guard, up to the messages: role, vectors and the NOOP entry.\<close>

definition take_office :: "RaftNode \<Rightarrow> RaftNode" where
  "take_office s =
     (let last = getLastLogIndex (store s);
          s = s\<lparr>state := LEADER, current_leader_id := node_id s,
                nextIndex := replicate (length (peers s)) (last + 1),
                matchIndex := replicate (length (peers s)) 0, noop_committed := False\<rparr>;
          entry = mk_LogEntry (cur_term s) (logLen (store s) + 1) (mk_Command NOOP [] [])
      in on_store (append_entry entry) s)"

definition becomeLeader :: "(nat \<Rightarrow> rpc_io) \<Rightarrow> RaftNode \<Rightarrow> RaftNode result" where
  "becomeLeader io s = (if state s \<noteq> CANDIDATE then Inr s else uncaught (sendAll io (take_office s)))"

definition make_RequestVote :: "RaftNode \<Rightarrow> RequestVote" where
  "make_RequestVote s =
     \<lparr>rv_term = cur_term s, rv_candidateId = scast (node_id s),
      rv_lastLogIndex = getLastLogIndex (store s), rv_lastLogTerm = getLastLogTerm (store s)\<rparr>"

text \<open>The part of \<^verbatim>\<open>startElection\<close> in front of the message loop, under the lock.\<close>

definition election_begin :: "readings \<Rightarrow> RaftNode \<Rightarrow> RaftNode" where
  "election_begin ev s =
     reset_timer ev 0
       (on_store (setVoted (to_string_cint (node_id s)) \<circ> setTerm (cur_term s + 1))
         (s\<lparr>current_leader_id := 0, state := CANDIDATE\<rparr>))"

text \<open>
  One answer in the message loop: \<open>None\<close> for the vote count when the candidate has stepped down
  and returns.
\<close>

definition election_reply ::
  "readings \<Rightarrow> byte list \<Rightarrow> nat \<Rightarrow> RaftNode \<Rightarrow> (nat option \<times> RaftNode) result" where
  "election_reply ev resp_data votes s =
     (if resp_data \<noteq> [] \<and> hd resp_data = of_char CHR ''W'' then
        bind_result (RequestVoteResponse_deserialize resp_data) (\<lambda>resp.
        if vr_term resp > cur_term s then
          Inr (None, reset_timer ev 1
            ((on_store (setVoted []) ((on_store (setTerm (vr_term resp)) s)\<lparr>state := FOLLOWER\<rparr>))
               \<lparr>current_leader_id := 0\<rparr>))
        else if vr_voteGranted resp then Inr (Some (votes + 1), s)
        else Inr (Some votes, s))
      else Inr (Some votes, s))"

fun election_loop ::
  "readings \<Rightarrow> (nat \<Rightarrow> rpc_io) \<Rightarrow> byte list \<Rightarrow> nat list \<Rightarrow> nat \<Rightarrow> RaftNode \<Rightarrow>
   (nat option \<times> RaftNode) result" where
  "election_loop ev io payload [] votes s = Inr (Some votes, s)"
| "election_loop ev io payload (i # is) votes s =
     (let (resp_data, p) = sendRPC (io i) payload (peers s ! i)
      in bind_result (election_reply ev resp_data votes (s\<lparr>peers := (peers s)[i := p]\<rparr>)) (\<lambda>(v, s).
         case v of None \<Rightarrow> Inr (None, s) | Some votes \<Rightarrow> election_loop ev io payload is votes s))"

text \<open>The part behind the loop, under the lock again.\<close>

definition election_end :: "(nat \<Rightarrow> rpc_io) \<Rightarrow> nat \<Rightarrow> RaftNode \<Rightarrow> RaftNode result" where
  "election_end io votes s =
     (if votes \<ge> majority s \<and> state s = CANDIDATE then becomeLeader io s else Inr s)"

text \<open>\<open>io k i\<close> is what peer \<open>i\<close> does in the vote round (\<open>k = 0\<close>) and in the first round of
  AppendEntries of a new leader (\<open>k = 1\<close>).\<close>

definition startElection :: "readings \<Rightarrow> (nat \<Rightarrow> nat \<Rightarrow> rpc_io) \<Rightarrow> RaftNode \<Rightarrow> RaftNode result" where
  "startElection ev io s =
     (let s = election_begin ev s;
          payload = RequestVote_serialize (make_RequestVote s)
      in bind_result (election_loop ev (io 0) payload [0..<length (peers s)] 1 s) (\<lambda>(v, s).
         case v of None \<Rightarrow> Inr s | Some votes \<Rightarrow> election_end (io 1) votes s))"

text \<open>One round of \<^verbatim>\<open>backgroundLoop\<close> after its 10 ms sleep; the clock is read at \<open>ev 2\<close>.\<close>

definition background_step :: "readings \<Rightarrow> (nat \<Rightarrow> nat \<Rightarrow> rpc_io) \<Rightarrow> RaftNode \<Rightarrow> RaftNode result" where
  "background_step ev io s =
     (let now = fst (ev 2) in
      if state s = LEADER then
        if now - last_heartbeat s \<ge> 100 then uncaught (sendAll (io 0) (s\<lparr>last_heartbeat := now\<rparr>)) else Inr s
      else
        if now - last_heartbeat s \<ge> current_timeout s then startElection ev io s else Inr s)"

text \<open>
  The thread itself: the argument lists what each round reads and receives. The rounds go on
  until the destructor clears \<open>running\<close>.
\<close>

fun backgroundLoop :: "(readings \<times> (nat \<Rightarrow> nat \<Rightarrow> rpc_io)) list \<Rightarrow> RaftNode \<Rightarrow> RaftNode result" where
  "backgroundLoop [] s = Inr s"
| "backgroundLoop ((ev, io) # rounds) s =
     (if \<not> running s then Inr s
      else bind_result (background_step ev io s) (backgroundLoop rounds))"

text \<open>After its 3 second sleep \<^verbatim>\<open>startBackground\<close> reads the clock and starts the thread.\<close>

definition startBackground :: "readings \<Rightarrow> RaftNode \<Rightarrow> RaftNode" where
  "startBackground ev s = s\<lparr>last_heartbeat := fst (ev 0)\<rparr>"

text \<open>The destructor ends the loop and waits for it; then the members go, the store with its descriptor.\<close>

definition RaftNode_destroy :: "RaftNode \<Rightarrow> RaftNode" where
  "RaftNode_destroy s = on_store Storage_destroy (s\<lparr>running := False\<rparr>)"

section \<open>Message handlers\<close>

definition handleRequestVote ::
  "readings \<Rightarrow> RequestVote \<Rightarrow> RaftNode \<Rightarrow> RequestVoteResponse \<times> RaftNode" where
  "handleRequestVote ev rpc s =
     (if rv_term rpc < cur_term s then (\<lparr>vr_term = cur_term s, vr_voteGranted = False\<rparr>, s)
      else
        let s = (if rv_term rpc > cur_term s then
                   reset_timer ev 0
                     ((on_store (setVoted [])
                        ((on_store (setTerm (rv_term rpc)) s)\<lparr>state := FOLLOWER\<rparr>))
                      \<lparr>current_leader_id := 0\<rparr>)
                 else s);
            votedFor = getVoted (store s);
            logOk = (rv_lastLogTerm rpc > getLastLogTerm (store s)
                     \<or> rv_lastLogTerm rpc = getLastLogTerm (store s)
                       \<and> rv_lastLogIndex rpc \<ge> getLastLogIndex (store s))
        in if (votedFor = [] \<or> votedFor = to_string_u64 (rv_candidateId rpc)) \<and> logOk then
             (\<lparr>vr_term = cur_term s, vr_voteGranted = True\<rparr>,
              reset_timer ev 1 (on_store (setVoted (to_string_u64 (rv_candidateId rpc))) s))
           else (\<lparr>vr_term = cur_term s, vr_voteGranted = False\<rparr>, s))"

text \<open>Conflict resolution and appending, the two loops over the received entries.\<close>

definition resolve_conflicts :: "u64 \<Rightarrow> LogEntry list \<Rightarrow> Storage \<Rightarrow> Storage result" where
  "resolve_conflicts start es st =
     for_each (\<lambda>(i, e) s. let idx = start + of_nat i in
       if idx \<le> getLastLogIndex s then
         bind_result (getTermAt idx s) (\<lambda>t. if t \<noteq> le_term e then truncate_log (idx - 1) s else Inr s)
       else Inr s) (enumerate 0 es) st"

definition append_new :: "LogEntry list \<Rightarrow> Storage \<Rightarrow> Storage" where
  "append_new es st = fold (\<lambda>e s. if le_index e > getLastLogIndex s then append_entry e s else s) es st"

text \<open>The log matching check in front of them.\<close>

definition prev_matches :: "AppendEntries \<Rightarrow> Storage \<Rightarrow> bool result" where
  "prev_matches rpc st =
     (if ae_prevLogIndex rpc > 0 then
        if ae_prevLogIndex rpc > getLastLogIndex st then Inr False
        else bind_result (getTermAt (ae_prevLogIndex rpc) st) (\<lambda>t. Inr (t = ae_prevLogTerm rpc))
      else Inr True)"

definition handleAppendEntries ::
  "readings \<Rightarrow> AppendEntries \<Rightarrow> RaftNode \<Rightarrow> (AppendEntriesResponse \<times> RaftNode) result" where
  "handleAppendEntries ev rpc s =
     (if ae_term rpc < cur_term s then Inr (\<lparr>ar_term = cur_term s, ar_success = False\<rparr>, s)
      else
        let s = (if ae_term rpc > cur_term s
                 then on_store (setVoted [] \<circ> setTerm (ae_term rpc)) s else s);
            s = (if ae_term rpc = cur_term s then s\<lparr>state := FOLLOWER\<rparr> else s);
            s = (reset_timer ev 0 s)\<lparr>current_leader_id := ucast (ae_leaderId rpc)\<rparr>
        in bind_result (prev_matches rpc (store s)) (\<lambda>ok.
           if \<not> ok then Inr (\<lparr>ar_term = ae_term rpc, ar_success = False\<rparr>, s)
           else
             bind_result (resolve_conflicts (ae_prevLogIndex rpc + 1) (ae_entries rpc) (store s)) (\<lambda>st.
             let st = append_new (ae_entries rpc) st;
                 st = (if ae_leaderCommit rpc > getCommit st
                       then setCommit (min (ae_leaderCommit rpc) (getLastLogIndex st)) st else st)
             in bind_result (uncaught (applyCommitted (s\<lparr>store := st\<rparr>))) (\<lambda>s.
                Inr (\<lparr>ar_term = ae_term rpc, ar_success = True\<rparr>, s)))))"

section \<open>Client requests\<close>

definition Requestable :: "RaftNode \<Rightarrow> bool" where
  "Requestable s \<longleftrightarrow> length (filter connected (peers s)) \<ge> (length (peers s) + 1) div 2"

text \<open>\<^verbatim>\<open>submit\<close> up to the point where it gives up the lock: its guards and the new entry.\<close>

definition submit_append :: "Command \<Rightarrow> RaftNode \<Rightarrow> (RaftNode, u64 \<times> RaftNode) call" where
  "submit_append cmd s =
     (if state s \<noteq> LEADER then Inl (Runtime_error ''NOT_LEADER'', s)
      else if \<not> Requestable s then Inl (Runtime_error ''NOT_ENOUGH_PEERS'', s)
      else
        let idx = logLen (store s) + 1;
            entry = mk_LogEntry (cur_term s) idx cmd
        in Inr (idx, on_store (append_entry entry) s))"

text \<open>
  \<^verbatim>\<open>submit\<close> up to its wait loop: the index it waits for and the node it leaves behind.
\<close>

definition submit_begin ::
  "(nat \<Rightarrow> rpc_io) \<Rightarrow> Command \<Rightarrow> RaftNode \<Rightarrow> (RaftNode, u64 \<times> RaftNode) call" where
  "submit_begin io cmd s =
     bind_result (submit_append cmd s) (\<lambda>(idx, s).
     bind_result (sendAll io s) (\<lambda>s. Inr (idx, s)))"

text \<open>
  The wait loop \<^verbatim>\<open>while (store.getCommit() < idx)\<close>: \<open>polls\<close> are the states of the node at the
  successive times the loop holds the lock, as the other threads leave them. \<open>None\<close> when none
  of them has the entry committed.
\<close>

fun wait_commit :: "u64 \<Rightarrow> RaftNode list \<Rightarrow> RaftNode option" where
  "wait_commit idx [] = None"
| "wait_commit idx (s # ss) = (if getCommit (store s) < idx then wait_commit idx ss else Some s)"

definition submit ::
  "(nat \<Rightarrow> rpc_io) \<Rightarrow> Command \<Rightarrow> (RaftNode \<Rightarrow> RaftNode list) \<Rightarrow> RaftNode \<Rightarrow>
   (RaftNode, RaftNode option) call" where
  "submit io cmd polls s =
     bind_result (submit_begin io cmd s) (\<lambda>(idx, s).
     case wait_commit idx (s # polls s) of
       None \<Rightarrow> Inr None
     | Some s \<Rightarrow> bind_result (applyCommitted s) (\<lambda>s. Inr (Some s)))"

definition get_append :: "RaftNode \<Rightarrow> (RaftNode, u64 \<times> RaftNode) call" where
  "get_append s =
     (if state s \<noteq> LEADER then Inl (Runtime_error ''NOT_LEADER'', s)
      else
        let idx = logLen (store s) + 1;
            entry = mk_LogEntry (cur_term s) idx (mk_Command NOOP [] [])
        in Inr (idx, on_store (append_entry entry) s))"

definition get_begin :: "(nat \<Rightarrow> rpc_io) \<Rightarrow> RaftNode \<Rightarrow> (RaftNode, u64 \<times> RaftNode) call" where
  "get_begin io s =
     bind_result (get_append s) (\<lambda>(idx, s).
     bind_result (sendAll io s) (\<lambda>s. Inr (idx, s)))"

text \<open>Behind the wait \<^verbatim>\<open>get\<close> checks that it is still the leader; the entry stays in the log either way.\<close>

definition get_end :: "string \<Rightarrow> RaftNode \<Rightarrow> (RaftNode, string) call" where
  "get_end key s =
     (if state s \<noteq> LEADER then Inl (Runtime_error ''NOT_LEADER'', s) else Inr (sm_get key (sm s)))"

definition get_value ::
  "(nat \<Rightarrow> rpc_io) \<Rightarrow> string \<Rightarrow> (RaftNode \<Rightarrow> RaftNode list) \<Rightarrow> RaftNode \<Rightarrow>
   (RaftNode, (string \<times> RaftNode) option) call" where
  "get_value io key polls s =
     bind_result (get_begin io s) (\<lambda>(idx, s).
     case wait_commit idx (s # polls s) of
       None \<Rightarrow> Inr None
     | Some s \<Rightarrow> bind_result (get_end key s) (\<lambda>val. Inr (Some (val, s))))"

definition newline :: string where
  "newline = [char_of (10 :: nat)]"

definition state_name :: "NodeState \<Rightarrow> string" where
  "state_name st = (if st = LEADER then ''LEADER'' else if st = CANDIDATE then ''CANDIDATE'' else ''FOLLOWER'')"

definition getStatus :: "RaftNode \<Rightarrow> string" where
  "getStatus s =
     ''node_id: '' @ to_string_cint (node_id s) @ newline
     @ ''state: '' @ state_name (state s) @ newline
     @ ''term: '' @ to_string_u64 (cur_term s) @ newline
     @ ''log length: '' @ to_string_u64 (logLen (store s)) @ newline
     @ ''commitIndex: '' @ to_string_u64 (getCommit (store s)) @ newline"

definition getLeaderId :: "RaftNode \<Rightarrow> c_int" where
  "getLeaderId s = current_leader_id s"

end
