(* ===== verification/Replication.thy ===== *)
theory Replication
  imports RaftNode
begin

text \<open>
  The follower side of replication. \<open>handleAppendEntries\<close> is shown to be total on well-formed
  messages (no read past the end, no exception), to accept exactly the messages whose preceding
  entry matches, to leave the merged log behind, and to keep the committed prefix and the state
  machine in step as long as the message agrees with what is committed.
\<close>

section \<open>Applying entries\<close>

definition command_of :: "LogEntry \<Rightarrow> Command" where
  "command_of e = (case getCommand e of Inr c \<Rightarrow> c | Inl err \<Rightarrow> Command_default)"

abbreviation run_log :: "LogEntry list \<Rightarrow> StateMachine \<Rightarrow> StateMachine" where
  "run_log es m \<equiv> fold sm_apply (map command_of es) m"

lemma getCommand_good: "\<not> isl (getCommand e) \<Longrightarrow> getCommand e = Inr (command_of e)"
  by (cases "getCommand e") (simp_all add: command_of_def)

lemma apply_entries_good:
  "(\<And>e. e \<in> set es \<Longrightarrow> \<not> isl (getCommand e)) \<Longrightarrow> apply_entries es m = Inr (run_log es m)"
  by (induction es arbitrary: m) (simp_all add: apply_entries_def getCommand_good)

lemma apply_entries_log:
  "log_ok log \<Longrightarrow> set es \<subseteq> set log \<Longrightarrow> apply_entries es m = Inr (run_log es m)"
  by (rule apply_entries_good) (auto dest: log_ok_entries)

text \<open>The entries that become applied when the commit index has moved.\<close>

definition newly_applied :: "Storage \<Rightarrow> LogEntry list" where
  "newly_applied st =
     (if unat (getCommit st) \<le> length (log_of st)
      then drop (unat (getApplied st)) (take (unat (getCommit st)) (log_of st)) else [])"

lemma applyCommitted_eq:
  assumes inv: "store_inv (store s)"
  shows "applyCommitted s = Inr (if getCommit (store s) > getApplied (store s)
    then on_store (setApplied (getCommit (store s))) (s\<lparr>sm := run_log (newly_applied (store s)) (sm s)\<rparr>)
    else s)"
proof (cases "getCommit (store s) > getApplied (store s)")
  case True
  let ?a = "getApplied (store s)" and ?c = "getCommit (store s)"
  have succ: "unat (?a + 1) = Suc (unat ?a)"
    using True by (rule unat_succ_u64)
  have le: "1 \<le> ?a + 1" "?a + 1 \<le> ?c" using True succ by (simp_all add: word_le_nat_alt word_less_nat_alt)
  have "readRange (?a + 1) ?c (store s) = Inr (newly_applied (store s))"
    using le succ by (simp add: readRange_eq [OF inv] newly_applied_def)
  moreover have "log_ok (log_of (store s))" using inv by (simp add: store_inv_def)
  moreover have "set (newly_applied (store s)) \<subseteq> set (log_of (store s))"
    by (auto simp: newly_applied_def dest: in_set_dropD in_set_takeD)
  ultimately show ?thesis using True
    by (simp add: applyCommitted_def Let_def apply_entries_log)
next
  case False
  then show ?thesis by (simp add: applyCommitted_def Let_def)
qed

section \<open>The two loops on the stored log\<close>

lemma resolve_conflicts_frame:
  assumes "resolve_conflicts start es st = Inr st'"
  shows "getTerm st' = getTerm st \<and> getVoted st' = getVoted st \<and> getCommit st' = getCommit st
    \<and> getApplied st' = getApplied st"
  using assms unfolding resolve_conflicts_def
  by (rule for_each_inv)
    (auto simp: Let_def split: if_splits dest!: truncate_log_frame elim!: bind_result_InrE)

lemma append_new_frame:
  "getTerm (append_new es st) = getTerm st \<and> getVoted (append_new es st) = getVoted st
    \<and> getCommit (append_new es st) = getCommit st \<and> getApplied (append_new es st) = getApplied st"
  unfolding append_new_def by (induction es arbitrary: st) simp_all

lemma resolve_conflicts_meta:
  assumes "resolve_conflicts start es st = Inr st'" and "meta_ok st"
  shows "meta_ok st'"
  using assms unfolding resolve_conflicts_def
  by (rule for_each_inv)
    (auto simp: Let_def split: if_splits elim!: bind_result_InrE, erule (1) meta_ok_truncate)

lemma append_new_meta: "meta_ok st \<Longrightarrow> meta_ok (append_new es st)"
  unfolding append_new_def by (induction es arbitrary: st) simp_all

lemma merge_loops:
  assumes "store_inv st" and "chain (unat prev) es" and "unat prev \<le> length (log_of st)"
    and "Suc (unat prev + length es) < 2 ^ 64"
  obtains st1 where "resolve_conflicts (prev + 1) es st = Inr st1"
    and "store_inv (append_new es st1)"
    and "log_of (append_new es st1) = merge_log (log_of st) (unat prev) es"
proof -
  have "prev + 1 = of_nat (Suc (unat prev))" by simp
  from storage.resolve_then_append [OF assms(1) this assms(2-4)] that show ?thesis
    unfolding resolve_conflicts_def append_new_def by blast
qed

section \<open>The handler\<close>

text \<open>
  A message with consecutive indices behind \<^verbatim>\<open>prevLogIndex\<close>, checksummed entries and
  decodable commands; this is what \<open>prepare_AppendEntries\<close> builds.
\<close>

definition append_wf :: "AppendEntries \<Rightarrow> bool" where
  "append_wf m \<longleftrightarrow> chain (unat (ae_prevLogIndex m)) (ae_entries m)
     \<and> Suc (unat (ae_prevLogIndex m) + length (ae_entries m)) < 2 ^ 64"

definition accepts :: "AppendEntries \<Rightarrow> RaftNode \<Rightarrow> bool" where
  "accepts m s \<longleftrightarrow> cur_term s \<le> ae_term m \<and>
     (ae_prevLogIndex m = 0 \<or>
      unat (ae_prevLogIndex m) \<le> length (log_of (store s)) \<and>
      entry_term (log_of (store s)) (unat (ae_prevLogIndex m)) = ae_prevLogTerm m)"

lemma prev_matches_eq:
  assumes inv: "store_inv st"
  shows "prev_matches m st = Inr (ae_prevLogIndex m = 0 \<or>
      unat (ae_prevLogIndex m) \<le> length (log_of st) \<and>
      entry_term (log_of st) (unat (ae_prevLogIndex m)) = ae_prevLogTerm m)"
  using store_inv_length [OF inv]
  by (auto simp: prev_matches_def getTermAt_eq [OF inv] word_less_nat_alt unat_gt_0)

text \<open>The node after the checks on the term, before anything happens to its log.\<close>

definition follow :: "readings \<Rightarrow> AppendEntries \<Rightarrow> RaftNode \<Rightarrow> RaftNode" where
  "follow ev m s =
     (let s = (if ae_term m > cur_term s then on_store (setVoted [] \<circ> setTerm (ae_term m)) s else s);
          s = (if ae_term m = cur_term s then s\<lparr>state := FOLLOWER\<rparr> else s)
      in (reset_timer ev 0 s)\<lparr>current_leader_id := ucast (ae_leaderId m)\<rparr>)"

lemma follow_store_inv:
  assumes "store_inv (store s)"
  shows "store_inv (store (follow ev m s)) \<and> log_of (store (follow ev m s)) = log_of (store s)"
  using assms store_inv_setTerm [OF assms, of "ae_term m"]
    store_inv_setVoted [of "setTerm (ae_term m) (store s)" "[]"]
  by (auto simp: follow_def reset_timer_def Let_def)

lemma follow_sel:
  assumes "cur_term s \<le> ae_term m"
  shows "cur_term (follow ev m s) = ae_term m" "state (follow ev m s) = FOLLOWER"
    "getCommit (store (follow ev m s)) = getCommit (store s)"
    "getApplied (store (follow ev m s)) = getApplied (store s)"
    "sm (follow ev m s) = sm s" "peers (follow ev m s) = peers s" "node_id (follow ev m s) = node_id s"
    "nextIndex (follow ev m s) = nextIndex s" "matchIndex (follow ev m s) = matchIndex s"
    "getVoted (store (follow ev m s)) = (if cur_term s < ae_term m then [] else getVoted (store s))"
  using assms by (auto simp: follow_def reset_timer_def Let_def)

text \<open>The commit index a message leaves behind.\<close>

definition commit_after :: "AppendEntries \<Rightarrow> Storage \<Rightarrow> Storage" where
  "commit_after m st =
     (if ae_leaderCommit m > getCommit st
      then setCommit (min (ae_leaderCommit m) (getLastLogIndex st)) st else st)"

lemma handleAppendEntries_unfold:
  assumes "cur_term s \<le> ae_term m"
  shows "handleAppendEntries ev m s =
    bind_result (prev_matches m (store (follow ev m s))) (\<lambda>ok.
      if \<not> ok then Inr (\<lparr>ar_term = ae_term m, ar_success = False\<rparr>, follow ev m s)
      else bind_result (resolve_conflicts (ae_prevLogIndex m + 1) (ae_entries m) (store (follow ev m s)))
        (\<lambda>st. bind_result (uncaught (applyCommitted
            ((follow ev m s)\<lparr>store := commit_after m (append_new (ae_entries m) st)\<rparr>)))
          (\<lambda>s. Inr (\<lparr>ar_term = ae_term m, ar_success = True\<rparr>, s))))"
proof -
  have "(ae_term m < cur_term s) = False" using assms by simp
  then show ?thesis
    unfolding handleAppendEntries_def follow_def commit_after_def Let_def by (simp only: if_False)
qed

text \<open>Everything the handler leaves behind, in terms of the abstract log.\<close>

lemma handleAppendEntries_accept:
  assumes inv: "store_inv (store s)" and wf: "append_wf m" and acc: "accepts m s"
  defines "log' \<equiv> merge_log (log_of (store s)) (unat (ae_prevLogIndex m)) (ae_entries m)"
  defines "c \<equiv> getCommit (store s)" and "a \<equiv> getApplied (store s)"
  defines "c' \<equiv> (if ae_leaderCommit m > c then min (ae_leaderCommit m) (of_nat (length log')) else c)"
  obtains s' where "handleAppendEntries ev m s = Inr (\<lparr>ar_term = ae_term m, ar_success = True\<rparr>, s')"
    and "store_inv (store s')" and "log_of (store s') = log'"
    and "getCommit (store s') = c'" and "getApplied (store s') = (if c' > a then c' else a)"
    and "sm s' = (if c' > a \<and> unat c' \<le> length log' then run_log (drop (unat a) (take (unat c') log')) (sm s) else sm s)"
    and "cur_term s' = ae_term m" and "state s' = FOLLOWER" and "node_id s' = node_id s"
    and "peers s' = peers s" and "nextIndex s' = nextIndex s" and "matchIndex s' = matchIndex s"
    and "getVoted (store s') = (if cur_term s < ae_term m then [] else getVoted (store s))"
proof -
  let ?f = "follow ev m s" and ?p = "unat (ae_prevLogIndex m)" and ?es = "ae_entries m"
  have t: "cur_term s \<le> ae_term m" using acc by (simp add: accepts_def)
  have f: "store_inv (store ?f)" "log_of (store ?f) = log_of (store s)"
    using follow_store_inv [OF inv] by auto
  have prev: "prev_matches m (store ?f) = Inr True"
    using acc by (simp add: prev_matches_eq [OF f(1)] f(2) accepts_def)
  have p: "?p \<le> length (log_of (store ?f))" using acc by (auto simp: accepts_def f(2))
  obtain st1 where st1: "resolve_conflicts (ae_prevLogIndex m + 1) ?es (store ?f) = Inr st1"
    and st2: "store_inv (append_new ?es st1)" "log_of (append_new ?es st1) = log'"
    using merge_loops [OF f(1) _ p] wf unfolding append_wf_def log'_def f(2) by blast
  let ?st = "commit_after m (append_new ?es st1)"
  have frame: "getCommit (append_new ?es st1) = c" "getApplied (append_new ?es st1) = a"
    "getTerm (append_new ?es st1) = ae_term m" "getVoted (append_new ?es st1) = getVoted (store ?f)"
    using resolve_conflicts_frame [OF st1] append_new_frame [of ?es st1] follow_sel [OF t]
    by (simp_all add: c_def a_def)
  have len: "getLastLogIndex (append_new ?es st1) = of_nat (length log')"
    using st2 by (simp add: store_inv_def)
  have st: "store_inv ?st" "log_of ?st = log'" "getCommit ?st = c'" "getApplied ?st = a"
    "getTerm ?st = ae_term m" "getVoted ?st = getVoted (store ?f)"
    using st2 frame len by (simp_all add: commit_after_def c'_def)
  let ?s = "?f\<lparr>store := ?st\<rparr>"
  have ap: "applyCommitted ?s = Inr (if getCommit ?st > getApplied ?st
      then on_store (setApplied (getCommit ?st)) (?s\<lparr>sm := run_log (newly_applied ?st) (sm ?s)\<rparr>) else ?s)"
    using applyCommitted_eq [of ?s] st(1) by simp
  show ?thesis
  proof (rule that)
    show "handleAppendEntries ev m s = Inr (\<lparr>ar_term = ae_term m, ar_success = True\<rparr>,
        if getCommit ?st > getApplied ?st
        then on_store (setApplied (getCommit ?st)) (?s\<lparr>sm := run_log (newly_applied ?st) (sm ?s)\<rparr>) else ?s)"
      by (simp add: handleAppendEntries_unfold [OF t] prev st1 ap)
  qed (use st follow_sel [OF t] in \<open>simp_all add: newly_applied_def\<close>)
qed

text \<open>The same for a given run of the handler.\<close>

lemma handleAppendEntries_acceptD:
  assumes "store_inv (store s)" and "append_wf m" and "accepts m s"
    and call: "handleAppendEntries ev m s = Inr (r, s')"
  shows "ar_success r" and "store_inv (store s')"
    and "log_of (store s') = merge_log (log_of (store s)) (unat (ae_prevLogIndex m)) (ae_entries m)"
    and "getCommit (store s') = (if ae_leaderCommit m > getCommit (store s)
      then min (ae_leaderCommit m) (of_nat (length (log_of (store s')))) else getCommit (store s))"
    and "getApplied (store s') = (if getCommit (store s') > getApplied (store s)
      then getCommit (store s') else getApplied (store s))"
    and "sm s' = (if getCommit (store s') > getApplied (store s) \<and> unat (getCommit (store s')) \<le> length (log_of (store s'))
      then run_log (drop (unat (getApplied (store s))) (take (unat (getCommit (store s'))) (log_of (store s')))) (sm s)
      else sm s)"
proof -
  let ?log' = "merge_log (log_of (store s)) (unat (ae_prevLogIndex m)) (ae_entries m)"
  let ?c = "getCommit (store s)" and ?a = "getApplied (store s)"
  let ?c' = "if ae_leaderCommit m > ?c then min (ae_leaderCommit m) (of_nat (length ?log')) else ?c"
  obtain t where t: "handleAppendEntries ev m s = Inr (\<lparr>ar_term = ae_term m, ar_success = True\<rparr>, t)"
    "store_inv (store t)" "log_of (store t) = ?log'" "getCommit (store t) = ?c'"
    "getApplied (store t) = (if ?c' > ?a then ?c' else ?a)"
    "sm t = (if ?c' > ?a \<and> unat ?c' \<le> length ?log' then run_log (drop (unat ?a) (take (unat ?c') ?log')) (sm s) else sm s)"
    by (rule handleAppendEntries_accept [OF assms(1-3), of ev])
  from t(1) call have eq: "s' = t" "r = \<lparr>ar_term = ae_term m, ar_success = True\<rparr>" by simp_all
  show "ar_success r" "store_inv (store s')" "log_of (store s') = ?log'" using eq t(2,3) by simp_all
  show "getCommit (store s') = (if ae_leaderCommit m > getCommit (store s)
      then min (ae_leaderCommit m) (of_nat (length (log_of (store s')))) else getCommit (store s))"
    unfolding eq t(3,4) ..
  show "getApplied (store s') = (if getCommit (store s') > getApplied (store s)
      then getCommit (store s') else getApplied (store s))"
    unfolding eq t(4,5) ..
  show "sm s' = (if getCommit (store s') > getApplied (store s) \<and> unat (getCommit (store s')) \<le> length (log_of (store s'))
      then run_log (drop (unat (getApplied (store s))) (take (unat (getCommit (store s'))) (log_of (store s')))) (sm s)
      else sm s)"
    unfolding eq t(3,4,6) ..
qed

lemma handleAppendEntries_reject:
  assumes inv: "store_inv (store s)" and rej: "\<not> accepts m s"
  shows "handleAppendEntries ev m s =
    Inr (\<lparr>ar_term = max (cur_term s) (ae_term m), ar_success = False\<rparr>,
      if ae_term m < cur_term s then s else follow ev m s)"
proof (cases "ae_term m < cur_term s")
  case True
  then show ?thesis by (auto simp: handleAppendEntries_def max_def)
next
  case False
  then have t: "cur_term s \<le> ae_term m" by simp
  have f: "store_inv (store (follow ev m s))" "log_of (store (follow ev m s)) = log_of (store s)"
    using follow_store_inv [OF inv] by auto
  have "prev_matches m (store (follow ev m s)) = Inr False"
    using rej t by (simp add: prev_matches_eq [OF f(1)] f(2) accepts_def)
  with t show ?thesis
    by (simp add: handleAppendEntries_unfold [OF t] max_def not_less)
qed

section \<open>The committed prefix\<close>

text \<open>
  Applied entries are committed, committed entries are in the log, and the state machine is the
  result of the applied entries, in order, from the empty store.
\<close>

definition committed_ok :: "RaftNode \<Rightarrow> bool" where
  "committed_ok s \<longleftrightarrow>
     getApplied (store s) \<le> getCommit (store s) \<and>
     unat (getCommit (store s)) \<le> length (log_of (store s)) \<and>
     sm s = run_log (take (unat (getApplied (store s))) (log_of (store s))) StateMachine_init"

text \<open>A message that does not contradict what the node has committed.\<close>

definition compatible :: "AppendEntries \<Rightarrow> RaftNode \<Rightarrow> bool" where
  "compatible m s \<longleftrightarrow>
     agrees (take (unat (getCommit (store s))) (log_of (store s))) (unat (ae_prevLogIndex m)) (ae_entries m)"

lemma cut_log_keeps:
  "agrees (take c log) p es \<Longrightarrow> c \<le> length log \<Longrightarrow> take c (cut_log log p es) = take c log"
proof (induction log p es rule: cut_log.induct)
  case (2 log p e es)
  show ?case
  proof (cases "p < length log \<and> le_term (log ! p) \<noteq> le_term e")
    case True
    with "2.prems" have "c \<le> p" by (auto simp: agrees_Cons)
    with True show ?thesis by (simp add: min_def)
  next
    case False
    with 2 show ?thesis by (auto simp: agrees_Cons)
  qed
qed simp

lemma merge_log_keeps:
  assumes "agrees (take c log) p es" and "c \<le> length log" and "p \<le> length log"
  shows "take c (merge_log log p es) = take c log \<and> c \<le> length (merge_log log p es)"
proof -
  have t: "take c (cut_log log p es) = take c log" using cut_log_keeps assms by blast
  then have "c \<le> length (cut_log log p es)"
    by (metis assms(2) length_take min.absorb2 min.cobounded1)
  with t show ?thesis using assms(3) by (simp add: merge_log_cut)
qed

lemma run_log_split:
  assumes "take a l' = take a l" and "a \<le> c" and "c \<le> length l'"
  shows "run_log (drop a (take c l')) (run_log (take a l) m) = run_log (take c l') m"
proof -
  have "take c l' = take a l @ drop a (take c l')"
    using assms by (metis append_take_drop_id min_absorb1 take_take)
  then show ?thesis by (metis comp_apply fold_append map_append)
qed

lemma raise_within:
  "c \<le> n \<Longrightarrow> c' = (if l > c then min l n else c) \<Longrightarrow> c \<le> c' \<and> c' \<le> n" for c n l c' :: u64
  by (auto simp: min_def)

text \<open>The commit index moves within the log and the new entries are applied.\<close>

lemma committed_ok_advance:
  assumes ok: "committed_ok s" and c: "getCommit (store s) \<le> getCommit (store s')"
    and len: "unat (getCommit (store s')) \<le> length (log_of (store s'))"
    and keep: "take (unat (getCommit (store s))) (log_of (store s')) =
      take (unat (getCommit (store s))) (log_of (store s))"
    and a': "getApplied (store s') = (if getCommit (store s') > getApplied (store s)
      then getCommit (store s') else getApplied (store s))"
    and m: "sm s' = (if getCommit (store s') > getApplied (store s) \<and> unat (getCommit (store s')) \<le> length (log_of (store s'))
      then run_log (drop (unat (getApplied (store s))) (take (unat (getCommit (store s'))) (log_of (store s')))) (sm s)
      else sm s)"
  shows "committed_ok s'"
proof -
  let ?log' = "log_of (store s')" and ?c' = "getCommit (store s')" and ?a = "getApplied (store s)"
  have "unat ?a \<le> unat (getCommit (store s))" using ok by (simp add: committed_ok_def word_le_nat_alt)
  with keep have ka: "take (unat ?a) ?log' = take (unat ?a) (log_of (store s))" by (rule take_eq_shorter)
  have "sm s' = run_log (take (unat (getApplied (store s'))) ?log') StateMachine_init"
  proof (cases "?c' > ?a")
    case True
    then have "sm s' = run_log (drop (unat ?a) (take (unat ?c') ?log')) (sm s)" using m len by simp
    also have "\<dots> = run_log (take (unat ?c') ?log') StateMachine_init"
      using True ok len run_log_split [OF ka, of "unat ?c'" StateMachine_init]
      by (simp add: committed_ok_def word_less_nat_alt)
    finally show ?thesis using True a' by simp
  next
    case False
    with a' m ok ka show ?thesis by (simp add: committed_ok_def)
  qed
  moreover have "?a \<le> getCommit (store s)" using ok by (simp add: committed_ok_def)
  with a' c have "getApplied (store s') \<le> ?c'" by auto
  ultimately show ?thesis using len by (simp add: committed_ok_def)
qed

lemma committed_ok_follow:
  assumes "store_inv (store s)" and "committed_ok s" and "cur_term s \<le> ae_term m"
  shows "committed_ok (follow ev m s)"
  using assms follow_store_inv [OF assms(1), of ev m] follow_sel [OF assms(3), of ev]
  by (simp add: committed_ok_def)

lemma committed_ok_append:
  assumes inv: "store_inv (store s)" and ok: "committed_ok s" and wf: "append_wf m"
    and comp: "compatible m s" and call: "handleAppendEntries ev m s = Inr (r, s')"
  shows "committed_ok s' \<and> getCommit (store s) \<le> getCommit (store s') \<and>
    take (unat (getCommit (store s))) (log_of (store s')) = take (unat (getCommit (store s))) (log_of (store s))"
proof (cases "accepts m s")
  case False
  from handleAppendEntries_reject [OF inv False, of ev] call
  have "s' = (if ae_term m < cur_term s then s else follow ev m s)" by simp
  then consider "s' = s" | "s' = follow ev m s" "cur_term s \<le> ae_term m" by (cases "ae_term m < cur_term s") auto
  then show ?thesis
    by cases (use ok committed_ok_follow [OF inv ok] follow_store_inv [OF inv] follow_sel(3) in simp_all)
next
  case True
  let ?log = "log_of (store s)" and ?log' = "log_of (store s')" and ?c = "getCommit (store s)"
  note s' = handleAppendEntries_acceptD(2-6) [OF inv wf True call]
  have "unat (ae_prevLogIndex m) \<le> length ?log" using True by (auto simp: accepts_def)
  then have keep: "take (unat ?c) ?log' = take (unat ?c) ?log" "unat ?c \<le> length ?log'"
    using merge_log_keeps [of "unat ?c" ?log "unat (ae_prevLogIndex m)" "ae_entries m"] comp ok
    by (simp_all add: compatible_def committed_ok_def s'(2))
  define n :: u64 where "n = of_nat (length ?log')"
  have n: "unat n = length ?log'"
    using s'(1) by (simp add: n_def store_inv_def log_ok_def unat_of_nat_u64)
  with keep(2) have "?c \<le> n" by (simp add: word_le_nat_alt)
  moreover have "getCommit (store s') = (if ae_leaderCommit m > ?c then min (ae_leaderCommit m) n else ?c)"
    using s'(3) by (simp only: n_def)
  ultimately have "?c \<le> getCommit (store s') \<and> getCommit (store s') \<le> n" by (rule raise_within)
  then have c': "?c \<le> getCommit (store s')" "unat (getCommit (store s')) \<le> length ?log'"
    using n by (simp_all add: word_le_nat_alt)
  from committed_ok_advance [OF ok c' keep(1) s'(4,5)] c' keep show ?thesis by simp
qed

end
