(* ===== verification/Leadership.thy ===== *)
theory Leadership
  imports Replication
begin

text \<open>
  The leader side of replication: the messages \<open>prepare_AppendEntries\<close> builds are well formed and
  carry the suffix of the leader's log that the follower is missing; \<open>advanceCommitIndex\<close> moves
  the commit index to the largest index of the current term that a majority is known to hold;
  and no operation of the leader on a well-formed node reads past the end of a vector.
\<close>

section \<open>Well-formed nodes\<close>

definition node_ok :: "RaftNode \<Rightarrow> bool" where
  "node_ok s \<longleftrightarrow> store_inv (store s)
     \<and> length (matchIndex s) = length (nextIndex s)
     \<and> (nextIndex s = [] \<or> length (nextIndex s) = length (peers s))
     \<and> (state s = LEADER \<longrightarrow> length (nextIndex s) = length (peers s))
     \<and> 0 \<notin> set (nextIndex s) \<and> - 1 \<notin> set (matchIndex s)"

lemma node_ok_store: "node_ok s \<Longrightarrow> store_inv (store s)"
  by (simp add: node_ok_def)

text \<open>Operations that only touch the store, timers or the state keep the vectors.\<close>

lemma node_ok_cong:
  assumes "node_ok s" and "store_inv (store s')" and "nextIndex s' = nextIndex s"
    and "matchIndex s' = matchIndex s" and "length (peers s') = length (peers s)"
    and "state s' = LEADER \<Longrightarrow> state s = LEADER"
  shows "node_ok s'"
  using assms unfolding node_ok_def by (cases "state s' = LEADER") simp_all

section \<open>The message for one follower\<close>

lemma unat_pred_u64: "n \<noteq> 0 \<Longrightarrow> unat (n - 1) = unat n - 1" for n :: u64
  by (simp add: unat_minus_one)

lemma prepare_AppendEntries_eq:
  assumes inv: "store_inv (store s)" and i: "i < length (peers s)" "i < length (nextIndex s)"
    and nz: "nextIndex s ! i \<noteq> 0"
  shows "prepare_AppendEntries i s = Inr
    \<lparr>ae_term = cur_term s, ae_leaderId = scast (node_id s), ae_prevLogIndex = nextIndex s ! i - 1,
     ae_prevLogTerm = entry_term (log_of (store s)) (unat (nextIndex s ! i - 1)),
     ae_leaderCommit = getCommit (store s),
     ae_entries = drop (unat (nextIndex s ! i - 1)) (log_of (store s))\<rparr>"
proof -
  let ?n = "nextIndex s ! i"
  have "(if ?n - 1 = 0 then Inr 0 else getTermAt (?n - 1) (store s)) =
      Inr (entry_term (log_of (store s)) (unat (?n - 1)))"
    by (simp add: getTermAt_eq [OF inv] entry_term_def)
  moreover have "(if ?n \<le> getLastLogIndex (store s) then readFrom ?n (store s) else Inr []) =
      Inr (drop (unat (?n - 1)) (log_of (store s)))"
    using nz store_inv_length [OF inv]
    by (auto simp: readFrom_eq [OF inv] unat_pred_u64 word_le_nat_alt)
  ultimately show ?thesis using i by (simp add: prepare_AppendEntries_def Let_def)
qed

lemma Suc_unat_bound: "x + 1 \<noteq> 0 \<Longrightarrow> Suc (unat x) < 2 ^ 64" for x :: u64
proof -
  assume "x + 1 \<noteq> 0"
  then have "unat (1 + x) = Suc (unat x)" by (intro unatSuc) (simp only: add.commute not_False_eq_True)
  moreover have "unat (1 + x) < 2 ^ LENGTH(64)" by (rule unsigned_less)
  ultimately show ?thesis by simp
qed

lemma append_wf_suffix:
  assumes ok: "log_ok log" and m: "ae_entries m = drop (unat (ae_prevLogIndex m)) log"
    and prev: "ae_prevLogIndex m + 1 \<noteq> 0"
  shows "append_wf m"
proof (cases "unat (ae_prevLogIndex m) \<le> length log")
  case True
  with ok have "chain (0 + unat (ae_prevLogIndex m)) (ae_entries m)"
    unfolding m log_ok_def by (intro chain_drop) simp_all
  with True ok m show ?thesis by (simp add: append_wf_def log_ok_def)
next
  case False
  then have "ae_entries m = []" using m by simp
  moreover have "Suc (unat (ae_prevLogIndex m)) < 2 ^ 64"
    using prev by (rule Suc_unat_bound)
  ultimately show ?thesis by (simp add: append_wf_def)
qed

section \<open>Committing\<close>

text \<open>The nodes known to hold the entry at \<open>idx\<close>, the leader counted.\<close>

definition holders :: "u64 \<Rightarrow> RaftNode \<Rightarrow> nat" where
  "holders idx s =
     1 + length (filter (\<lambda>j. connected (peers s ! j) \<and> matchIndex s ! j \<ge> idx) [0..<length (peers s)])"

definition committable :: "RaftNode \<Rightarrow> u64 \<Rightarrow> bool" where
  "committable s idx \<longleftrightarrow>
     entry_term (log_of (store s)) (unat idx) = cur_term s \<and> holders idx s \<ge> majority s"

lemma match_count_eq:
  "length (matchIndex s) = length (peers s) \<Longrightarrow> match_count idx s = Inr (holders idx s)"
  by (auto simp: match_count_def holders_def list_ex_iff)

lemma length_filter_mono:
  "(\<And>x. x \<in> set xs \<Longrightarrow> P x \<Longrightarrow> Q x) \<Longrightarrow> length (filter P xs) \<le> length (filter Q xs)"
  by (induction xs) (auto intro: le_SucI)

lemma holders_antimono: "x \<le> y \<Longrightarrow> holders y s \<le> holders x s"
  unfolding holders_def by (intro add_left_mono length_filter_mono) auto

lemma commit_scan_spec:
  assumes inv: "store_inv (store s)" and len: "length (matchIndex s) = length (peers s)"
  shows "sorted_wrt (<) idxs \<Longrightarrow> (\<forall>x \<in> set idxs. nc < x) \<Longrightarrow>
    \<exists>r. commit_scan s idxs nc = Inr r \<and> (r = nc \<or> r \<in> set idxs \<and> committable s r) \<and> nc \<le> r
      \<and> (\<forall>x \<in> set idxs. committable s x \<longrightarrow> x \<le> r)"
proof (induction idxs arbitrary: nc)
  case (Cons i js)
  note step = getTermAt_eq [OF inv] match_count_eq [OF len]
  consider "entry_term (log_of (store s)) (unat i) \<noteq> cur_term s"
    | "committable s i"
    | "entry_term (log_of (store s)) (unat i) = cur_term s" "holders i s < majority s"
    unfolding committable_def by linarith
  then show ?case
  proof cases
    case 1
    with Cons.IH [of nc] Cons.prems obtain r where
      "commit_scan s js nc = Inr r" "r = nc \<or> r \<in> set js \<and> committable s r" "nc \<le> r"
      "\<forall>x \<in> set js. committable s x \<longrightarrow> x \<le> r" by auto
    with 1 show ?thesis by (auto simp: step committable_def)
  next
    case 2
    with Cons.IH [of i] Cons.prems obtain r where
      "commit_scan s js i = Inr r" "r = i \<or> r \<in> set js \<and> committable s r" "i \<le> r"
      "\<forall>x \<in> set js. committable s x \<longrightarrow> x \<le> r" by auto
    with 2 Cons.prems show ?thesis by (auto simp: step committable_def majority_def)
  next
    case 3
    have "\<not> committable s x" if "x \<in> set (i # js)" for x
    proof -
      from that Cons.prems(1) have "i \<le> x" by (auto intro: less_imp_le)
      from holders_antimono [OF this, of s] 3 show ?thesis by (simp add: committable_def)
    qed
    with 3 show ?thesis by (auto simp: step majority_def)
  qed
qed simp

lemma index_range:
  fixes lo hi :: u64
  defines "idxs \<equiv> map of_nat [unat (lo + 1) ..< unat hi + 1] :: u64 list"
  assumes lo: "lo + 1 \<noteq> 0"
  shows "sorted_wrt (<) idxs" and "set idxs = {x. lo < x \<and> x \<le> hi}"
proof -
  have bound: "unat (of_nat n :: u64) = n" if "n < unat hi + 1" for n
    using that unsigned_less [of hi, where 'a = nat] by (intro unat_of_nat_u64) simp
  have lo1: "unat (lo + 1) = Suc (unat lo)"
    using lo unatSuc [of lo] by (simp add: add.commute)
  show "sorted_wrt (<) idxs"
    unfolding idxs_def sorted_wrt_map
    by (rule sorted_wrt_mono_rel [OF _ sorted_wrt_upt]) (auto simp: word_less_nat_alt bound)
  show "set idxs = {x. lo < x \<and> x \<le> hi}"
  proof (intro set_eqI iffI)
    fix x assume "x \<in> set idxs"
    then obtain n where "x = of_nat n" "Suc (unat lo) \<le> n" "n < unat hi + 1"
      unfolding idxs_def lo1 by auto
    then show "x \<in> {x. lo < x \<and> x \<le> hi}" by (simp add: word_less_nat_alt word_le_nat_alt bound)
  next
    fix x assume "x \<in> {x. lo < x \<and> x \<le> hi}"
    then have "unat x \<in> set [unat (lo + 1) ..< unat hi + 1]"
      unfolding lo1 by (auto simp: word_less_nat_alt word_le_nat_alt)
    moreover have "x = of_nat (unat x)" by simp
    ultimately show "x \<in> set idxs" unfolding idxs_def set_map by (rule image_eqI [rotated])
  qed
qed

lemma commit_scan_total:
  assumes "store_inv (store s)" and "length (matchIndex s) = length (peers s)"
  shows "\<exists>r. commit_scan s idxs nc = Inr r"
  by (induction idxs arbitrary: nc)
    (simp_all add: getTermAt_eq [OF assms(1)] match_count_eq [OF assms(2)])

text \<open>The index the leader may commit up to: the largest committable one, if there is any.\<close>

definition commit_target :: "RaftNode \<Rightarrow> u64 \<Rightarrow> bool" where
  "commit_target s c \<longleftrightarrow>
     (c = getCommit (store s) \<or>
      getCommit (store s) < c \<and> c \<le> getLastLogIndex (store s) \<and> committable s c) \<and>
     (\<forall>x. getCommit (store s) < x \<longrightarrow> x \<le> getLastLogIndex (store s) \<longrightarrow> committable s x \<longrightarrow> x \<le> c)"

lemma advanceCommitIndex_eq:
  assumes inv: "store_inv (store s)" and len: "length (matchIndex s) = length (peers s)"
  obtains c where "commit_target s c" and "advanceCommitIndex s =
    Inr (if c > getCommit (store s)
      then let s = on_store (setCommit c) s in
        if c > getApplied (store s)
        then on_store (setApplied c) (s\<lparr>sm := run_log (newly_applied (store s)) (sm s)\<rparr>) else s
      else s)"
proof (cases "getCommit (store s) + 1 = 0")
  case True
  then have max: "getCommit (store s) = - 1" by (simp add: add_eq_0_iff2)
  then have no: "\<not> getCommit (store s) < x" for x by (simp add: not_less word_n1_ge)
  obtain r where "commit_scan s (map of_nat [unat (getCommit (store s) + 1)
      ..< unat (getLastLogIndex (store s)) + 1]) (getCommit (store s)) = Inr r"
    using commit_scan_total [OF inv len] by blast
  with no show ?thesis
    by (intro that [of "getCommit (store s)"]) (simp_all add: commit_target_def advanceCommitIndex_def Let_def)
next
  case False
  let ?c = "getCommit (store s)" and ?l = "getLastLogIndex (store s)"
  let ?idxs = "map of_nat [unat (?c + 1) ..< unat ?l + 1] :: u64 list"
  obtain r where r: "commit_scan s ?idxs ?c = Inr r" "r = ?c \<or> r \<in> set ?idxs \<and> committable s r"
    "\<forall>x \<in> set ?idxs. committable s x \<longrightarrow> x \<le> r"
    using commit_scan_spec [OF inv len index_range(1) [OF False, of ?l], of ?c]
    unfolding index_range(2) [OF False] by auto
  then have "commit_target s r" unfolding index_range(2) [OF False] commit_target_def by auto
  moreover have "applyCommitted (on_store (setCommit r) s) = Inr (let s = on_store (setCommit r) s in
        if r > getApplied (store s)
        then on_store (setApplied r) (s\<lparr>sm := run_log (newly_applied (store s)) (sm s)\<rparr>) else s)"
    using inv by (subst applyCommitted_eq) (simp_all add: Let_def)
  ultimately show ?thesis using that [of r] r(1) by (simp add: advanceCommitIndex_def Let_def)
qed

lemma advanceCommitIndex_total:
  "store_inv (store s) \<Longrightarrow> length (matchIndex s) = length (peers s) \<Longrightarrow> \<exists>s'. advanceCommitIndex s = Inr s'"
  by (rule advanceCommitIndex_eq) blast+

lemma applyCommitted_frame:
  assumes "applyCommitted s = Inr s'"
  shows "log_of (store s') = log_of (store s) \<and> cur_term s' = cur_term s
    \<and> getVoted (store s') = getVoted (store s) \<and> getCommit (store s') = getCommit (store s)
    \<and> store_inv (store s') = store_inv (store s)
    \<and> state s' = state s \<and> node_id s' = node_id s \<and> peers s' = peers s
    \<and> nextIndex s' = nextIndex s \<and> matchIndex s' = matchIndex s
    \<and> getLastLogIndex (store s') = getLastLogIndex (store s)"
  using assms by (auto simp: applyCommitted_def Let_def split: if_splits elim!: bind_result_InrE)

lemma committed_ok_applyCommitted:
  assumes inv: "store_inv (store s)" and ok: "committed_ok s"
  shows "\<exists>s'. applyCommitted s = Inr s' \<and> committed_ok s' \<and> getApplied (store s') = getCommit (store s)
    \<and> log_of (store s') = log_of (store s)"
proof (cases "getCommit (store s) > getApplied (store s)")
  case True
  let ?s = "on_store (setApplied (getCommit (store s))) (s\<lparr>sm := run_log (newly_applied (store s)) (sm s)\<rparr>)"
  have "committed_ok ?s"
    by (rule committed_ok_advance [OF ok]) (use ok True in \<open>simp_all add: committed_ok_def newly_applied_def\<close>)
  with True show ?thesis by (simp add: applyCommitted_eq [OF inv])
next
  case False
  with ok have "getApplied (store s) = getCommit (store s)" by (simp add: committed_ok_def)
  with False ok show ?thesis by (simp add: applyCommitted_eq [OF inv])
qed

lemma applyCommitted_meta: "applyCommitted s = Inr s' \<Longrightarrow> meta_ok (store s') = meta_ok (store s)"
  by (auto simp: applyCommitted_def Let_def split: if_splits elim!: bind_result_InrE)

lemma advanceCommitIndex_meta: "advanceCommitIndex s = Inr s' \<Longrightarrow> meta_ok (store s') = meta_ok (store s)"
  by (auto simp: advanceCommitIndex_def Let_def split: if_splits
      elim!: bind_result_InrE dest!: applyCommitted_meta)

lemma advanceCommitIndex_frame:
  assumes "advanceCommitIndex s = Inr s'"
  shows "log_of (store s') = log_of (store s) \<and> cur_term s' = cur_term s
    \<and> getVoted (store s') = getVoted (store s) \<and> store_inv (store s') = store_inv (store s)
    \<and> state s' = state s \<and> node_id s' = node_id s \<and> peers s' = peers s
    \<and> nextIndex s' = nextIndex s \<and> matchIndex s' = matchIndex s
    \<and> getLastLogIndex (store s') = getLastLogIndex (store s)"
  using assms
  by (auto simp: advanceCommitIndex_def Let_def split: if_splits
      elim!: bind_result_InrE dest!: applyCommitted_frame)

lemma advanceCommitIndex_committed:
  assumes inv: "store_inv (store s)" and len: "length (matchIndex s) = length (peers s)"
    and ok: "committed_ok s"
  obtains s' where "advanceCommitIndex s = Inr s'" and "committed_ok s'"
    and "commit_target s (getCommit (store s'))"
proof -
  obtain c where c: "commit_target s c" and eq: "advanceCommitIndex s =
    Inr (if c > getCommit (store s)
      then let s = on_store (setCommit c) s in
        if c > getApplied (store s)
        then on_store (setApplied c) (s\<lparr>sm := run_log (newly_applied (store s)) (sm s)\<rparr>) else s
      else s)"
    by (rule advanceCommitIndex_eq [OF inv len])
  show ?thesis
  proof (cases "c > getCommit (store s)")
    case False
    with c have "c = getCommit (store s)" by (auto simp: commit_target_def)
    with False eq c ok show ?thesis by (intro that [of s]) simp_all
  next
    case True
    let ?s = "s\<lparr>store := setApplied c (setCommit c (store s)),
      sm := run_log (newly_applied (setCommit c (store s))) (sm s)\<rparr>"
    have a: "getApplied (store s) < c" using ok True by (auto simp: committed_ok_def)
    have c_le: "unat c \<le> length (log_of (store s))"
      using c True store_inv_length [OF inv] by (auto simp: commit_target_def word_le_nat_alt)
    have "committed_ok ?s"
      by (rule committed_ok_advance [OF ok]) (use True a c_le in \<open>simp_all add: newly_applied_def\<close>)
    moreover have "advanceCommitIndex s = Inr ?s" using eq True a by (simp add: Let_def)
    ultimately show ?thesis using c by (intro that [of ?s]) simp_all
  qed
qed

section \<open>No undefined behaviour on the leader\<close>

text \<open>
  Answers that the decoders can read to their end: empty (no answer), another tag, or at least
  ten bytes, which is what \<open>AppendEntriesResponse_serialize\<close> and
  \<open>RequestVoteResponse_serialize\<close> produce.
\<close>

definition reply_wf :: "byte list \<Rightarrow> bool" where
  "reply_wf r \<longleftrightarrow>
     r = [] \<or> hd r \<noteq> of_char CHR ''R'' \<and> hd r \<noteq> of_char CHR ''W'' \<or> 10 \<le> length r"

lemma AppendEntriesResponse_deserialize_total:
  "10 \<le> length r \<Longrightarrow> \<exists>resp. AppendEntriesResponse_deserialize r = Inr resp"
  by (simp add: AppendEntriesResponse_deserialize_def read_uint64_def get_le_def byte_at_def)

lemma RequestVoteResponse_deserialize_total:
  "10 \<le> length r \<Longrightarrow> \<exists>resp. RequestVoteResponse_deserialize r = Inr resp"
  by (simp add: RequestVoteResponse_deserialize_def read_uint64_def get_le_def byte_at_def)

lemma reply_wf_response:
  "reply_wf (AppendEntriesResponse_serialize r)" "reply_wf (RequestVoteResponse_serialize v)"
  by (simp_all add: reply_wf_def AppendEntriesResponse_serialize_def RequestVoteResponse_serialize_def
      push_uint64_def)

lemma node_ok_step_down:
  assumes "node_ok s"
  shows "node_ok (on_store (setVoted []) ((on_store (setTerm t) s)\<lparr>state := FOLLOWER\<rparr>))"
  using store_inv_setTerm [OF node_ok_store [OF assms], of t]
    store_inv_setVoted [of "setTerm t (store s)" "[]"]
  by (intro node_ok_cong [OF assms]) simp_all

lemma notin_list_update: "w \<notin> set xs \<Longrightarrow> w \<noteq> v \<Longrightarrow> w \<notin> set (xs[i := v])"
  using set_update_subset_insert [of xs i v] by auto

lemma node_ok_back_off:
  assumes "node_ok s"
  shows "node_ok (back_off i ae s)"
proof -
  have "0 \<notin> set ((nextIndex s)[i := nextIndex s ! i - 1])" if "1 < nextIndex s ! i"
    using that assms by (intro notin_list_update) (auto simp: node_ok_def)
  with assms show ?thesis by (simp add: node_ok_def back_off_def)
qed

lemma node_ok_progress:
  assumes "node_ok s" and "m + 1 \<noteq> 0"
  shows "node_ok (s\<lparr>matchIndex := (matchIndex s)[i := m], nextIndex := (nextIndex s)[i := m + 1]\<rparr>)"
proof -
  from assms(2) have m: "0 \<noteq> m + 1" "- 1 \<noteq> m" by auto
  with assms(1) show ?thesis by (simp add: node_ok_def notin_list_update)
qed

lemma node_ok_advance:
  assumes "node_ok s" and "advanceCommitIndex s = Inr s'"
  shows "node_ok s'"
proof (rule node_ok_cong [OF assms(1)])
  note frame = advanceCommitIndex_frame [OF assms(2)]
  from frame node_ok_store [OF assms(1)] show "store_inv (store s')" by blast
  from frame show "nextIndex s' = nextIndex s" "matchIndex s' = matchIndex s" by blast+
  from frame have "peers s' = peers s" by blast
  then show "length (peers s') = length (peers s)" by (rule arg_cong)
  from frame have "state s' = state s" by blast
  then show "state s' = LEADER \<Longrightarrow> state s = LEADER" by (rule subst)
qed

lemma handle_append_reply_ok:
  assumes ok: "node_ok s" and i: "i < length (nextIndex s)" and wf: "reply_wf r"
    and sent: "ae_entries ae = [] \<or> ae_prevLogIndex ae + of_nat (length (ae_entries ae)) + 1 \<noteq> 0"
  shows "\<exists>s'. handle_append_reply i ae r s = Inr s' \<and> node_ok s'"
proof -
  let ?s = "if r = [] then s\<lparr>matchIndex := (matchIndex s)[i := 0]\<rparr> else s"
  have ok1: "node_ok ?s"
    using ok by (simp add: node_ok_def notin_list_update)
  have lens: "length (matchIndex s) = length (nextIndex s)" "length (nextIndex s) = length (peers s)"
    using ok i by (auto simp: node_ok_def)
  show ?thesis
  proof (cases "r \<noteq> [] \<and> hd r = of_char CHR ''R''")
    case False
    then show ?thesis using i lens ok1 node_ok_back_off
      by (auto simp: handle_append_reply_def Let_def)
  next
    case True
    then obtain resp where resp: "AppendEntriesResponse_deserialize r = Inr resp"
      using wf AppendEntriesResponse_deserialize_total by (auto simp: reply_wf_def)
    consider "ar_term resp > cur_term s" | "ar_term resp \<le> cur_term s" "ar_success resp \<and> ae_entries ae \<noteq> []"
      | "\<not> cur_term s < ar_term resp" "\<not> (ar_success resp \<and> ae_entries ae \<noteq> [])" by fastforce
    then show ?thesis
    proof cases
      case 2
      define m where "m = max (matchIndex s ! i) (ae_prevLogIndex ae + of_nat (length (ae_entries ae)))"
      let ?t = "s\<lparr>matchIndex := (matchIndex s)[i := m], nextIndex := (nextIndex s)[i := m + 1]\<rparr>"
      have "- 1 \<noteq> matchIndex s ! i" using ok i lens by (metis node_ok_def nth_mem)
      then have "matchIndex s ! i + 1 \<noteq> 0" by (metis add_eq_0_iff2)
      with sent 2 have "m + 1 \<noteq> 0" by (simp add: m_def max_def)
      with ok have "node_ok ?t" by (rule node_ok_progress)
      moreover from this obtain s' where s': "advanceCommitIndex ?t = Inr s'"
        using advanceCommitIndex_total [of ?t] lens by (auto simp: node_ok_def)
      ultimately have "node_ok s'" by (blast intro: node_ok_advance)
      moreover have "\<not> cur_term s < ar_term resp" using 2 by simp
      ultimately show ?thesis using True 2 i lens resp s'
        by (simp add: handle_append_reply_def Let_def m_def)
    qed (use True i lens resp node_ok_step_down [OF ok] node_ok_back_off [OF ok] in
        \<open>auto simp: handle_append_reply_def Let_def\<close>)
  qed
qed

lemma handle_append_reply_lengths:
  assumes "handle_append_reply i ae r s = Inr s'"
  shows "length (nextIndex s') = length (nextIndex s) \<and> peers s' = peers s
    \<and> log_of (store s') = log_of (store s)"
  using assms
  by (auto simp: handle_append_reply_def back_off_def Let_def split: if_splits
      elim!: bind_result_InrE dest!: advanceCommitIndex_frame)

text \<open>What a call may rely on: the answers to it have the shape of answers.\<close>

definition io_wf :: "rpc_io \<Rightarrow> bool" where
  "io_wf io \<longleftrightarrow> (\<forall>req. reply_wf (io_recv io req))"

lemma reply_wf_take: "reply_wf r \<Longrightarrow> reply_wf (take 65536 r)"
  by (cases r) (auto simp: reply_wf_def)

lemma reply_wf_sendRPC: "io_wf io \<Longrightarrow> reply_wf (fst (sendRPC io req p))"
proof -
  assume "io_wf io"
  then have "reply_wf (take 65536 (io_recv io req))" by (simp add: io_wf_def reply_wf_take)
  moreover have "reply_wf []" by (simp add: reply_wf_def)
  ultimately show ?thesis by (simp add: sendRPC_def Let_def)
qed

lemma sent_bound:
  assumes ok: "log_ok log" and "drop (unat p) log \<noteq> []"
  shows "p + of_nat (length (drop (unat p) log)) + 1 \<noteq> (0 :: u64)"
proof -
  from assms(2) have "unat p + length (drop (unat p) log) = length log" by simp
  then have "p + of_nat (length (drop (unat p) log)) = of_nat (length log)"
    by (metis of_nat_add of_nat_unat ucast_id)
  moreover have "unat (of_nat (Suc (length log)) :: u64) = Suc (length log)"
    using ok by (intro unat_of_nat_u64) (simp add: log_ok_def)
  then have "(of_nat (Suc (length log)) :: u64) \<noteq> 0" by (metis nat.distinct(1) unat_0)
  ultimately show ?thesis by (metis of_nat_Suc add.commute)
qed

lemma sendAppendEntries_ok:
  assumes ok: "node_ok s" and i: "i < length (nextIndex s)" and io: "io_wf io"
  shows "\<exists>s'. sendAppendEntries io i s = Inr s' \<and> node_ok s' \<and> length (nextIndex s') = length (nextIndex s)
    \<and> log_of (store s') = log_of (store s)"
proof -
  have inv: "store_inv (store s)" and ip: "i < length (peers s)"
    using ok i by (auto simp: node_ok_def)
  have nz: "nextIndex s ! i \<noteq> 0" using ok i by (metis node_ok_def nth_mem)
  let ?ae = "\<lparr>ae_term = cur_term s, ae_leaderId = scast (node_id s), ae_prevLogIndex = nextIndex s ! i - 1,
     ae_prevLogTerm = entry_term (log_of (store s)) (unat (nextIndex s ! i - 1)),
     ae_leaderCommit = getCommit (store s),
     ae_entries = drop (unat (nextIndex s ! i - 1)) (log_of (store s))\<rparr>"
  obtain r p where rp: "sendRPC io (AppendEntries_serialize ?ae) (peers s ! i) = (r, p)" by fastforce
  let ?s = "s\<lparr>peers := (peers s)[i := p]\<rparr>"
  have "reply_wf r" using reply_wf_sendRPC [OF io] rp by (metis fst_conv)
  moreover have "node_ok ?s" using ok by (simp add: node_ok_def)
  moreover have "ae_entries ?ae = [] \<or> ae_prevLogIndex ?ae + of_nat (length (ae_entries ?ae)) + 1 \<noteq> 0"
    using sent_bound [of "log_of (store s)" "nextIndex s ! i - 1"] inv
    unfolding store_inv_def by auto
  ultimately obtain s' where s': "handle_append_reply i ?ae r ?s = Inr s'" "node_ok s'"
    using handle_append_reply_ok [of ?s i r ?ae] i by auto
  moreover from handle_append_reply_lengths [OF s'(1)]
  have "length (nextIndex s') = length (nextIndex s)" "log_of (store s') = log_of (store s)" by simp_all
  moreover have "sendAppendEntries io i s = Inr s'"
    using prepare_AppendEntries_eq [OF inv ip i nz] rp s'(1) by (simp add: sendAppendEntries_def)
  ultimately show ?thesis by blast
qed

lemma sendAll_ok:
  assumes ok: "node_ok s" and len: "length (nextIndex s) = length (peers s)" and io: "\<And>i. io_wf (io i)"
  shows "\<exists>s'. sendAll io s = Inr s' \<and> node_ok s' \<and> log_of (store s') = log_of (store s)"
proof -
  let ?Q = "\<lambda>t. node_ok t \<and> length (nextIndex t) = length (nextIndex s) \<and> log_of (store t) = log_of (store s)"
  have "\<exists>t. for_each (\<lambda>i. sendAppendEntries (io i) i) [0..<length (peers s)] s = Inr t \<and> ?Q t"
  proof (rule for_each_total)
    fix i t assume "i \<in> set [0..<length (peers s)]" and t: "?Q t"
    then have "i < length (nextIndex t)" using len by simp
    from sendAppendEntries_ok [OF conjunct1 [OF t] this io [of i]] t
    show "\<exists>u. sendAppendEntries (io i) i t = Inr u \<and> ?Q u" by auto
  qed (use ok in simp)
  then show ?thesis by (auto simp: sendAll_def)
qed

section \<open>The handler of AppendEntries keeps nodes well formed\<close>

lemma handleAppendEntries_ok:
  assumes ok: "node_ok s" and wf: "append_wf m"
  shows "\<exists>r s'. handleAppendEntries ev m s = Inr (r, s') \<and> node_ok s'"
proof (cases "accepts m s")
  case True
  obtain s' where s': "handleAppendEntries ev m s = Inr (\<lparr>ar_term = ae_term m, ar_success = True\<rparr>, s')"
    "store_inv (store s')" "state s' = FOLLOWER" "peers s' = peers s" "nextIndex s' = nextIndex s"
    "matchIndex s' = matchIndex s"
    by (rule handleAppendEntries_accept [OF node_ok_store [OF ok] wf True])
  then have "node_ok s'" by (intro node_ok_cong [OF ok]) simp_all
  with s'(1) show ?thesis by blast
next
  case False
  have "node_ok (follow ev m s)" if "cur_term s \<le> ae_term m"
    by (rule node_ok_cong [OF ok])
      (use follow_store_inv [OF node_ok_store [OF ok]] follow_sel [OF that, of ev] in simp_all)
  with ok show ?thesis
    by (simp add: handleAppendEntries_reject [OF node_ok_store [OF ok] False])
qed

section \<open>New entries\<close>

text \<open>The entry that \<^verbatim>\<open>becomeLeader\<close>, \<^verbatim>\<open>submit\<close> and \<^verbatim>\<open>get\<close> append for a command.\<close>

abbreviation new_entry :: "Command \<Rightarrow> RaftNode \<Rightarrow> LogEntry" where
  "new_entry cmd s \<equiv> mk_LogEntry (cur_term s) (logLen (store s) + 1) cmd"

definition log_room :: "RaftNode \<Rightarrow> bool" where
  "log_room s \<longleftrightarrow> Suc (Suc (length (log_of (store s)))) < 2 ^ 64"

lemma log_ok_new_entry:
  assumes inv: "store_inv (store s)" and room: "log_room s" and cmd: "command_ok cmd"
  shows "log_ok (log_of (store s) @ [new_entry cmd s])"
  using assms
  by (auto simp: log_ok_def store_inv_def log_room_def chain_append entry_good_def mk_LogEntry_ok
      getCommand_mk_LogEntry add.commute)

lemma node_ok_new_entry:
  assumes ok: "node_ok s" and "log_room s" and "command_ok cmd"
  shows "node_ok (on_store (append_entry (new_entry cmd s)) s)"
    and "log_of (append_entry (new_entry cmd s) (store s)) = log_of (store s) @ [new_entry cmd s]"
proof -
  note app = store_inv_append [OF node_ok_store [OF ok] log_ok_new_entry [OF node_ok_store [OF ok] assms(2,3)]]
  from app show "log_of (append_entry (new_entry cmd s) (store s)) = log_of (store s) @ [new_entry cmd s]" ..
  show "node_ok (on_store (append_entry (new_entry cmd s)) s)"
    by (rule node_ok_cong [OF ok]) (use app in simp_all)
qed

lemma command_ok_noop: "command_ok (mk_Command NOOP [] [])"
  by (simp add: command_ok_def mk_Command_def)

text \<open>The same without the vectors: what a new entry does to the store.\<close>

lemma store_inv_new_entry:
  assumes "store_inv (store s)" and "log_room s" and "command_ok cmd"
  shows "store_inv (append_entry (new_entry cmd s) (store s))
    \<and> log_of (append_entry (new_entry cmd s) (store s)) = log_of (store s) @ [new_entry cmd s]"
  by (rule store_inv_append [OF assms(1) log_ok_new_entry [OF assms]])

abbreviation noop_entry :: "RaftNode \<Rightarrow> LogEntry" where
  "noop_entry s \<equiv> new_entry (mk_Command NOOP [] []) s"

lemma take_office_sel [simp]:
  "state (take_office s) = LEADER" "cur_term (take_office s) = cur_term s" "node_id (take_office s) = node_id s"
  "peers (take_office s) = peers s" "current_leader_id (take_office s) = node_id s"
  "nextIndex (take_office s) = replicate (length (peers s)) (getLastLogIndex (store s) + 1)"
  "matchIndex (take_office s) = replicate (length (peers s)) 0"
  "store (take_office s) = append_entry (noop_entry s) (store s)"
  by (simp_all add: take_office_def Let_def)

lemma submit_append_eq:
  "submit_append cmd s = Inr (idx, s') \<longleftrightarrow> state s = LEADER \<and> Requestable s
    \<and> idx = logLen (store s) + 1 \<and> s' = on_store (append_entry (new_entry cmd s)) s"
  by (auto simp: submit_append_def Let_def)

lemma get_append_eq:
  "get_append s = Inr (idx, s') \<longleftrightarrow> state s = LEADER
    \<and> idx = logLen (store s) + 1 \<and> s' = on_store (append_entry (noop_entry s)) s"
  by (auto simp: get_append_def Let_def)

lemma node_ok_take_office:
  assumes ok: "node_ok s" and room: "log_room s"
  shows "node_ok (take_office s)" and "log_of (store (take_office s)) = log_of (store s) @ [noop_entry s]"
proof -
  let ?l = "s\<lparr>state := LEADER, current_leader_id := node_id s,
    nextIndex := replicate (length (peers s)) (getLastLogIndex (store s) + 1),
    matchIndex := replicate (length (peers s)) 0, noop_committed := False\<rparr>"
  have inv: "store_inv (store s)" by (rule node_ok_store [OF ok])
  have "getLastLogIndex (store s) + 1 = of_nat (Suc (length (log_of (store s))))"
    using inv by (simp add: store_inv_def add.commute)
  moreover have "unat (of_nat (Suc (length (log_of (store s)))) :: u64) = Suc (length (log_of (store s)))"
    using inv by (intro unat_of_nat_u64) (simp add: store_inv_def log_ok_def)
  ultimately have "getLastLogIndex (store s) + 1 \<noteq> 0" by (metis nat.distinct(1) unat_0)
  then have l: "node_ok ?l" using inv by (simp add: node_ok_def)
  have "log_room ?l" using room by (simp add: log_room_def)
  from node_ok_new_entry [OF l this command_ok_noop]
  show "node_ok (take_office s)" "log_of (store (take_office s)) = log_of (store s) @ [noop_entry s]"
    by (simp_all add: take_office_def Let_def)
qed

lemma becomeLeader_ok:
  assumes ok: "node_ok s" and room: "log_room s" and io: "\<And>i. io_wf (io i)" and cand: "state s = CANDIDATE"
  shows "\<exists>s'. becomeLeader io s = Inr s' \<and> node_ok s'
    \<and> log_of (store s') = log_of (store s) @ [noop_entry s]"
  using sendAll_ok [OF node_ok_take_office(1) [OF ok room] _ io] node_ok_take_office(2) [OF ok room] cand
  by (simp add: becomeLeader_def)

lemma submit_begin_ok:
  assumes ok: "node_ok s" and room: "log_room s" and io: "\<And>i. io_wf (io i)" and cmd: "command_ok cmd"
    and lead: "state s = LEADER" "Requestable s"
  shows "\<exists>s'. submit_begin io cmd s = Inr (logLen (store s) + 1, s') \<and> node_ok s'
    \<and> log_of (store s') = log_of (store s) @ [new_entry cmd s]"
proof -
  let ?m = "on_store (append_entry (new_entry cmd s)) s"
  note new = node_ok_new_entry [OF ok room cmd]
  have "length (nextIndex ?m) = length (peers ?m)" using ok lead by (simp add: node_ok_def)
  from sendAll_ok [where io = io, OF new(1) this io] new(2) lead show ?thesis
    by (auto simp: submit_begin_def submit_append_def Let_def)
qed

lemma get_begin_ok:
  assumes ok: "node_ok s" and room: "log_room s" and io: "\<And>i. io_wf (io i)" and lead: "state s = LEADER"
  shows "\<exists>s'. get_begin io s = Inr (logLen (store s) + 1, s') \<and> node_ok s'
    \<and> log_of (store s') = log_of (store s) @ [new_entry (mk_Command NOOP [] []) s]"
proof -
  let ?m = "on_store (append_entry (new_entry (mk_Command NOOP [] []) s)) s"
  note new = node_ok_new_entry [OF ok room command_ok_noop]
  have "length (nextIndex ?m) = length (peers ?m)" using ok lead by (simp add: node_ok_def)
  from sendAll_ok [where io = io, OF new(1) this io] new(2) lead show ?thesis
    by (auto simp: get_begin_def get_append_def Let_def)
qed

section \<open>A node in an empty directory\<close>

definition empty_disk :: Disk where
  "empty_disk = \<lparr>raft_log = None, raft_meta = None, raft_meta_tmp = None\<rparr>"

definition fresh_node :: "c_int \<Rightarrow> Peer list \<Rightarrow> RaftNode" where
  "fresh_node c ps =
     \<lparr>store = \<lparr>log_fd = Appending, st_disk = \<lparr>raft_log = Some [], raft_meta = None, raft_meta_tmp = None\<rparr>, st_term = 0,
        st_last_log_term = 0, st_voted = [], st_log_length = 0, st_commitIndex = 0, st_lastApplied = 0\<rparr>,
      sm = StateMachine_init, node_id = c, peers = ps, state = FOLLOWER, running = True,
      last_heartbeat = 0, current_timeout = 3000, current_leader_id = 0, nextIndex = [],
      matchIndex = [], noop_committed = False\<rparr>"

lemma RaftNode_init_fresh: "RaftNode_init (\<lambda>k. (0, 0)) c ps empty_disk = Inr (fresh_node c ps)"
  by (simp add: RaftNode_init_def empty_disk_def Storage_open_empty replay_def readAll_def
      readAll_loop_end apply_entries_def reset_timer_def getRandomTimeout_def fresh_node_def)

lemma log_of_fresh: "log_of (store (fresh_node c ps)) = []"
  by (simp add: fresh_node_def log_of_def readAll_def readAll_loop_end)

lemma node_ok_fresh: "node_ok (fresh_node c ps)"
  using log_of_fresh [of c ps]
  by (simp add: node_ok_def store_inv_def log_ok_def last_term_def at_end_def meta_ok_def fresh_node_def)

definition silent :: rpc_io where
  "silent = \<lparr>io_connect = None, io_send = - 1, io_recv = (\<lambda>req. [])\<rparr>"

lemma sendRPC_silent: "fst (sendRPC silent req p) = []"
  by (simp add: sendRPC_def silent_def Let_def)

lemma io_wf_silent: "io_wf silent"
  by (simp add: io_wf_def silent_def reply_wf_def)

end
