(* ===== verification/Election.thy ===== *)
theory Election
  imports Leadership
begin

text \<open>
  Terms and votes. \<open>vote_step\<close> is what every operation but the start and the end of an election
  keeps: the term never falls, a vote given in a term is not changed within that term, and no
  node becomes candidate or leader. \<open>handleRequestVote\<close> is characterised completely, with the
  up-to-date check as the order on log positions. The last section shows that elections and the
  background thread never run into undefined behaviour and keep nodes well formed.
\<close>

section \<open>Log positions\<close>

text \<open>The position of a log's end: logs are compared by last term, then by length.\<close>

datatype log_pos = Log_pos (pos_term: u64) (pos_index: u64)

instantiation log_pos :: linorder
begin

definition less_eq_log_pos :: "log_pos \<Rightarrow> log_pos \<Rightarrow> bool" where
  "p \<le> q \<longleftrightarrow> pos_term p < pos_term q \<or> pos_term p = pos_term q \<and> pos_index p \<le> pos_index q"

definition less_log_pos :: "log_pos \<Rightarrow> log_pos \<Rightarrow> bool" where
  "p < q \<longleftrightarrow> pos_term p < pos_term q \<or> pos_term p = pos_term q \<and> pos_index p < pos_index q"

instance
  by standard (auto simp: less_eq_log_pos_def less_log_pos_def log_pos.expand)

end

definition store_pos :: "Storage \<Rightarrow> log_pos" where
  "store_pos st = Log_pos (getLastLogTerm st) (getLastLogIndex st)"

definition request_pos :: "RequestVote \<Rightarrow> log_pos" where
  "request_pos m = Log_pos (rv_lastLogTerm m) (rv_lastLogIndex m)"

lemma make_RequestVote_pos: "request_pos (make_RequestVote s) = store_pos (store s)"
  by (simp add: request_pos_def make_RequestVote_def store_pos_def)

lemma logOk_iff:
  "(rv_lastLogTerm m > getLastLogTerm st \<or>
    rv_lastLogTerm m = getLastLogTerm st \<and> rv_lastLogIndex m \<ge> getLastLogIndex st)
   \<longleftrightarrow> store_pos st \<le> request_pos m"
  by (auto simp: less_eq_log_pos_def store_pos_def request_pos_def)

section \<open>The vote handler\<close>

text \<open>The vote that counts for a message: none when the message starts a new term.\<close>

definition vote_before :: "RequestVote \<Rightarrow> RaftNode \<Rightarrow> string" where
  "vote_before m s = (if rv_term m > cur_term s then [] else getVoted (store s))"

definition grants :: "RequestVote \<Rightarrow> RaftNode \<Rightarrow> bool" where
  "grants m s \<longleftrightarrow> cur_term s \<le> rv_term m
     \<and> (vote_before m s = [] \<or> vote_before m s = to_string_u64 (rv_candidateId m))
     \<and> store_pos (store s) \<le> request_pos m"

lemma setTerm_store_pos [simp]: "store_pos (setTerm t st) = store_pos st"
  and setVoted_store_pos [simp]: "store_pos (setVoted v st) = store_pos st"
  by (simp_all add: store_pos_def)

lemma handleRequestVote_eq:
  assumes "handleRequestVote ev m s = (r, s')"
  shows "vr_voteGranted r \<longleftrightarrow> grants m s" and "vr_term r = max (cur_term s) (rv_term m)"
    and "cur_term s' = max (cur_term s) (rv_term m)"
    and "getVoted (store s') = (if grants m s then to_string_u64 (rv_candidateId m) else vote_before m s)"
    and "state s' = (if rv_term m > cur_term s then FOLLOWER else state s)"
    and "node_id s' = node_id s" and "peers s' = peers s" and "sm s' = sm s"
    and "nextIndex s' = nextIndex s" and "matchIndex s' = matchIndex s"
    and "log_of (store s') = log_of (store s)"
    and "getCommit (store s') = getCommit (store s)" and "getApplied (store s') = getApplied (store s)"
  using assms
  by (auto simp: handleRequestVote_def grants_def vote_before_def logOk_iff reset_timer_def Let_def
      max_def split: if_splits)

lemma length_to_string_u64: "length (to_string_u64 x) < 2 ^ 32"
proof -
  have "unat x < 10 ^ Suc 19" using unsigned_less [of x, where 'a = nat] by simp
  from length_decimal [OF this] show ?thesis by (simp add: to_string_u64_def)
qed

lemma length_to_string_cint: "length (to_string_cint i) < 2 ^ 32"
proof -
  have "sint i < 2 ^ 31" "- (2 ^ 31) \<le> sint i" using sint_lt [of i] sint_ge [of i] by simp_all
  then have "nat (sint i) < 10 ^ Suc 10" "nat (- sint i) < 10 ^ Suc 10" by simp_all
  from length_decimal [OF this(1)] length_decimal [OF this(2)] show ?thesis
    by (simp add: to_string_cint_def to_string_int_def)
qed

lemma store_inv_setVoted_u64:
  "store_inv st \<Longrightarrow> store_inv (setVoted (to_string_u64 x) st)"
  using store_inv_setVoted length_to_string_u64 by blast

lemma node_ok_on_meta:
  assumes ok: "node_ok s" and v: "length v < 2 ^ 32"
  shows "store_inv (setVoted v (setTerm t (store s)))" and "store_inv (setVoted v (store s))"
  using store_inv_setTerm [OF node_ok_store [OF ok], of t] store_inv_setVoted [OF _ v] node_ok_store [OF ok]
  by blast+

lemma handleRequestVote_node_ok:
  assumes ok: "node_ok s" and call: "handleRequestVote ev m s = (r, s')"
  shows "node_ok s'"
proof (rule node_ok_cong [OF ok])
  note v = node_ok_on_meta(1) [OF ok, of "[]"] node_ok_on_meta(2) [OF ok length_to_string_u64]
  show "store_inv (store s')"
    using call v store_inv_setVoted_u64 node_ok_store [OF ok]
    by (auto simp: handleRequestVote_def reset_timer_def Let_def split: if_splits)
qed (use handleRequestVote_eq [OF call] in \<open>auto split: if_splits\<close>)

section \<open>What keeps terms and votes\<close>

definition vote_step :: "RaftNode \<Rightarrow> RaftNode \<Rightarrow> bool" where
  "vote_step s s' \<longleftrightarrow>
     node_id s' = node_id s \<and> map peer_id (peers s') = map peer_id (peers s)
     \<and> cur_term s \<le> cur_term s'
     \<and> (cur_term s' = cur_term s \<longrightarrow> getVoted (store s) \<noteq> [] \<longrightarrow> getVoted (store s') = getVoted (store s))
     \<and> (state s' \<noteq> FOLLOWER \<longrightarrow> state s' = state s \<and> cur_term s' = cur_term s)
     \<and> (meta_ok (store s) \<longrightarrow> meta_ok (store s'))"

lemma vote_step_refl [simp]: "vote_step s s"
  by (simp add: vote_step_def)

lemma squeezed: "x \<le> y \<Longrightarrow> y \<le> z \<Longrightarrow> z = x \<Longrightarrow> y = x" for x :: "'a :: order"
  by simp

lemma vote_step_trans:
  assumes st: "vote_step s t" and tu: "vote_step t u"
  shows "vote_step s u"
proof -
  note defs = st [unfolded vote_step_def] tu [unfolded vote_step_def]
  have le: "cur_term s \<le> cur_term t" "cur_term t \<le> cur_term u" using defs by blast+
  then have "cur_term s \<le> cur_term u" by (rule order_trans)
  moreover have "getVoted (store u) = getVoted (store s)"
    if "cur_term u = cur_term s" "getVoted (store s) \<noteq> []"
    using that defs squeezed [OF le that(1)] by simp
  moreover have "state u = state s \<and> cur_term u = cur_term s" if "state u \<noteq> FOLLOWER"
    using that defs by simp
  ultimately show ?thesis using defs by (simp add: vote_step_def)
qed

lemma vote_step_unchanged:
  "node_id s' = node_id s \<Longrightarrow> map peer_id (peers s') = map peer_id (peers s) \<Longrightarrow>
   cur_term s' = cur_term s \<Longrightarrow> getVoted (store s') = getVoted (store s) \<Longrightarrow> state s' = state s \<Longrightarrow>
   (meta_ok (store s) \<Longrightarrow> meta_ok (store s')) \<Longrightarrow> vote_step s s'"
  by (simp add: vote_step_def)

text \<open>Learning a newer term: the term is raised, the vote cleared and the role given up.\<close>

lemma vote_step_newer_term:
  "node_id s' = node_id s \<Longrightarrow> map peer_id (peers s') = map peer_id (peers s) \<Longrightarrow>
   cur_term s < cur_term s' \<Longrightarrow> state s' = FOLLOWER \<Longrightarrow>
   (meta_ok (store s) \<Longrightarrow> meta_ok (store s')) \<Longrightarrow> vote_step s s'"
  by (auto simp: vote_step_def)

lemma handleRequestVote_meta:
  "handleRequestVote ev m s = (r, s') \<Longrightarrow> meta_ok (store s) \<Longrightarrow> meta_ok (store s')"
  using length_to_string_u64
  by (auto simp: handleRequestVote_def reset_timer_def Let_def split: if_splits)

lemma vote_step_handleRequestVote:
  assumes "handleRequestVote ev m s = (r, s')"
  shows "vote_step s s'"
  using handleRequestVote_eq(3-7) [OF assms] handleRequestVote_meta [OF assms]
  by (auto simp: vote_step_def grants_def vote_before_def max_def split: if_splits)

lemma handleAppendEntries_cases:
  assumes "handleAppendEntries ev m s = Inr (r, s')"
  shows "s' = s \<or> cur_term s' = max (cur_term s) (ae_term m) \<and> state s' = FOLLOWER
      \<and> node_id s' = node_id s \<and> peers s' = peers s
      \<and> getVoted (store s') = (if cur_term s < ae_term m then [] else getVoted (store s))
      \<and> (meta_ok (store s) \<longrightarrow> meta_ok (store s'))"
proof (cases "ae_term m < cur_term s")
  case True
  with assms show ?thesis by (simp add: handleAppendEntries_def)
next
  case False
  then have t: "cur_term s \<le> ae_term m" by simp
  note f = follow_sel [OF t, of ev]
  have fm: "meta_ok (store s) \<Longrightarrow> meta_ok (store (follow ev m s))"
    by (simp add: follow_def reset_timer_def Let_def)
  from assms consider "s' = follow ev m s"
    | st where "resolve_conflicts (ae_prevLogIndex m + 1) (ae_entries m) (store (follow ev m s)) = Inr st"
      "applyCommitted ((follow ev m s)\<lparr>store := commit_after m (append_new (ae_entries m) st)\<rparr>) = Inr s'"
    unfolding handleAppendEntries_unfold [OF t] by (auto elim!: bind_result_InrE split: if_splits)
  then show ?thesis
  proof cases
    case 1
    with f fm t show ?thesis by (simp add: max_def)
  next
    case 2
    from applyCommitted_frame [OF 2(2)] resolve_conflicts_frame [OF 2(1)]
      append_new_frame [of "ae_entries m" st] f t
      applyCommitted_meta [OF 2(2)] resolve_conflicts_meta [OF 2(1)] append_new_meta fm
    show ?thesis by (simp add: commit_after_def max_def split: if_splits)
  qed
qed

lemma vote_step_handleAppendEntries:
  assumes "handleAppendEntries ev m s = Inr (r, s')"
  shows "vote_step s s'"
  using handleAppendEntries_cases [OF assms]
  by (auto simp: vote_step_def max_def split: if_splits)

lemma vote_step_applyCommitted: "applyCommitted s = Inr s' \<Longrightarrow> vote_step s s'"
  by (frule applyCommitted_frame, frule applyCommitted_meta) (auto intro!: vote_step_unchanged)

lemma vote_step_advance: "advanceCommitIndex s = Inr s' \<Longrightarrow> vote_step s s'"
  by (frule advanceCommitIndex_frame, frule advanceCommitIndex_meta) (auto intro!: vote_step_unchanged)

lemma vote_step_vectors:
  "vote_step s (s\<lparr>matchIndex := a\<rparr>)" "vote_step s (s\<lparr>matchIndex := a, nextIndex := b\<rparr>)"
  "vote_step s (back_off i ae s)"
  by (simp_all add: vote_step_def back_off_def)

lemma vote_step_down:
  "cur_term s < t \<Longrightarrow>
    vote_step s (s\<lparr>state := FOLLOWER, store := setVoted [] (setTerm t (store s))\<rparr>)"
  by (intro vote_step_newer_term) simp_all

lemma vote_step_progress:
  "advanceCommitIndex (s\<lparr>matchIndex := a, nextIndex := b\<rparr>) = Inr s' \<Longrightarrow> vote_step s s'"
  by (rule vote_step_trans [OF vote_step_vectors(2) vote_step_advance])

lemma vote_step_handle_append_reply:
  assumes "handle_append_reply i ae r s = Inr s'"
  shows "vote_step s s'"
proof -
  define t where "t = (if r = [] then s\<lparr>matchIndex := (matchIndex s)[i := 0]\<rparr> else s)"
  have st: "vote_step s t" by (simp add: t_def vote_step_vectors)
  have "vote_step t s'"
    using assms unfolding handle_append_reply_def Let_def t_def [symmetric]
    by (auto simp: vote_step_vectors vote_step_down dest: vote_step_progress split: if_splits
        elim!: bind_result_InrE)
  with st show ?thesis by (rule vote_step_trans)
qed

lemma map_update_same: "f y = f (xs ! i) \<Longrightarrow> map f (xs[i := y]) = map f xs"
proof -
  assume "f y = f (xs ! i)"
  then have "map f (xs[i := y]) = (map f xs)[i := f (xs ! i)]" by (simp add: map_update)
  also have "\<dots> = map f (xs[i := xs ! i])" by (simp only: map_update)
  finally show ?thesis by simp
qed

lemma vote_step_rpc:
  assumes "sendRPC io req (peers s ! i) = (r, p)"
  shows "vote_step s (s\<lparr>peers := (peers s)[i := p]\<rparr>)"
proof (rule vote_step_unchanged)
  have "peer_id p = peer_id (peers s ! i)" using sendRPC_id [of io req "peers s ! i"] assms by simp
  then show "map peer_id (peers (s\<lparr>peers := (peers s)[i := p]\<rparr>)) = map peer_id (peers s)"
    by (simp add: map_update_same)
qed simp_all

lemma vote_step_sendAppendEntries:
  assumes "sendAppendEntries io i s = Inr s'"
  shows "vote_step s s'"
proof -
  from assms obtain ae r p where "sendRPC io (AppendEntries_serialize ae) (peers s ! i) = (r, p)"
    and "handle_append_reply i ae r (s\<lparr>peers := (peers s)[i := p]\<rparr>) = Inr s'"
    by (auto simp: sendAppendEntries_def elim!: bind_result_InrE split: prod.splits)
  with vote_step_rpc vote_step_handle_append_reply show ?thesis by (blast intro: vote_step_trans)
qed

lemma vote_step_sendAll:
  assumes "sendAll io s = Inr s'"
  shows "vote_step s s'"
  using assms unfolding sendAll_def
  by (rule for_each_inv [where P = "vote_step s"])
    (auto intro: vote_step_trans vote_step_sendAppendEntries)

text \<open>A new leader keeps term and vote; only its role changes.\<close>

lemma becomeLeader_step:
  assumes "becomeLeader io s = Inr s'"
  shows "s' = s \<or> state s = CANDIDATE \<and> vote_step (s\<lparr>state := LEADER\<rparr>) s'"
proof (cases "state s = CANDIDATE")
  case True
  have "vote_step (s\<lparr>state := LEADER\<rparr>) (on_store (append_entry e) (s\<lparr>state := LEADER, current_leader_id := x,
      nextIndex := y, matchIndex := z, noop_committed := b\<rparr>))" for e x y z b
    by (rule vote_step_unchanged) simp_all
  moreover from assms True obtain e x y z b where "sendAll io (on_store (append_entry e)
      (s\<lparr>state := LEADER, current_leader_id := x, nextIndex := y, matchIndex := z, noop_committed := b\<rparr>)) = Inr s'"
    unfolding becomeLeader_def take_office_def Let_def by simp
  ultimately show ?thesis using vote_step_sendAll True by (blast intro: vote_step_trans)
qed (use assms in \<open>simp add: becomeLeader_def take_office_def\<close>)

lemma vote_step_append_entry: "vote_step s (on_store (append_entry e) s)"
  by (rule vote_step_unchanged) simp_all

lemma vote_step_submit_begin:
  assumes "submit_begin io cmd s = Inr (idx, s')"
  shows "vote_step s s'"
  using assms
  by (auto simp: submit_begin_def submit_append_def Let_def split: if_splits elim!: bind_result_InrE
      intro: vote_step_trans [OF vote_step_append_entry] vote_step_sendAll)

lemma vote_step_get_begin:
  assumes "get_begin io s = Inr (idx, s')"
  shows "vote_step s s'"
  using assms
  by (auto simp: get_begin_def get_append_def Let_def split: if_splits elim!: bind_result_InrE
      intro: vote_step_trans [OF vote_step_append_entry] vote_step_sendAll)

section \<open>Elections\<close>

lemma election_begin_eq:
  "cur_term (election_begin ev s) = cur_term s + 1" "state (election_begin ev s) = CANDIDATE"
  "getVoted (store (election_begin ev s)) = to_string_cint (node_id s)"
  "node_id (election_begin ev s) = node_id s" "peers (election_begin ev s) = peers s"
  "store_pos (store (election_begin ev s)) = store_pos (store s)"
  "log_of (store (election_begin ev s)) = log_of (store s)"
  "nextIndex (election_begin ev s) = nextIndex s" "matchIndex (election_begin ev s) = matchIndex s"
  by (simp_all add: election_begin_def reset_timer_def)

lemma vote_step_election_reply:
  assumes "election_reply ev r votes s = Inr (v, s')"
  shows "vote_step s s' \<and> (case v of None \<Rightarrow> state s' = FOLLOWER | Some n \<Rightarrow> s' = s \<and> n \<le> votes + 1)"
  using assms
  by (auto simp: election_reply_def reset_timer_def split: if_splits elim!: bind_result_InrE
      simp: vote_step_newer_term)

lemma election_loop_step:
  assumes "election_loop ev io payload js votes s = Inr (v, s')"
  shows "vote_step s s' \<and> (v = None \<longrightarrow> state s' = FOLLOWER)"
  using assms
proof (induction js arbitrary: votes s)
  case (Cons i js)
  obtain r p where rp: "sendRPC (io i) payload (peers s ! i) = (r, p)" by fastforce
  let ?s = "s\<lparr>peers := (peers s)[i := p]\<rparr>"
  from Cons.prems rp obtain w t where reply: "election_reply ev r votes ?s = Inr (w, t)"
    and rest: "(case w of None \<Rightarrow> Inr (None, t) | Some n \<Rightarrow> election_loop ev io payload js n t) = Inr (v, s')"
    by (auto elim!: bind_result_InrE)
  have "vote_step s t"
    using vote_step_rpc [OF rp] vote_step_election_reply [OF reply] by (blast intro: vote_step_trans)
  moreover have "vote_step t s' \<and> (v = None \<longrightarrow> state s' = FOLLOWER)"
  proof (cases w)
    case None
    with rest vote_step_election_reply [OF reply] show ?thesis by auto
  next
    case (Some n)
    with rest have "election_loop ev io payload js n t = Inr (v, s')" by simp
    then show ?thesis by (rule Cons.IH)
  qed
  ultimately show ?case by (blast intro: vote_step_trans)
qed auto

section \<open>No undefined behaviour in elections\<close>

lemma election_begin_node_ok: "node_ok s \<Longrightarrow> node_ok (election_begin ev s)"
proof -
  assume ok: "node_ok s"
  note v = node_ok_on_meta(1) [OF ok length_to_string_cint, of "node_id s" "cur_term s + 1"]
  show ?thesis
    by (rule node_ok_cong [OF ok]) (use v in \<open>simp_all add: election_begin_def reset_timer_def\<close>)
qed

lemma election_reply_ok:
  assumes ok: "node_ok s" and r: "reply_wf r"
  shows "\<exists>v s'. election_reply ev r votes s = Inr (v, s') \<and> node_ok s' \<and> log_of (store s') = log_of (store s)"
proof (cases "r \<noteq> [] \<and> hd r = of_char CHR ''W''")
  case True
  with r obtain resp where resp: "RequestVoteResponse_deserialize r = Inr resp"
    using RequestVoteResponse_deserialize_total [of r] by (auto simp: reply_wf_def)
  have "node_ok (reset_timer ev 1 ((on_store (setVoted [])
      ((on_store (setTerm (vr_term resp)) s)\<lparr>state := FOLLOWER\<rparr>))\<lparr>current_leader_id := 0\<rparr>))"
    using node_ok_on_meta(1) [OF ok, of "[]"] by (intro node_ok_cong [OF ok]) (simp_all add: reset_timer_def)
  with True resp ok show ?thesis by (simp add: election_reply_def reset_timer_def)
qed (use ok in \<open>auto simp: election_reply_def\<close>)

lemma election_loop_ok:
  assumes "node_ok s" and "\<And>i. io_wf (io i)"
  shows "\<exists>v s'. election_loop ev io payload js votes s = Inr (v, s') \<and> node_ok s'
    \<and> log_of (store s') = log_of (store s)"
  using assms(1)
proof (induction js arbitrary: votes s)
  case (Cons i js)
  obtain r p where rp: "sendRPC (io i) payload (peers s ! i) = (r, p)" by fastforce
  let ?s = "s\<lparr>peers := (peers s)[i := p]\<rparr>"
  have "node_ok ?s" using Cons.prems by (simp add: node_ok_def)
  moreover have "reply_wf r" using reply_wf_sendRPC [OF assms(2)] rp by (metis fst_conv)
  ultimately obtain w t where t: "election_reply ev r votes ?s = Inr (w, t)" "node_ok t"
    "log_of (store t) = log_of (store s)"
    using election_reply_ok [of ?s r ev votes] by auto
  from Cons.IH [OF t(2)] t rp show ?case by (cases w) (auto simp: Let_def)
qed simp

lemma startElection_ok:
  assumes ok: "node_ok s" and room: "log_room s" and io: "\<And>k i. io_wf (io k i)"
  shows "\<exists>s'. startElection ev io s = Inr s' \<and> node_ok s'"
proof -
  let ?s = "election_begin ev s"
  obtain v t where t: "election_loop ev (io 0) (RequestVote_serialize (make_RequestVote ?s))
      [0..<length (peers ?s)] 1 ?s = Inr (v, t)" "node_ok t" "log_of (store t) = log_of (store ?s)"
    using election_loop_ok [where io = "io 0", OF election_begin_node_ok [OF ok] io] by blast
  have "log_room t" using room t(3) by (simp add: log_room_def election_begin_eq)
  with becomeLeader_ok [where io = "io 1", OF t(2) _ io] t(2)
  have "\<exists>s'. election_end (io 1) n t = Inr s' \<and> node_ok s'" for n
    by (auto simp: election_end_def)
  with t show ?thesis by (cases v) (simp_all add: startElection_def Let_def)
qed

lemma background_step_ok:
  assumes ok: "node_ok s" and room: "log_room s" and io: "\<And>k i. io_wf (io k i)"
  shows "\<exists>s'. background_step ev io s = Inr s' \<and> node_ok s'"
proof (cases "state s = LEADER")
  case True
  let ?s = "s\<lparr>last_heartbeat := fst (ev 2)\<rparr>"
  have "node_ok ?s" "length (nextIndex ?s) = length (peers ?s)" using ok True by (simp_all add: node_ok_def)
  from sendAll_ok [where io = "io 0", OF this io] ok True show ?thesis
    by (auto simp: background_step_def Let_def)
next
  case False
  with startElection_ok [OF assms] ok show ?thesis by (simp add: background_step_def Let_def)
qed

section \<open>Winning an election\<close>

text \<open>
  Answers that do not carry a newer term than \<open>t\<close>, and among them those that give the vote.
\<close>

definition vote_calm :: "u64 \<Rightarrow> byte list \<Rightarrow> bool" where
  "vote_calm t r \<longleftrightarrow> r = [] \<or> hd r \<noteq> of_char CHR ''W'' \<or>
     (case RequestVoteResponse_deserialize r of Inl e \<Rightarrow> False | Inr resp \<Rightarrow> vr_term resp \<le> t)"

definition vote_given :: "byte list \<Rightarrow> bool" where
  "vote_given r \<longleftrightarrow> r \<noteq> [] \<and> hd r = of_char CHR ''W'' \<and>
     (case RequestVoteResponse_deserialize r of Inl e \<Rightarrow> False | Inr resp \<Rightarrow> vr_voteGranted resp)"

definition append_calm :: "u64 \<Rightarrow> byte list \<Rightarrow> bool" where
  "append_calm t r \<longleftrightarrow> r = [] \<or> hd r \<noteq> of_char CHR ''R'' \<or>
     (case AppendEntriesResponse_deserialize r of Inl e \<Rightarrow> False | Inr resp \<Rightarrow> ar_term resp \<le> t)"

text \<open>What peer \<open>i\<close> answers to a request of node \<open>s\<close>.\<close>

definition reply_of :: "(nat \<Rightarrow> rpc_io) \<Rightarrow> byte list \<Rightarrow> RaftNode \<Rightarrow> nat \<Rightarrow> byte list" where
  "reply_of io req s i = fst (sendRPC (io i) req (peers s ! i))"

lemma election_reply_calm:
  assumes "vote_calm (cur_term s) r"
  shows "election_reply ev r n s = Inr (Some (n + (if vote_given r then 1 else 0)), s)"
  using assms
  by (auto simp: election_reply_def vote_calm_def vote_given_def not_less split: sum.splits)

lemma election_loop_calm:
  assumes "distinct js" and "\<forall>i \<in> set js. vote_calm (cur_term s) (reply_of io payload s i)"
  shows "\<exists>ps. election_loop ev io payload js n s =
      Inr (Some (n + length (filter (\<lambda>i. vote_given (reply_of io payload s i)) js)), s\<lparr>peers := ps\<rparr>)
    \<and> map peer_id ps = map peer_id (peers s)"
  using assms
proof (induction js arbitrary: n s)
  case Nil
  show ?case by (rule exI [of _ "peers s"]) simp
next
  case (Cons i js)
  obtain r p where rp: "sendRPC (io i) payload (peers s ! i) = (r, p)" by fastforce
  let ?s = "s\<lparr>peers := (peers s)[i := p]\<rparr>"
  have r: "reply_of io payload s i = r" by (simp add: reply_of_def rp)
  have reply: "election_reply ev r n ?s = Inr (Some (n + (if vote_given r then 1 else 0)), ?s)"
    using Cons.prems r by (intro election_reply_calm) simp
  have same: "reply_of io payload ?s j = reply_of io payload s j" if "j \<in> set js" for j
  proof -
    from that Cons.prems(1) have "i \<noteq> j" by auto
    then show ?thesis by (simp add: reply_of_def)
  qed
  have "map peer_id (peers ?s) = map peer_id (peers s)"
    using vote_step_rpc [OF rp] by (simp add: vote_step_def)
  moreover obtain ps where "election_loop ev io payload js (n + (if vote_given r then 1 else 0)) ?s =
      Inr (Some (n + (if vote_given r then 1 else 0) +
        length (filter (\<lambda>i. vote_given (reply_of io payload ?s i)) js)), ?s\<lparr>peers := ps\<rparr>)"
    "map peer_id ps = map peer_id (peers ?s)"
    using Cons.IH [of ?s "n + (if vote_given r then 1 else 0)"] Cons.prems same by auto
  moreover have "filter (\<lambda>i. vote_given (reply_of io payload ?s i)) js =
      filter (\<lambda>i. vote_given (reply_of io payload s i)) js"
    using same by (intro filter_cong) simp_all
  ultimately show ?case using rp reply r by auto
qed

lemma sendAppendEntries_calm:
  assumes "\<And>req p. append_calm (cur_term s) (fst (sendRPC io req p))" and "sendAppendEntries io i s = Inr s'"
  shows "state s' = state s \<and> cur_term s' = cur_term s"
proof -
  from assms(2) obtain ae r p where rp: "sendRPC io (AppendEntries_serialize ae) (peers s ! i) = (r, p)"
    and h: "handle_append_reply i ae r (s\<lparr>peers := (peers s)[i := p]\<rparr>) = Inr s'"
    by (auto simp: sendAppendEntries_def elim!: bind_result_InrE split: prod.splits)
  have "append_calm (cur_term s) r" using assms(1) rp by (metis fst_conv)
  with h show ?thesis
    by (auto simp: handle_append_reply_def append_calm_def back_off_def Let_def not_less split: if_splits
        elim!: bind_result_InrE dest!: advanceCommitIndex_frame)
qed

lemma sendAll_calm:
  assumes "\<And>i req p. append_calm (cur_term s) (fst (sendRPC (io i) req p))" and "sendAll io s = Inr s'"
  shows "state s' = state s \<and> cur_term s' = cur_term s"
  using assms(2) unfolding sendAll_def
proof (rule for_each_inv [where P = "\<lambda>t. state t = state s \<and> cur_term t = cur_term s"])
  fix i t t' assume t: "state t = state s \<and> cur_term t = cur_term s"
    and "sendAppendEntries (io i) i t = Inr t'"
  with assms(1) [of i] sendAppendEntries_calm [of t "io i" i t']
  show "state t' = state s \<and> cur_term t' = cur_term s" by simp
qed simp

lemma becomeLeader_calm:
  assumes "\<And>i req p. append_calm (cur_term s) (fst (sendRPC (io i) req p))"
    and "state s = CANDIDATE" and "becomeLeader io s = Inr s'"
  shows "state s' = LEADER \<and> cur_term s' = cur_term s"
proof -
  from assms(2,3) obtain e x y z b where "sendAll io (on_store (append_entry e)
      (s\<lparr>state := LEADER, current_leader_id := x, nextIndex := y, matchIndex := z, noop_committed := b\<rparr>)) = Inr s'"
    (is "sendAll io ?l = _")
    unfolding becomeLeader_def take_office_def Let_def by simp
  from sendAll_calm [OF _ this] assms(1) show ?thesis by simp
qed

lemma startElection_wins:
  assumes ok: "node_ok s" and room: "log_room s" and wf: "\<And>k i. io_wf (io k i)"
    and calm: "\<forall>i < length (peers s). vote_calm (cur_term s + 1) (reply_of (io 0) payload s i)"
    and payload: "payload = RequestVote_serialize (make_RequestVote (election_begin ev s))"
    and votes: "majority s \<le> 1 + length (filter (\<lambda>i. vote_given (reply_of (io 0) payload s i)) [0..<length (peers s)])"
    and calm1: "\<And>i req p. append_calm (cur_term s + 1) (fst (sendRPC (io 1 i) req p))"
  shows "\<exists>s'. startElection ev io s = Inr s' \<and> state s' = LEADER \<and> cur_term s' = cur_term s + 1 \<and> node_ok s'
    \<and> log_of (store s') = log_of (store s) @ [mk_LogEntry (cur_term s + 1) (logLen (store s) + 1) (mk_Command NOOP [] [])]"
proof -
  let ?b = "election_begin ev s"
  note b = election_begin_eq [of ev s]
  have same: "reply_of (io 0) payload ?b i = reply_of (io 0) payload s i" for i by (simp add: reply_of_def b)
  obtain ps where ps: "election_loop ev (io 0) payload [0..<length (peers ?b)] 1 ?b =
      Inr (Some (1 + length (filter (\<lambda>i. vote_given (reply_of (io 0) payload s i)) [0..<length (peers s)])),
        ?b\<lparr>peers := ps\<rparr>)" "map peer_id ps = map peer_id (peers ?b)"
    using election_loop_calm [of "[0..<length (peers ?b)]" ?b "io 0" payload ev 1] calm same by (auto simp: b)
  let ?t = "?b\<lparr>peers := ps\<rparr>"
  have len: "length ps = length (peers s)" using map_eq_imp_length_eq [OF ps(2)] by (simp add: b)
  have okt: "node_ok ?t" using election_begin_node_ok [OF ok, of ev] len by (simp add: node_ok_def b)
  have pos: "logLen (store ?t) = logLen (store s)" by (simp add: election_begin_def reset_timer_def)
  have "log_room ?t" using room by (simp add: log_room_def b)
  with becomeLeader_ok [where io = "io 1", OF okt _ wf] obtain s' where s': "becomeLeader (io 1) ?t = Inr s'"
    "node_ok s'" "log_of (store s') = log_of (store ?t) @ [new_entry (mk_Command NOOP [] []) ?t]"
    by (auto simp: b)
  moreover have "state s' = LEADER \<and> cur_term s' = cur_term ?t"
    using becomeLeader_calm [OF _ _ s'(1)] calm1 by (simp add: b)
  moreover have "startElection ev io s = election_end (io 1)
      (1 + length (filter (\<lambda>i. vote_given (reply_of (io 0) payload s i)) [0..<length (peers s)])) ?t"
    using ps(1) by (simp add: startElection_def Let_def payload)
  ultimately show ?thesis using votes pos len
    by (simp add: election_end_def majority_def b)
qed

end
