(* ===== verification/Cluster.thy ===== *)
theory Cluster
  imports Election
begin

text \<open>
  A cluster of nodes and the interleavings of their threads. Each step is one locked region of
  \<^verbatim>\<open>RaftNode.h\<close>, or the part of \<^verbatim>\<open>sendAppendEntries\<close> in front of or behind its blocking call: the
  election is cut where \<^verbatim>\<open>startElection\<close> gives up the lock, so handlers of the same node run between
  the answers a candidate collects. Messages that were sent may arrive at any time, more than once
  or never; a candidate reads an answer to the request it is waiting for, or nothing; the answers
  to AppendEntries messages are arbitrary bytes. A node may crash between any two writes to its
  files and restart from what they hold. The results are election safety (no term has two leaders)
  and that the whole operations of the code, messages included, are runs of these steps.
\<close>

section \<open>Quorums\<close>

locale quorums =
  fixes quorum :: "'a set \<Rightarrow> bool"
  assumes meet: "quorum Q \<Longrightarrow> quorum R \<Longrightarrow> Q \<inter> R \<noteq> {}"
begin

lemma one_choice:
  assumes "\<And>p a b. chose p a \<Longrightarrow> chose p b \<Longrightarrow> a = b"
    and "quorum {p. chose p c}" and "quorum {p. chose p d}"
  shows "c = d"
  using meet [OF assms(2,3)] assms(1) by blast

end

text \<open>The majority the code asks for, \<^verbatim>\<open>(peers.size() + 1) / 2 + 1\<close>, among the members.\<close>

definition majority_of :: "c_int set \<Rightarrow> c_int set \<Rightarrow> bool" where
  "majority_of M Q \<longleftrightarrow> Q \<subseteq> M \<and> card M div 2 + 1 \<le> card Q"

interpretation mq: quorums "majority_of M" for M
proof
  fix Q R :: "c_int set"
  assume Q: "majority_of M Q" and R: "majority_of M R"
  then have "card (Q \<union> R) \<le> card M" by (auto simp: majority_of_def intro: card_mono)
  moreover have "card Q + card R = card (Q \<union> R) + card (Q \<inter> R)" by (rule card_Un_Int) simp_all
  ultimately have "card (Q \<inter> R) \<noteq> 0" using Q R by (auto simp: majority_of_def)
  then show "Q \<inter> R \<noteq> {}" by auto
qed

section \<open>Steps\<close>

text \<open>
  An election in progress: the message, the peers still to be asked, the count so far. The set
  of voters behind the count is recorded for the proof.
\<close>

record ballot =
  bl_msg :: RequestVote
  bl_todo :: "nat list"
  bl_votes :: nat
  bl_voters :: "c_int set"

text \<open>
  \<open>requests\<close> and \<open>appends\<close> are the messages sent so far. The last two fields are history: every
  vote given, as voter, term and candidate, and every election won.
\<close>

record Cluster =
  nodes :: "c_int \<Rightarrow> RaftNode"
  ballots :: "c_int \<Rightarrow> ballot option"
  requests :: "RequestVote set"
  answers :: "(c_int \<times> RequestVote \<times> RequestVoteResponse) set"
  appends :: "AppendEntries set"
  granted :: "(c_int \<times> u64 \<times> c_int) set"
  won :: "(u64 \<times> c_int) set"

text \<open>
  The steps of one node that need nothing of the others. \<open>call\<close> is the blocking call of
  \<^verbatim>\<open>sendAppendEntries\<close>. A leader's log stays below \<open>2 ^ 64 - 2\<close> entries, and the commands clients submit
  are those the wire format can express.
\<close>

inductive quiet_step :: "RaftNode \<Rightarrow> RaftNode \<Rightarrow> bool" where
  heartbeat: "state s = LEADER \<Longrightarrow> now - last_heartbeat s \<ge> 100 \<Longrightarrow>
    quiet_step s (s\<lparr>last_heartbeat := now\<rparr>)"
| call: "sendRPC io req (peers s ! i) = (r, p) \<Longrightarrow> quiet_step s (s\<lparr>peers := (peers s)[i := p]\<rparr>)"
| submit: "submit_append cmd s = Inr (idx, s') \<Longrightarrow> command_ok cmd \<Longrightarrow> log_room s \<Longrightarrow> quiet_step s s'"
| get: "get_append s = Inr (idx, s') \<Longrightarrow> log_room s \<Longrightarrow> quiet_step s s'"
| commit: "applyCommitted s = Inr s' \<Longrightarrow> quiet_step s s'"
| connect: "p = fst (backgroundConnect_step fd rc (peers s ! i)) \<Longrightarrow>
    quiet_step s (s\<lparr>peers := (peers s)[i := p]\<rparr>)"

text \<open>
  The part of \<^verbatim>\<open>sendAppendEntries\<close> behind the call, for any message and any answer: the callers in
  \<^verbatim>\<open>backgroundLoop\<close> and \<^verbatim>\<open>submit\<close> do not hold the lock there.
\<close>

inductive local_step :: "RaftNode \<Rightarrow> RaftNode \<Rightarrow> bool" where
  quiet: "quiet_step s s' \<Longrightarrow> local_step s s'"
| reply: "handle_append_reply i ae r s = Inr s' \<Longrightarrow> local_step s s'"

text \<open>
  What the files may hold when a node stops between two writes of an operation: the term is
  raised and the vote not yet cleared, or cleared and the log not yet touched; and the log is any
  prefix, since \<^verbatim>\<open>truncate\<close> empties the file and writes the kept records one by one. (A record that
  is itself cut short is no start of a node at all, see \<open>Recovery\<close>; the metadata file is replaced
  as a whole.)
\<close>

inductive crash_image :: "Storage \<Rightarrow> Storage \<Rightarrow> bool" where
  clean: "truncate_log k st = Inr st' \<Longrightarrow> crash_image st st'"
| raised: "getTerm st < t \<Longrightarrow> truncate_log k (setTerm t st) = Inr st' \<Longrightarrow> crash_image st st'"
| cleared: "getTerm st < t \<Longrightarrow> truncate_log k (setVoted [] (setTerm t st)) = Inr st' \<Longrightarrow> crash_image st st'"

abbreviation set_node :: "c_int \<Rightarrow> RaftNode \<Rightarrow> Cluster \<Rightarrow> Cluster" where
  "set_node c s cl \<equiv> cl\<lparr>nodes := (nodes cl)(c := s)\<rparr>"

text \<open>Elections: a timeout, a vote, an answer a candidate reads, and the end.\<close>

inductive election_step :: "c_int set \<Rightarrow> Cluster \<Rightarrow> Cluster \<Rightarrow> bool" for M where
  timeout: "c \<in> M \<Longrightarrow> s = nodes cl c \<Longrightarrow> ballots cl c = None \<Longrightarrow> state s \<noteq> LEADER \<Longrightarrow>
    fst (ev 2) - last_heartbeat s \<ge> current_timeout s \<Longrightarrow> cur_term s + 1 \<noteq> 0 \<Longrightarrow>
    s' = election_begin ev s \<Longrightarrow>
    election_step M cl
      ((set_node c s' cl)\<lparr>
        granted := insert (c, cur_term s', c) (granted cl),
        requests := insert (make_RequestVote s') (requests cl),
        ballots := (ballots cl)(c \<mapsto> \<lparr>bl_msg = make_RequestVote s',
          bl_todo = [0..<length (peers s')], bl_votes = 1, bl_voters = {c}\<rparr>)\<rparr>)"
| vote: "p \<in> M \<Longrightarrow> m \<in> requests cl \<Longrightarrow> handleRequestVote ev m (nodes cl p) = (r, s') \<Longrightarrow>
    election_step M cl
      ((set_node p s' cl)\<lparr>
        granted := (if vr_voteGranted r then insert (p, rv_term m, ucast (rv_candidateId m)) (granted cl)
                    else granted cl),
        answers := insert (p, m, r) (answers cl)\<rparr>)"
| answer: "c \<in> M \<Longrightarrow> s = nodes cl c \<Longrightarrow> ballots cl c = Some b \<Longrightarrow> bl_todo b = i # js \<Longrightarrow>
    sendRPC io (RequestVote_serialize (bl_msg b)) (peers s ! i) = (r, p) \<Longrightarrow>
    r = [] \<or> (\<exists>resp. r = RequestVoteResponse_serialize resp
                     \<and> (peer_id (peers s ! i), bl_msg b, resp) \<in> answers cl) \<Longrightarrow>
    election_reply ev r (bl_votes b) (s\<lparr>peers := (peers s)[i := p]\<rparr>) = Inr (v, s') \<Longrightarrow>
    election_step M cl
      ((set_node c s' cl)\<lparr>
        ballots := (ballots cl)(c := (case v of None \<Rightarrow> None
          | Some n \<Rightarrow> Some (b\<lparr>bl_todo := js, bl_votes := n,
              bl_voters := (if bl_votes b < n then insert (peer_id (peers s ! i)) (bl_voters b)
                            else bl_voters b)\<rparr>)))\<rparr>)"
| win: "c \<in> M \<Longrightarrow> s = nodes cl c \<Longrightarrow> ballots cl c = Some b \<Longrightarrow> bl_todo b = [] \<Longrightarrow>
    bl_votes b \<ge> majority s \<Longrightarrow> state s = CANDIDATE \<Longrightarrow> log_room s \<Longrightarrow>
    election_step M cl
      ((set_node c (take_office s) cl)\<lparr>
        ballots := (ballots cl)(c := None), won := insert (cur_term s, c) (won cl)\<rparr>)"
| lose: "c \<in> M \<Longrightarrow> s = nodes cl c \<Longrightarrow> ballots cl c = Some b \<Longrightarrow> bl_todo b = [] \<Longrightarrow>
    \<not> (bl_votes b \<ge> majority s \<and> state s = CANDIDATE) \<Longrightarrow>
    election_step M cl (cl\<lparr>ballots := (ballots cl)(c := None)\<rparr>)"

inductive cluster_step :: "c_int set \<Rightarrow> Cluster \<Rightarrow> Cluster \<Rightarrow> bool" for M where
  local: "c \<in> M \<Longrightarrow> local_step (nodes cl c) s' \<Longrightarrow> cluster_step M cl (set_node c s' cl)"
| send: "c \<in> M \<Longrightarrow> prepare_AppendEntries i (nodes cl c) = Inr ae \<Longrightarrow>
    cluster_step M cl (cl\<lparr>appends := insert ae (appends cl)\<rparr>)"
| receive: "p \<in> M \<Longrightarrow> ae \<in> appends cl \<Longrightarrow> handleAppendEntries ev ae (nodes cl p) = Inr (resp, s') \<Longrightarrow>
    cluster_step M cl (set_node p s' cl)"
| election: "election_step M cl cl' \<Longrightarrow> cluster_step M cl cl'"
| crash: "c \<in> M \<Longrightarrow> crash_image (store (nodes cl c)) st \<Longrightarrow>
    RaftNode_init ev c ps (st_disk st) = Inr s' \<Longrightarrow>
    map peer_id ps = map peer_id (peers (nodes cl c)) \<Longrightarrow>
    cluster_step M cl ((set_node c s' cl)\<lparr>ballots := (ballots cl)(c := None)\<rparr>)"

text \<open>
  At the start every member has an empty directory and knows every other member; node ids are
  not negative (a vote is stored as the decimal form of an unsigned 64-bit number).
\<close>

definition cluster_start :: "c_int set \<Rightarrow> Cluster \<Rightarrow> bool" where
  "cluster_start M cl \<longleftrightarrow>
     (\<forall>c \<in> M. 0 \<le> sint c \<and> (\<exists>ev ps. RaftNode_init ev c ps empty_disk = Inr (nodes cl c)
        \<and> distinct (map peer_id ps) \<and> set (map peer_id ps) = M - {c}))
     \<and> ballots cl = (\<lambda>c. None) \<and> requests cl = {} \<and> answers cl = {}
     \<and> appends cl = {} \<and> granted cl = {} \<and> won cl = {}"

inductive reachable :: "c_int set \<Rightarrow> Cluster \<Rightarrow> bool" for M where
  start: "cluster_start M cl \<Longrightarrow> reachable M cl"
| step: "reachable M cl \<Longrightarrow> cluster_step M cl cl' \<Longrightarrow> reachable M cl'"

lemma vote_step_take_office: "vote_step (s\<lparr>state := LEADER\<rparr>) (take_office s)"
  by (simp add: take_office_def Let_def vote_step_def)

lemma quiet_step_vote_step: "quiet_step s s' \<Longrightarrow> vote_step s s'"
proof (induction rule: quiet_step.induct)
  case (heartbeat s now)
  show ?case by (simp add: vote_step_def)
next
  case (connect p fd rc s i)
  then have "peer_id p = peer_id (peers s ! i)" by (simp add: backgroundConnect_step_def)
  then show ?case by (intro vote_step_unchanged) (simp_all add: map_update_same)
qed (auto simp: submit_append_eq get_append_eq vote_step_append_entry
    intro: vote_step_rpc vote_step_applyCommitted)

lemma local_step_vote_step: "local_step s s' \<Longrightarrow> vote_step s s'"
  by (auto elim!: local_step.cases intro: quiet_step_vote_step vote_step_handle_append_reply)

section \<open>Node ids as votes\<close>

lemma to_string_cint_inject [simp]: "to_string_cint a = to_string_cint b \<longleftrightarrow> a = b"
  by (auto simp: to_string_cint_def intro: signed_word_eqI)

lemma to_string_cint_not_Nil [simp]: "to_string_cint a \<noteq> []"
  by (simp add: to_string_cint_def to_string_int_def)

lemma candidate_id [simp]: "ucast (scast c :: u64) = c" for c :: c_int
  by (rule bit_word_eqI) (simp add: bit_simps)

text \<open>\<^verbatim>\<open>rpc.candidateId = node_id\<close> sign-extends; for ids that are not negative both print alike.\<close>

lemma candidate_string: "0 \<le> sint c \<Longrightarrow> to_string_u64 (scast c) = to_string_cint c" for c :: c_int
proof -
  assume pos: "0 \<le> sint c"
  have "uint (scast c :: u64) = sint c mod 2 ^ 64"
    by transfer (simp add: take_bit_eq_mod)
  also have "\<dots> = sint c" using pos sint_lt [of c] by (intro mod_pos_pos_trivial) simp_all
  finally have "unat (scast c :: u64) = nat (sint c)" by (simp add: unat_eq_nat_uint)
  with pos show ?thesis by (simp add: to_string_u64_def to_string_cint_def to_string_int_def)
qed

section \<open>The invariant\<close>

definition supporters :: "Cluster \<Rightarrow> u64 \<Rightarrow> c_int \<Rightarrow> c_int set" where
  "supporters cl t c = {p. (p, t, c) \<in> granted cl}"

definition member_ok :: "c_int set \<Rightarrow> Cluster \<Rightarrow> c_int \<Rightarrow> bool" where
  "member_ok M cl c \<longleftrightarrow> 0 \<le> sint c \<and> node_id (nodes cl c) = c
     \<and> distinct (map peer_id (peers (nodes cl c))) \<and> set (map peer_id (peers (nodes cl c))) = M - {c}
     \<and> meta_ok (store (nodes cl c))
     \<and> (state (nodes cl c) = LEADER \<longrightarrow> (cur_term (nodes cl c), c) \<in> won cl)"

text \<open>A vote that was given is still the voter's vote, as long as the voter is in that term.\<close>

definition vote_ok :: "c_int set \<Rightarrow> Cluster \<Rightarrow> c_int \<Rightarrow> u64 \<Rightarrow> c_int \<Rightarrow> bool" where
  "vote_ok M cl p t c \<longleftrightarrow> p \<in> M \<and> c \<in> M \<and> t \<le> cur_term (nodes cl p)
     \<and> (t = cur_term (nodes cl p) \<longrightarrow> getVoted (store (nodes cl p)) = to_string_cint c)
     \<and> (\<forall>d. (p, t, d) \<in> granted cl \<longrightarrow> d = c)"

definition ballot_ok :: "c_int set \<Rightarrow> Cluster \<Rightarrow> c_int \<Rightarrow> ballot \<Rightarrow> bool" where
  "ballot_ok M cl c b \<longleftrightarrow> rv_candidateId (bl_msg b) = scast c
     \<and> (state (nodes cl c) = CANDIDATE \<longrightarrow> cur_term (nodes cl c) = rv_term (bl_msg b))
     \<and> bl_voters b \<subseteq> supporters cl (rv_term (bl_msg b)) c
     \<and> card (bl_voters b) = bl_votes b
     \<and> distinct (bl_todo b) \<and> set (bl_todo b) \<subseteq> {..<length (peers (nodes cl c))}
     \<and> (\<forall>i \<in> set (bl_todo b). peer_id (peers (nodes cl c) ! i) \<notin> bl_voters b)"

definition cluster_inv :: "c_int set \<Rightarrow> Cluster \<Rightarrow> bool" where
  "cluster_inv M cl \<longleftrightarrow>
     (\<forall>c \<in> M. member_ok M cl c)
     \<and> (\<forall>p t c. (p, t, c) \<in> granted cl \<longrightarrow> vote_ok M cl p t c)
     \<and> (\<forall>m \<in> requests cl. \<exists>c \<in> M. rv_candidateId m = scast c)
     \<and> (\<forall>p m r. (p, m, r) \<in> answers cl \<longrightarrow> vr_voteGranted r \<longrightarrow>
          (p, rv_term m, ucast (rv_candidateId m)) \<in> granted cl)
     \<and> (\<forall>c \<in> M. \<forall>b. ballots cl c = Some b \<longrightarrow> ballot_ok M cl c b)
     \<and> (\<forall>t c. (t, c) \<in> won cl \<longrightarrow> majority_of M (supporters cl t c))"

text \<open>Its parts, as rules.\<close>

lemma cluster_invD:
  assumes "cluster_inv M cl"
  shows "c \<in> M \<Longrightarrow> member_ok M cl c" and "(p, t, c) \<in> granted cl \<Longrightarrow> vote_ok M cl p t c"
    and "m \<in> requests cl \<Longrightarrow> \<exists>c \<in> M. rv_candidateId m = scast c"
    and "(p, m, r) \<in> answers cl \<Longrightarrow> vr_voteGranted r \<Longrightarrow> (p, rv_term m, ucast (rv_candidateId m)) \<in> granted cl"
    and "c \<in> M \<Longrightarrow> ballots cl c = Some b \<Longrightarrow> ballot_ok M cl c b"
    and "(t, c) \<in> won cl \<Longrightarrow> majority_of M (supporters cl t c)"
  using assms unfolding cluster_inv_def by blast+

lemma cluster_invI:
  assumes "\<And>c. c \<in> M \<Longrightarrow> member_ok M cl c"
    and "\<And>p t c. (p, t, c) \<in> granted cl \<Longrightarrow> vote_ok M cl p t c"
    and "\<And>m. m \<in> requests cl \<Longrightarrow> \<exists>c \<in> M. rv_candidateId m = scast c"
    and "\<And>p m r. (p, m, r) \<in> answers cl \<Longrightarrow> vr_voteGranted r \<Longrightarrow>
      (p, rv_term m, ucast (rv_candidateId m)) \<in> granted cl"
    and "\<And>c b. c \<in> M \<Longrightarrow> ballots cl c = Some b \<Longrightarrow> ballot_ok M cl c b"
    and "\<And>t c. (t, c) \<in> won cl \<Longrightarrow> majority_of M (supporters cl t c)"
  shows "cluster_inv M cl"
  unfolding cluster_inv_def using assms by blast

section \<open>Preservation\<close>

text \<open>One node changes; terms do not fall and votes of the current term stay.\<close>

lemma inv_update:
  assumes inv: "cluster_inv M cl" and c: "c \<in> M" and s: "s = nodes cl c"
    and id: "node_id s' = node_id s" "map peer_id (peers s') = map peer_id (peers s)"
    and meta: "meta_ok (store s) \<Longrightarrow> meta_ok (store s')" and le: "cur_term s \<le> cur_term s'"
    and keep: "cur_term s' = cur_term s \<Longrightarrow> getVoted (store s) \<noteq> [] \<Longrightarrow> getVoted (store s') = getVoted (store s)"
    and lead: "state s' = LEADER \<Longrightarrow> (cur_term s', c) \<in> won cl"
    and cand: "\<And>b. ballots cl c = Some b \<Longrightarrow> state s' = CANDIDATE \<Longrightarrow> cur_term s' = rv_term (bl_msg b)"
  shows "cluster_inv M (set_node c s' cl)"
proof (rule cluster_invI)
  let ?cl = "set_node c s' cl"
  note D = cluster_invD [OF inv]
  have "member_ok M ?cl c"
    using D(1) [OF c] s id meta lead unfolding member_ok_def by (simp del: set_map)
  moreover have "member_ok M ?cl d = member_ok M cl d" if "d \<noteq> c" for d
    using that by (simp add: member_ok_def)
  ultimately show "member_ok M ?cl d" if "d \<in> M" for d
    using D(1) [OF that] by (cases "d = c") simp_all
  show "vote_ok M ?cl p t d" if "(p, t, d) \<in> granted ?cl" for p t d
  proof (cases "p = c")
    case True
    from that D(2) have v: "vote_ok M cl p t d" by simp
    then have "t \<le> cur_term s'" using True s le by (auto simp: vote_ok_def)
    moreover have "getVoted (store s') = to_string_cint d" if t: "t = cur_term s'"
    proof -
      have "cur_term s' = cur_term s" using v True s le t by (auto simp: vote_ok_def)
      with v True s t keep show ?thesis by (simp add: vote_ok_def)
    qed
    ultimately show ?thesis using v True by (simp add: vote_ok_def)
  next
    case False
    with that D(2) show ?thesis by (simp add: vote_ok_def)
  qed
  have len: "length (peers s') = length (peers s)" using id(2) by (rule map_eq_imp_length_eq)
  have ids: "peer_id (peers s' ! i) = peer_id (peers s ! i)" if "i < length (peers s)" for i
    using id(2) that len by (metis nth_map)
  show "ballot_ok M ?cl d b" if "d \<in> M" "ballots ?cl d = Some b" for d b
    using D(5) [of d b] that s cand len ids by (auto simp: ballot_ok_def supporters_def)
qed (use cluster_invD [OF inv] in \<open>auto simp: supporters_def\<close>)

lemma inv_vote_step:
  assumes inv: "cluster_inv M cl" and c: "c \<in> M" and v: "vote_step (nodes cl c) s'"
  shows "cluster_inv M (set_node c s' cl)"
proof (rule inv_update [OF inv c refl])
  note v' = v [unfolded vote_step_def]
  show "state s' = LEADER \<Longrightarrow> (cur_term s', c) \<in> won cl"
    using cluster_invD(1) [OF inv c] v' by (simp add: member_ok_def)
  show "cur_term s' = rv_term (bl_msg b)" if "ballots cl c = Some b" "state s' = CANDIDATE" for b
    using cluster_invD(5) [OF inv c that(1)] that v' by (simp add: ballot_ok_def)
qed (use v [unfolded vote_step_def] in simp_all)

text \<open>A vote is recorded for the candidate the voter has on disk.\<close>

lemma inv_grant:
  assumes inv: "cluster_inv M cl" and "p \<in> M" "c \<in> M" and t: "t = cur_term (nodes cl p)"
    and v: "getVoted (store (nodes cl p)) = to_string_cint c"
  shows "cluster_inv M (cl\<lparr>granted := insert (p, t, c) (granted cl)\<rparr>)" (is "cluster_inv M ?cl")
proof (rule cluster_invI)
  note D = cluster_invD [OF inv]
  have one: "d = c" if "(p, t, d) \<in> granted cl" for d
    using D(2) [OF that] t v by (simp add: vote_ok_def)
  show "vote_ok M ?cl q u d" if "(q, u, d) \<in> granted ?cl" for q u d
    using that D(2) [of q u d] one assms by (auto simp: vote_ok_def)
  have sup: "supporters cl u d \<subseteq> supporters ?cl u d" for u d by (auto simp: supporters_def)
  have "supporters ?cl u d \<subseteq> M" for u d
    using D(2) assms(2) by (auto simp: supporters_def vote_ok_def)
  then show "majority_of M (supporters ?cl u d)" if "(u, d) \<in> won ?cl" for u d
    using D(6) [of u d] that card_mono [OF _ sup, of u d] by (simp add: majority_of_def) 
  show "ballot_ok M ?cl d b" if "d \<in> M" "ballots ?cl d = Some b" for d b
    using D(5) [of d b] that sup [of "rv_term (bl_msg b)" d] by (auto simp: ballot_ok_def)
qed (use cluster_invD [OF inv] in \<open>auto simp: member_ok_def\<close>)

text \<open>The other parts of the state change one at a time.\<close>

lemma inv_ballot:
  assumes "cluster_inv M cl" and "\<And>b. x = Some b \<Longrightarrow> ballot_ok M cl c b"
  shows "cluster_inv M (cl\<lparr>ballots := (ballots cl)(c := x)\<rparr>)"
  by (rule cluster_invI)
    (use assms cluster_invD [OF assms(1)] in
      \<open>auto simp: member_ok_def vote_ok_def ballot_ok_def supporters_def split: if_splits\<close>)

lemma inv_request:
  assumes "cluster_inv M cl" and "rv_candidateId m = scast c" and "c \<in> M"
  shows "cluster_inv M (cl\<lparr>requests := insert m (requests cl)\<rparr>)"
  by (rule cluster_invI)
    (use assms cluster_invD [OF assms(1)] in
      \<open>auto simp: member_ok_def vote_ok_def ballot_ok_def supporters_def\<close>)

lemma inv_answer:
  assumes "cluster_inv M cl" and "vr_voteGranted r \<Longrightarrow> (p, rv_term m, ucast (rv_candidateId m)) \<in> granted cl"
  shows "cluster_inv M (cl\<lparr>answers := insert (p, m, r) (answers cl)\<rparr>)"
  by (rule cluster_invI)
    (use assms cluster_invD [OF assms(1)] in
      \<open>auto simp: member_ok_def vote_ok_def ballot_ok_def supporters_def\<close>)

lemma inv_won:
  assumes "cluster_inv M cl" and "majority_of M (supporters cl t c)"
  shows "cluster_inv M (cl\<lparr>won := insert (t, c) (won cl)\<rparr>)"
  by (rule cluster_invI)
    (use assms cluster_invD [OF assms(1)] in
      \<open>auto simp: member_ok_def vote_ok_def ballot_ok_def supporters_def\<close>)

lemma inv_timeout:
  assumes inv: "cluster_inv M cl" and c: "c \<in> M" and s: "s = nodes cl c" and none: "ballots cl c = None"
    and room: "cur_term s + 1 \<noteq> 0" and s': "s' = election_begin ev s"
  shows "cluster_inv M ((set_node c s' cl)\<lparr>
        granted := insert (c, cur_term s', c) (granted cl),
        requests := insert (make_RequestVote s') (requests cl),
        ballots := (ballots cl)(c \<mapsto> \<lparr>bl_msg = make_RequestVote s',
          bl_todo = [0..<length (peers s')], bl_votes = 1, bl_voters = {c}\<rparr>)\<rparr>)"
proof -
  note m = cluster_invD(1) [OF inv c, unfolded member_ok_def, folded s]
  note e = election_begin_eq [of ev s, folded s']
  have "cur_term s < cur_term s + 1"
    using room unatSuc [of "cur_term s"] by (simp add: word_less_nat_alt add.commute)
  then have "cluster_inv M (set_node c s' cl)"
    by (intro inv_update [OF inv c s])
      (use e none in \<open>auto simp: s' election_begin_def reset_timer_def length_to_string_cint [simplified]\<close>)
  then have "cluster_inv M ((set_node c s' cl)\<lparr>granted := insert (c, cur_term s', c) (granted cl)\<rparr>)"
    using inv_grant [of M "set_node c s' cl" c c] c e m by simp
  then have *: "cluster_inv M ((set_node c s' cl)\<lparr>granted := insert (c, cur_term s', c) (granted cl),
      requests := insert (make_RequestVote s') (requests cl)\<rparr>)" (is "cluster_inv M ?cl")
    using inv_request [OF _ _ c, where m = "make_RequestVote s'"] e(4) m
    by (fastforce simp: make_RequestVote_def)
  have others: "peer_id (peers s ! i) \<noteq> c" if "i < length (peers s)" for i
    using m that by (metis Diff_iff length_map nth_map nth_mem singletonI)
  let ?b = "\<lparr>bl_msg = make_RequestVote s', bl_todo = [0..<length (peers s')], bl_votes = 1, bl_voters = {c}\<rparr>"
  have "ballot_ok M ?cl c ?b"
    using m e others by (auto simp: ballot_ok_def make_RequestVote_def supporters_def)
  with * have "cluster_inv M (?cl\<lparr>ballots := (ballots ?cl)(c := Some ?b)\<rparr>)"
    by (intro inv_ballot) simp_all
  then show ?thesis by simp
qed

lemma inv_vote:
  assumes inv: "cluster_inv M cl" and p: "p \<in> M" and m: "m \<in> requests cl"
    and call: "handleRequestVote ev m (nodes cl p) = (r, s')"
  shows "cluster_inv M ((set_node p s' cl)\<lparr>
        granted := (if vr_voteGranted r then insert (p, rv_term m, ucast (rv_candidateId m)) (granted cl)
                    else granted cl),
        answers := insert (p, m, r) (answers cl)\<rparr>)"
proof -
  from cluster_invD(3) [OF inv m] obtain c where c: "c \<in> M" "rv_candidateId m = scast c" by blast
  have 1: "cluster_inv M (set_node p s' cl)"
    by (rule inv_vote_step [OF inv p vote_step_handleRequestVote [OF call]])
  show ?thesis
  proof (cases "vr_voteGranted r")
    case True
    note h = handleRequestVote_eq [OF call]
    have g: "grants m (nodes cl p)" using True h(1) by simp
    have "0 \<le> sint c" using cluster_invD(1) [OF inv c(1)] by (simp add: member_ok_def)
    then have "getVoted (store s') = to_string_cint c" using g h(4) c(2) by (simp add: candidate_string)
    moreover have "rv_term m = cur_term s'" using g h(3) by (simp add: grants_def max_def)
    ultimately have "cluster_inv M ((set_node p s' cl)\<lparr>granted := insert (p, rv_term m, c) (granted cl)\<rparr>)"
      using inv_grant [OF 1 p c(1)] by simp
    then show ?thesis
      using inv_answer [of M "(set_node p s' cl)\<lparr>granted := insert (p, rv_term m, c) (granted cl)\<rparr>" r p m] c True
      by simp
  next
    case False
    with inv_answer [OF 1, of r p m] show ?thesis by simp
  qed
qed

lemma election_reply_counts:
  assumes "election_reply ev r n s = Inr (Some k, s')"
  shows "s' = s \<and> (k = n \<or> k = Suc n \<and>
    (\<exists>resp. RequestVoteResponse_deserialize r = Inr resp \<and> vr_voteGranted resp \<and> r \<noteq> []))"
  using assms by (auto simp: election_reply_def split: if_splits elim!: bind_result_InrE)

lemma inv_reply:
  assumes inv: "cluster_inv M cl" and c: "c \<in> M" and s: "s = nodes cl c" and b: "ballots cl c = Some b"
    and todo: "bl_todo b = i # js"
    and rpc: "sendRPC io (RequestVote_serialize (bl_msg b)) (peers s ! i) = (r, p)"
    and net: "r = [] \<or> (\<exists>resp. r = RequestVoteResponse_serialize resp
                     \<and> (peer_id (peers s ! i), bl_msg b, resp) \<in> answers cl)"
    and call: "election_reply ev r (bl_votes b) (s\<lparr>peers := (peers s)[i := p]\<rparr>) = Inr (v, s')"
  shows "cluster_inv M ((set_node c s' cl)\<lparr>
        ballots := (ballots cl)(c := (case v of None \<Rightarrow> None
          | Some n \<Rightarrow> Some (b\<lparr>bl_todo := js, bl_votes := n,
              bl_voters := (if bl_votes b < n then insert (peer_id (peers s ! i)) (bl_voters b)
                            else bl_voters b)\<rparr>)))\<rparr>)"
proof -
  let ?q = "peer_id (peers s ! i)" and ?cl = "set_node c s' cl"
  have "vote_step s s'"
    using vote_step_rpc [OF rpc] vote_step_election_reply [OF call] by (blast intro: vote_step_trans)
  then have 1: "cluster_inv M ?cl" and ids: "map peer_id (peers s') = map peer_id (peers s)"
    using inv_vote_step [OF inv c] s by (simp_all add: vote_step_def)
  have ok: "ballot_ok M ?cl c b" using cluster_invD(5) [OF 1 c] b by simp
  note ok' = ok [unfolded ballot_ok_def, simplified]
  have dist: "distinct (map peer_id (peers s'))"
    using cluster_invD(1) [OF 1 c] by (simp add: member_ok_def)
  have i: "i < length (peers s')" using ok' todo by auto
  then have q: "peer_id (peers s' ! i) = ?q" using ids map_eq_imp_length_eq [OF ids] by (metis nth_map)
  have others: "peer_id (peers s' ! j) \<noteq> ?q" if "j \<in> set js" for j
  proof -
    from that ok' todo have "j < length (peers s')" "j \<noteq> i" by auto
    with dist i have "map peer_id (peers s') ! j \<noteq> map peer_id (peers s') ! i"
      by (subst nth_eq_iff_index_eq) simp_all
    with \<open>j < length (peers s')\<close> i q show ?thesis by simp
  qed
  have "ballot_ok M ?cl c (b\<lparr>bl_todo := js, bl_votes := n,
      bl_voters := (if bl_votes b < n then insert ?q (bl_voters b) else bl_voters b)\<rparr>)"
    if v: "v = Some n" for n
  proof (cases "n = bl_votes b")
    case True
    with ok todo show ?thesis by (simp add: ballot_ok_def)
  next
    case False
    with election_reply_counts [OF call [unfolded v]] obtain resp where n: "n = Suc (bl_votes b)"
      and resp: "RequestVoteResponse_deserialize r = Inr resp" "vr_voteGranted resp" "r \<noteq> []" by auto
    with net RequestVoteResponse_roundtrip_append [of _ "[]"] have "(?q, bl_msg b, resp) \<in> answers cl" by auto
    with cluster_invD(4) [OF inv] resp ok' have "(?q, rv_term (bl_msg b), c) \<in> granted cl" by fastforce
    moreover have "?q \<notin> bl_voters b" using ok' todo q by auto
    moreover have "finite (bl_voters b)" by simp
    ultimately show ?thesis using ok' todo others n
      by (auto simp: ballot_ok_def supporters_def)
  qed
  then have "ballot_ok M ?cl c b'" if "(case v of None \<Rightarrow> None
      | Some n \<Rightarrow> Some (b\<lparr>bl_todo := js, bl_votes := n,
          bl_voters := (if bl_votes b < n then insert ?q (bl_voters b) else bl_voters b)\<rparr>)) = Some b'" for b'
    using that by (cases v) auto
  from inv_ballot [OF 1 this] show ?thesis by simp
qed

text \<open>A member's peers are the others.\<close>

lemma member_count:
  assumes ok: "member_ok M cl c" and c: "c \<in> M"
  shows "length (peers (nodes cl c)) + 1 = card M"
proof -
  let ?ps = "map peer_id (peers (nodes cl c))"
  have "distinct ?ps" "set ?ps = M - {c}" using ok by (simp_all add: member_ok_def del: set_map distinct_map)
  then have "length (peers (nodes cl c)) = card (M - {c})" by (metis distinct_card length_map)
  with c show ?thesis by (metis Suc_eq_plus1 card_Suc_Diff1 finite)
qed

text \<open>The count of a finished election is a majority of the members.\<close>

lemma ballot_majority:
  assumes inv: "cluster_inv M cl" and c: "c \<in> M" and b: "ballots cl c = Some b"
    and maj: "majority (nodes cl c) \<le> bl_votes b"
  shows "majority_of M (supporters cl (rv_term (bl_msg b)) c)"
proof -
  let ?Q = "supporters cl (rv_term (bl_msg b)) c"
  have ok: "ballot_ok M cl c b" by (rule cluster_invD(5) [OF inv c b])
  have n: "length (peers (nodes cl c)) + 1 = card M" by (rule member_count [OF cluster_invD(1) [OF inv c] c])
  have "card (bl_voters b) \<le> card ?Q" using ok by (intro card_mono) (simp_all add: ballot_ok_def)
  with ok maj n have "card M div 2 + 1 \<le> card ?Q" by (simp add: ballot_ok_def majority_def)
  moreover have "?Q \<subseteq> M" using cluster_invD(2) [OF inv] by (auto simp: supporters_def vote_ok_def)
  ultimately show ?thesis by (simp add: majority_of_def)
qed

lemma inv_elected:
  assumes inv: "cluster_inv M cl" and c: "c \<in> M" and s: "s = nodes cl c" and b: "ballots cl c = Some b"
    and maj: "bl_votes b \<ge> majority s" and cand: "state s = CANDIDATE"
  shows "cluster_inv M ((set_node c (s\<lparr>state := LEADER\<rparr>) cl)\<lparr>
        ballots := (ballots cl)(c := None), won := insert (cur_term s, c) (won cl)\<rparr>)"
proof -
  have 0: "cluster_inv M (cl\<lparr>ballots := (ballots cl)(c := None)\<rparr>)" (is "cluster_inv M ?cl")
    by (rule inv_ballot [OF inv]) simp
  let ?won = "?cl\<lparr>won := insert (cur_term s, c) (won cl)\<rparr>"
  have "cur_term s = rv_term (bl_msg b)"
    using cluster_invD(5) [OF inv c b] cand s by (simp add: ballot_ok_def)
  then have "majority_of M (supporters ?cl (cur_term s) c)"
    using ballot_majority [OF inv c b] maj s by (simp add: supporters_def)
  from inv_won [OF 0 this] have 1: "cluster_inv M ?won" by simp
  have "cluster_inv M (set_node c (s\<lparr>state := LEADER\<rparr>) ?won)"
    by (rule inv_update [OF 1 c, of s]) (simp_all add: s)
  moreover have "set_node c (s\<lparr>state := LEADER\<rparr>) ?won = (set_node c (s\<lparr>state := LEADER\<rparr>) cl)\<lparr>
      ballots := (ballots cl)(c := None), won := insert (cur_term s, c) (won cl)\<rparr>"
    by (rule Cluster.equality) simp_all
  ultimately show ?thesis by (rule back_subst)
qed

lemma inv_win:
  assumes "cluster_inv M cl" and c: "c \<in> M" and "s = nodes cl c" and "ballots cl c = Some b"
    and "bl_votes b \<ge> majority s" and "state s = CANDIDATE"
  shows "cluster_inv M ((set_node c (take_office s) cl)\<lparr>
        ballots := (ballots cl)(c := None), won := insert (cur_term s, c) (won cl)\<rparr>)" (is "cluster_inv M ?cl")
proof -
  let ?led = "(set_node c (s\<lparr>state := LEADER\<rparr>) cl)\<lparr>
        ballots := (ballots cl)(c := None), won := insert (cur_term s, c) (won cl)\<rparr>"
  have "cluster_inv M (set_node c (take_office s) ?led)"
    by (rule inv_vote_step [OF inv_elected [OF assms] c]) (simp add: vote_step_take_office)
  moreover have "set_node c (take_office s) ?led = ?cl" by (rule Cluster.equality) simp_all
  ultimately show ?thesis by (rule back_subst)
qed

lemma inv_append:
  assumes "cluster_inv M cl"
  shows "cluster_inv M (cl\<lparr>appends := A\<rparr>)"
  by (rule cluster_invI)
    (use assms cluster_invD [OF assms(1)] in
      \<open>auto simp: member_ok_def vote_ok_def ballot_ok_def supporters_def\<close>)

text \<open>A restart finds the term and the vote in \<^verbatim>\<open>raft.meta\<close> and starts as a follower.\<close>

lemma replay_frame:
  assumes "replay s = Inr s'"
  shows "node_id s' = node_id s \<and> peers s' = peers s \<and> state s' = state s
    \<and> cur_term s' = cur_term s \<and> getVoted (store s') = getVoted (store s)
    \<and> meta_ok (store s') = meta_ok (store s)"
  using assms by (auto simp: replay_def Let_def split: if_splits elim!: bind_result_InrE)

lemma RaftNode_init_meta:
  assumes "RaftNode_init ev c ps (st_disk st) = Inr s" and "meta_ok st"
  shows "node_id s = c \<and> peers s = ps \<and> state s = FOLLOWER \<and> cur_term s = getTerm st
    \<and> getVoted (store s) = getVoted st \<and> meta_ok (store s)"
  using assms
  by (auto simp: RaftNode_init_def reset_timer_def elim!: bind_result_InrE
      dest!: replay_frame Storage_open_meta)

lemma crash_image_meta:
  assumes "crash_image st st'" and "meta_ok st"
  shows "meta_ok st' \<and> getTerm st \<le> getTerm st' \<and> (getTerm st' = getTerm st \<longrightarrow> getVoted st' = getVoted st)"
  using assms
proof cases
  case (clean k)
  with assms(2) truncate_log_frame [OF clean] meta_ok_truncate [OF clean] show ?thesis by simp
next
  case (raised t k)
  with assms(2) truncate_log_frame [OF raised(2)] meta_ok_truncate [OF raised(2)] show ?thesis by simp
next
  case (cleared t k)
  with assms(2) truncate_log_frame [OF cleared(2)] meta_ok_truncate [OF cleared(2)] show ?thesis by auto
qed

lemma crash_vote_step:
  assumes inv: "cluster_inv M cl" and c: "c \<in> M" and img: "crash_image (store (nodes cl c)) st"
    and init: "RaftNode_init ev c ps (st_disk st) = Inr s'"
    and ps: "map peer_id ps = map peer_id (peers (nodes cl c))"
  shows "vote_step (nodes cl c) s' \<and> state s' = FOLLOWER"
proof -
  have m: "meta_ok (store (nodes cl c))" "node_id (nodes cl c) = c"
    using cluster_invD(1) [OF inv c] by (simp_all add: member_ok_def)
  note img' = crash_image_meta [OF img m(1)]
  have "meta_ok st" using img' by blast
  from RaftNode_init_meta [OF init this] img' m ps show ?thesis by (simp add: vote_step_def)
qed

lemma inv_crash:
  assumes "cluster_inv M cl" and "c \<in> M" and "crash_image (store (nodes cl c)) st"
    and "RaftNode_init ev c ps (st_disk st) = Inr s'"
    and "map peer_id ps = map peer_id (peers (nodes cl c))"
  shows "cluster_inv M ((set_node c s' cl)\<lparr>ballots := (ballots cl)(c := None)\<rparr>)"
  using inv_ballot [OF inv_vote_step [OF assms(1,2) conjunct1 [OF crash_vote_step [OF assms]]], of None c]
  by simp

lemma inv_election_step: "election_step M cl cl' \<Longrightarrow> cluster_inv M cl \<Longrightarrow> cluster_inv M cl'"
proof (induction rule: election_step.induct)
  case (timeout c s cl ev s')
  then show ?case by (intro inv_timeout [where s = s]) simp_all
next
  case (vote p m cl ev r s')
  then show ?case by (blast intro: inv_vote)
next
  case (answer c s cl b i js io r p ev v s')
  from inv_reply [OF answer(8,1-7)] show ?case .
next
  case (win c s cl b)
  then show ?case by (intro inv_win) simp_all
next
  case (lose c s cl b)
  then show ?case by (intro inv_ballot) simp_all
qed

lemma cluster_inv_step: "cluster_step M cl cl' \<Longrightarrow> cluster_inv M cl \<Longrightarrow> cluster_inv M cl'"
proof (induction rule: cluster_step.induct)
  case (local c cl s')
  then show ?case by (blast intro: inv_vote_step local_step_vote_step)
next
  case (receive p ae cl ev resp s')
  then show ?case by (blast intro: inv_vote_step vote_step_handleAppendEntries)
qed (blast intro: inv_append inv_crash inv_election_step)+

lemma cluster_inv_start: "cluster_start M cl \<Longrightarrow> cluster_inv M cl"
proof (rule cluster_invI)
  assume start: "cluster_start M cl"
  show "member_ok M cl c" if "c \<in> M" for c
  proof -
    let ?st = "\<lparr>log_fd = Appending, st_disk = empty_disk, st_term = 0, st_last_log_term = 0, st_voted = [],
      st_log_length = 0, st_commitIndex = 0, st_lastApplied = 0\<rparr>"
    from start that obtain ev ps where "RaftNode_init ev c ps (st_disk ?st) = Inr (nodes cl c)"
      and "0 \<le> sint c" "distinct (map peer_id ps)" "set (map peer_id ps) = M - {c}"
      by (auto simp: cluster_start_def)
    moreover have "meta_ok ?st" by (simp add: meta_ok_def empty_disk_def)
    ultimately show ?thesis using RaftNode_init_meta by (fastforce simp: member_ok_def)
  qed
qed (simp_all add: cluster_start_def)

lemma cluster_inv_reachable: "reachable M cl \<Longrightarrow> cluster_inv M cl"
  by (induction rule: reachable.induct) (auto intro: cluster_inv_start cluster_inv_step)

text \<open>Votes are never given twice, and winners are unique.\<close>

lemma granted_unique:
  assumes "cluster_inv M cl" and "(p, t, c) \<in> granted cl" and "(p, t, d) \<in> granted cl"
  shows "c = d"
  using cluster_invD(2) [OF assms(1,2)] assms(3) by (simp add: vote_ok_def)

lemma won_unique:
  assumes inv: "cluster_inv M cl" and "(t, c) \<in> won cl" and "(t, d) \<in> won cl"
  shows "c = d"
  by (rule mq.one_choice [of "\<lambda>p a. (p, t, a) \<in> granted cl" M])
    (use granted_unique [OF inv] cluster_invD(6) [OF inv] assms(2,3) in \<open>auto simp: supporters_def\<close>)

section \<open>One step as one node sees it\<close>

text \<open>
  Terms never fall, a vote stays within its term, leaders come from candidates of the same term
  and candidates from a new term.
\<close>

definition role_step :: "RaftNode \<Rightarrow> RaftNode \<Rightarrow> bool" where
  "role_step s s' \<longleftrightarrow> cur_term s \<le> cur_term s' \<and> node_id s' = node_id s
     \<and> (cur_term s' = cur_term s \<longrightarrow> getVoted (store s) \<noteq> [] \<longrightarrow> getVoted (store s') = getVoted (store s))
     \<and> (state s' = LEADER \<longrightarrow> state s \<noteq> FOLLOWER \<and> cur_term s' = cur_term s)
     \<and> (state s' = CANDIDATE \<longrightarrow> state s = CANDIDATE \<and> cur_term s' = cur_term s \<or> cur_term s' = cur_term s + 1)"

lemma role_step_vote_step: "vote_step s s' \<Longrightarrow> role_step s s'"
  by (auto simp: role_step_def vote_step_def)

lemma role_step_refl [simp]: "role_step s s"
  by (cases "state s") (auto simp: role_step_def)

lemma election_step_node: "election_step M cl cl' \<Longrightarrow> role_step (nodes cl d) (nodes cl' d)"
proof (induction rule: election_step.induct)
  case (timeout c s cl ev s')
  have "cur_term s < cur_term s + 1"
    using timeout(6) unatSuc [of "cur_term s"] by (simp add: word_less_nat_alt add.commute)
  then have "role_step s s'" unfolding timeout(7) role_step_def by (simp add: election_begin_eq)
  with timeout(2) show ?case by simp
next
  case (vote p m cl ev r s')
  then show ?case using vote_step_handleRequestVote role_step_vote_step by simp
next
  case (answer c s cl b i js io r p ev v s')
  have "vote_step s s'"
    using vote_step_rpc [OF answer(5)] vote_step_election_reply [OF answer(7)] by (blast intro: vote_step_trans)
  with answer(2) role_step_vote_step show ?case by simp
next
  case (win c s cl b)
  then have "role_step s (take_office s)" by (simp add: role_step_def)
  with win(2) show ?case by simp
qed simp

lemma cluster_step_node:
  assumes "cluster_step M cl cl'" and inv: "cluster_inv M cl"
  shows "role_step (nodes cl d) (nodes cl' d)"
  using assms
proof (induction rule: cluster_step.induct)
  case (local c cl s')
  then show ?case using local_step_vote_step role_step_vote_step by simp
next
  case (receive p ae cl ev resp s')
  then show ?case using vote_step_handleAppendEntries role_step_vote_step by simp
next
  case (election cl cl')
  then show ?case by (blast intro: election_step_node)
next
  case (crash c cl st ev ps s')
  from crash_vote_step [OF crash(5,1-4)] role_step_vote_step show ?case by simp
qed simp

section \<open>Orderly runs\<close>

text \<open>
  The runs without the three behaviours that the code does not guard against: only a leader sends
  AppendEntries messages, and reads the answers (those a receiver gave, or none) in the term it
  sent them in; a node stops between operations, and only when its whole log is committed. The
  argument next to the cluster collects the answers given.
\<close>

type_synonym given = "(c_int \<times> AppendEntries \<times> AppendEntriesResponse) set"

inductive orderly_step :: "c_int set \<Rightarrow> Cluster \<Rightarrow> given \<Rightarrow> Cluster \<Rightarrow> given \<Rightarrow> bool" for M where
  quiet: "c \<in> M \<Longrightarrow> quiet_step (nodes cl c) s' \<Longrightarrow> orderly_step M cl A (set_node c s' cl) A"
| send: "c \<in> M \<Longrightarrow> state (nodes cl c) = LEADER \<Longrightarrow> prepare_AppendEntries i (nodes cl c) = Inr ae \<Longrightarrow>
    orderly_step M cl A (cl\<lparr>appends := insert ae (appends cl)\<rparr>) A"
| receive: "p \<in> M \<Longrightarrow> ae \<in> appends cl \<Longrightarrow> handleAppendEntries ev ae (nodes cl p) = Inr (resp, s') \<Longrightarrow>
    orderly_step M cl A (set_node p s' cl) (insert (p, ae, resp) A)"
| reply: "c \<in> M \<Longrightarrow> s = nodes cl c \<Longrightarrow> state s = LEADER \<Longrightarrow> ae \<in> appends cl \<Longrightarrow>
    ae_term ae = cur_term s \<Longrightarrow> i < length (peers s) \<Longrightarrow>
    r = [] \<or> (\<exists>resp. r = AppendEntriesResponse_serialize resp \<and> (peer_id (peers s ! i), ae, resp) \<in> A) \<Longrightarrow>
    handle_append_reply i ae r s = Inr s' \<Longrightarrow> orderly_step M cl A (set_node c s' cl) A"
| election: "election_step M cl cl' \<Longrightarrow> orderly_step M cl A cl' A"
| restart: "c \<in> M \<Longrightarrow> unat (getCommit (store (nodes cl c))) = length (log_of (store (nodes cl c))) \<Longrightarrow>
    RaftNode_init ev c ps (st_disk (store (nodes cl c))) = Inr s' \<Longrightarrow>
    map peer_id ps = map peer_id (peers (nodes cl c)) \<Longrightarrow>
    orderly_step M cl A ((set_node c s' cl)\<lparr>ballots := (ballots cl)(c := None)\<rparr>) A"

text \<open>From any state on, and from the start.\<close>

inductive orderly_run :: "c_int set \<Rightarrow> Cluster \<Rightarrow> given \<Rightarrow> Cluster \<Rightarrow> given \<Rightarrow> bool" for M cl A where
  here: "orderly_run M cl A cl A"
| onward: "orderly_run M cl A cl1 A1 \<Longrightarrow> orderly_step M cl1 A1 cl2 A2 \<Longrightarrow> orderly_run M cl A cl2 A2"

inductive orderly :: "c_int set \<Rightarrow> Cluster \<Rightarrow> given \<Rightarrow> bool" for M where
  start: "cluster_start M cl \<Longrightarrow> orderly M cl {}"
| step: "orderly M cl A \<Longrightarrow> orderly_step M cl A cl' A' \<Longrightarrow> orderly M cl' A'"

lemma orderly_onward: "orderly_run M cl A cl' A' \<Longrightarrow> orderly M cl A \<Longrightarrow> orderly M cl' A'"
  by (induction rule: orderly_run.induct) (auto intro: orderly.step)

lemma orderly_step_run: "orderly_step M cl A cl' A' \<Longrightarrow> orderly_run M cl A cl' A'"
  by (rule orderly_run.onward [OF orderly_run.here])

lemmas orderly_send = orderly.step [OF _ orderly_step.send]
  and orderly_receive = orderly.step [OF _ orderly_step.receive]
  and orderly_election = orderly.step [OF _ orderly_step.election]

text \<open>Orderly steps are steps of the cluster; a restart crashes between two operations.\<close>

lemma orderly_step_cluster: "orderly_step M cl A cl' A' \<Longrightarrow> cluster_step M cl cl'"
proof (induction rule: orderly_step.induct)
  case (restart c cl ev ps s' A)
  have "truncate_log (getLastLogIndex (store (nodes cl c))) (store (nodes cl c)) = Inr (store (nodes cl c))"
    by (simp add: truncate_log_def)
  then have "crash_image (store (nodes cl c)) (store (nodes cl c))" by (rule crash_image.clean)
  from cluster_step.crash [OF restart(1) this restart(3,4)] show ?case .
qed (blast intro: cluster_step.local cluster_step.send cluster_step.receive cluster_step.election
    local_step.quiet local_step.reply)+

lemma orderly_reachable: "orderly M cl A \<Longrightarrow> reachable M cl"
  by (induction rule: orderly.induct) (auto intro: reachable.start reachable.step orderly_step_cluster)

end
