(* ===== verification/ClusterRun.thy ===== *)
theory ClusterRun
  imports Cluster
begin

text \<open>
  Runs of a three node cluster, as concrete inputs for the statements about clusters. A member
  that times out and is given one vote becomes leader (\<open>elected\<close>); node 1 does so in term 1 with
  the vote of node 2, while node 3 does not answer. A round of replication copies what the leader
  has and its peer lacks, is counted by the leader, and a second message tells the peer about the
  new commit index (\<open>round\<close>).
\<close>

definition members3 :: "c_int set" where
  "members3 = {1, 2, 3}"

definition peers3 :: "c_int \<Rightarrow> Peer list" where
  "peers3 c = map (\<lambda>p. Peer_init p ''127.0.0.1'' (7000 + p)) (filter (\<lambda>p. p \<noteq> c) [1, 2, 3])"

definition start3 :: Cluster where
  "start3 = \<lparr>nodes = (\<lambda>c. fresh_node c (peers3 c)), ballots = (\<lambda>c. None), requests = {},
     answers = {}, appends = {}, granted = {}, won = {}\<rparr>"

lemma start3_orderly: "orderly members3 start3 {}"
proof (rule orderly.start)
  have "0 \<le> sint c \<and> (\<exists>ev ps. RaftNode_init ev c ps empty_disk = Inr (nodes start3 c)
      \<and> distinct (map peer_id ps) \<and> set (map peer_id ps) = members3 - {c})" if "c \<in> members3" for c
  proof (intro conjI exI)
    show "RaftNode_init (\<lambda>k. (0, 0)) c (peers3 c) empty_disk = Inr (nodes start3 c)"
      by (simp add: RaftNode_init_fresh start3_def)
  qed (use that in \<open>auto simp: members3_def peers3_def Peer_init_def\<close>)
  then show "cluster_start members3 start3" by (simp add: cluster_start_def start3_def)
qed

definition candidate1 :: RaftNode where
  "candidate1 = election_begin (\<lambda>k. (5000, 0)) (fresh_node 1 (peers3 1))"

definition asked1 :: Cluster where
  "asked1 = (set_node 1 candidate1 start3)\<lparr>
     granted := {(1, 1, 1)}, requests := {make_RequestVote candidate1},
     ballots := (ballots start3)(1 \<mapsto> \<lparr>bl_msg = make_RequestVote candidate1, bl_todo = [0, 1],
       bl_votes = 1, bl_voters = {1}\<rparr>)\<rparr>"

lemma candidate1_sel:
  "cur_term candidate1 = 1" "peers candidate1 = peers3 1" "node_id candidate1 = 1"
  "state candidate1 = CANDIDATE" "length (peers3 1) = 2"
  by (simp_all add: candidate1_def election_begin_eq) (simp_all add: fresh_node_def peers3_def)

lemma asked1_step: "election_step members3 start3 asked1"
proof -
  have "election_step members3 start3 ((set_node 1 candidate1 start3)\<lparr>
      granted := insert (1, cur_term candidate1, 1) (granted start3),
      requests := insert (make_RequestVote candidate1) (requests start3),
      ballots := (ballots start3)(1 \<mapsto> \<lparr>bl_msg = make_RequestVote candidate1,
        bl_todo = [0..<length (peers candidate1)], bl_votes = 1, bl_voters = {1}\<rparr>)\<rparr>)"
    by (rule election_step.timeout [where ev = "\<lambda>k. (5000, 0)" and s = "nodes start3 1"])
      (simp_all add: members3_def start3_def candidate1_def, simp_all add: fresh_node_def)
  then show ?thesis by (simp add: asked1_def candidate1_sel start3_def upt_rec)
qed

lemma asked1_orderly: "orderly members3 asked1 {}"
  by (rule orderly_election [OF start3_orderly asked1_step])

section \<open>An election that is won\<close>

text \<open>A candidate has asked for votes, and the member \<open>p\<close> gives it its own.\<close>

abbreviation "timeout_now s \<equiv> \<lambda>k :: nat. (last_heartbeat s + current_timeout s, 0 :: nat)"
abbreviation "yes t \<equiv> \<lparr>vr_term = t, vr_voteGranted = True\<rparr>"

lemma voted:
  assumes cl: "orderly M cl A" and c: "c \<in> M" "node_id (nodes cl c) = c" "ballots cl c = None"
      "state (nodes cl c) \<noteq> LEADER" "cur_term (nodes cl c) + 1 = t" "t \<noteq> 0"
    and p: "p \<in> M" "p \<noteq> c" "node_ok (nodes cl p)" "cur_term (nodes cl p) < t"
      "store_pos (store (nodes cl p)) \<le> store_pos (store (nodes cl c))"
    and s: "s = election_begin (timeout_now (nodes cl c)) (nodes cl c)"
  obtains cl' where "orderly M cl' A" and "nodes cl' c = s"
    and "ballots cl' c = Some \<lparr>bl_msg = make_RequestVote s, bl_todo = [0..<length (peers s)], bl_votes = 1, bl_voters = {c}\<rparr>"
    and "(p, make_RequestVote s, yes t) \<in> answers cl'" and "(p, t, c) \<in> granted cl'"
    and "node_ok (nodes cl' p)" and "log_of (store (nodes cl' p)) = log_of (store (nodes cl p))"
    and "cur_term (nodes cl' p) = t" and "getCommit (store (nodes cl' p)) = getCommit (store (nodes cl p))"
    and "peers (nodes cl' p) = peers (nodes cl p)" and "state (nodes cl' p) = FOLLOWER"
    and "\<And>d. d \<noteq> c \<Longrightarrow> d \<noteq> p \<Longrightarrow> nodes cl' d = nodes cl d" and "\<And>d. d \<noteq> c \<Longrightarrow> ballots cl' d = ballots cl d"
proof -
  let ?n = "nodes cl p" and ?m = "make_RequestVote s"
  have sel: "cur_term s = t" "node_id s = c" "store_pos (store s) = store_pos (store (nodes cl c))"
    using c(2,5) by (simp_all add: s election_begin_eq)
  let ?cl = "(set_node c s cl)\<lparr>granted := insert (c, cur_term s, c) (granted cl),
      requests := insert ?m (requests cl),
      ballots := (ballots cl)(c \<mapsto> \<lparr>bl_msg = ?m, bl_todo = [0..<length (peers s)], bl_votes = 1, bl_voters = {c}\<rparr>)\<rparr>"
  have "election_step M cl ?cl"
    by (rule election_step.timeout [where ev = "timeout_now (nodes cl c)"]) (use c s in simp_all)
  note asked = orderly_election [OF cl this]
  have m: "rv_term ?m = t" "ucast (rv_candidateId ?m) = c" "request_pos ?m = store_pos (store (nodes cl c))"
    by (simp_all add: make_RequestVote_pos sel, simp_all add: make_RequestVote_def sel)
  obtain r s' where call: "handleRequestVote (\<lambda>k. (0, 0)) ?m ?n = (r, s')" by fastforce
  have g: "grants ?m ?n" using p(4,5) m(1,3) by (simp add: grants_def vote_before_def)
  have r: "r = yes t" using handleRequestVote_eq(1,2) [OF call] g m(1) less_imp_le [OF p(4)] by (cases r) (simp add: max_def)
  let ?cl2 = "(set_node p s' ?cl)\<lparr>granted := (if vr_voteGranted r
      then insert (p, rv_term ?m, ucast (rv_candidateId ?m)) (granted ?cl) else granted ?cl),
    answers := insert (p, ?m, r) (answers ?cl)\<rparr>"
  have "election_step M ?cl ?cl2"
    by (rule election_step.vote [OF p(1) _ ]) (use call p(2) in simp_all)
  note done2 = orderly_election [OF asked this]
  have "node_ok s'" by (rule handleRequestVote_node_ok [OF p(3) call])
  then show ?thesis
    by (intro that [OF done2])
      (use handleRequestVote_eq(3,5,7,11,12) [OF call] p(2,4) less_imp_le [OF p(4)] m(1,2) r in \<open>simp_all add: max_def\<close>)
qed

text \<open>One answer that leaves the candidate as it is, but for the connection.\<close>

lemma answered:
  assumes cl: "orderly M cl A" and c: "c \<in> M" and b: "ballots cl c = Some b" "bl_todo b = i # js"
    and rpc: "sendRPC io (RequestVote_serialize (bl_msg b)) (peers (nodes cl c) ! i) = (r, p)"
    and net: "r = [] \<or> (\<exists>resp. r = RequestVoteResponse_serialize resp
                     \<and> (peer_id (peers (nodes cl c) ! i), bl_msg b, resp) \<in> answers cl)"
    and calm: "vote_calm (cur_term (nodes cl c)) r"
  obtains cl' b' where "orderly M cl' A" and "nodes cl' c = (nodes cl c)\<lparr>peers := (peers (nodes cl c))[i := p]\<rparr>"
    and "ballots cl' c = Some b'" and "bl_todo b' = js" and "bl_msg b' = bl_msg b"
    and "bl_votes b' = bl_votes b + (if vote_given r then 1 else 0)"
    and "answers cl' = answers cl" and "granted cl' = granted cl" and "\<And>d. d \<noteq> c \<Longrightarrow> nodes cl' d = nodes cl d"
    and "\<And>d. d \<noteq> c \<Longrightarrow> ballots cl' d = ballots cl d"
proof -
  let ?s = "(nodes cl c)\<lparr>peers := (peers (nodes cl c))[i := p]\<rparr>"
  have "election_reply (\<lambda>k. (0, 0)) r (bl_votes b) ?s =
      Inr (Some (bl_votes b + (if vote_given r then 1 else 0)), ?s)"
    using calm by (intro election_reply_calm) simp
  from election_step.answer [OF c refl b rpc net this]
  have step: "orderly M ((set_node c ?s cl)\<lparr>ballots := (ballots cl)(c := Some (b\<lparr>bl_todo := js,
      bl_votes := bl_votes b + (if vote_given r then 1 else 0),
      bl_voters := (if bl_votes b < bl_votes b + (if vote_given r then 1 else 0)
        then insert (peer_id (peers (nodes cl c) ! i)) (bl_voters b) else bl_voters b)\<rparr>))\<rparr>) A"
    (is "orderly M (_\<lparr>ballots := (_)(c := Some ?b)\<rparr>) A")
    using orderly_election [OF cl] by simp
  show ?thesis by (rule that [OF step, of ?b]) simp_all
qed

lemma vote_yes:
  assumes t: "vr_term resp = t" "vr_voteGranted resp"
  shows "vote_calm t (RequestVoteResponse_serialize resp)" "vote_given (RequestVoteResponse_serialize resp)"
  using RequestVoteResponse_roundtrip_append [of resp "[]"] t
  by (simp_all add: vote_calm_def vote_given_def response_tags)

definition voting :: "u64 \<Rightarrow> rpc_io" where
  "voting t = \<lparr>io_connect = Some 5, io_send = 0, io_recv = (\<lambda>req. RequestVoteResponse_serialize (yes t))\<rparr>"

lemma sendRPC_voting:
  "fst (sendRPC (voting t) req p) = RequestVoteResponse_serialize (yes t)"
  "connected (snd (sendRPC (voting t) req p))"
  by (simp_all add: sendRPC_def voting_def Let_def wait_connected_def backgroundConnect_step_def
      RequestVoteResponse_serialize_def push_uint64_def)

definition noop1 :: LogEntry where
  "noop1 = mk_LogEntry 1 1 (mk_Command NOOP [] [])"

text \<open>The candidate's log ends with a NOOP entry of its term once it has won.\<close>

lemma elected:
  assumes cl: "orderly M cl A" and c: "c \<in> M" "node_id (nodes cl c) = c" "ballots cl c = None"
      "state (nodes cl c) \<noteq> LEADER" "cur_term (nodes cl c) + 1 = t" "t \<noteq> 0"
      "node_ok (nodes cl c)" "log_room (nodes cl c)" "length (peers (nodes cl c)) = 2"
    and p: "p \<in> M" "p \<noteq> c" "node_ok (nodes cl p)" "cur_term (nodes cl p) < t"
      "store_pos (store (nodes cl p)) \<le> store_pos (store (nodes cl c))"
    and i: "i < 2" "peer_id (peers (nodes cl c) ! i) = p"
  obtains cl' where "orderly M cl' A" and "state (nodes cl' c) = LEADER" and "cur_term (nodes cl' c) = t"
    and "(t, c) \<in> won cl'" and "(p, t, c) \<in> granted cl'" and "node_ok (nodes cl' c)"
    and "log_of (store (nodes cl' c)) =
      log_of (store (nodes cl c)) @ [mk_LogEntry t (logLen (store (nodes cl c)) + 1) (mk_Command NOOP [] [])]"
    and "map peer_id (peers (nodes cl' c)) = map peer_id (peers (nodes cl c))"
    and "connected (peers (nodes cl' c) ! i)"
    and "nextIndex (nodes cl' c) = replicate 2 (getLastLogIndex (store (nodes cl c)) + 1)"
    and "matchIndex (nodes cl' c) = [0, 0]" and "getCommit (store (nodes cl' c)) = getCommit (store (nodes cl c))"
    and "node_ok (nodes cl' p)" and "log_of (store (nodes cl' p)) = log_of (store (nodes cl p))"
    and "cur_term (nodes cl' p) = t" and "getCommit (store (nodes cl' p)) = getCommit (store (nodes cl p))"
    and "peers (nodes cl' p) = peers (nodes cl p)" and "state (nodes cl' p) = FOLLOWER"
    and "\<And>d. d \<noteq> c \<Longrightarrow> d \<noteq> p \<Longrightarrow> nodes cl' d = nodes cl d" and "\<And>d. d \<noteq> c \<Longrightarrow> ballots cl' d = ballots cl d"
    and "sm (nodes cl' c) = sm (nodes cl c)"
proof -
  let ?s = "nodes cl c" and ?s1 = "election_begin (timeout_now (nodes cl c)) (nodes cl c)"
  note sel = election_begin_eq [of "timeout_now ?s" ?s]
  obtain cl1 where cl1: "orderly M cl1 A" "nodes cl1 c = ?s1"
    "ballots cl1 c = Some \<lparr>bl_msg = make_RequestVote ?s1, bl_todo = [0..<length (peers ?s1)], bl_votes = 1, bl_voters = {c}\<rparr>"
    "(p, make_RequestVote ?s1, yes t) \<in> answers cl1" "(p, t, c) \<in> granted cl1"
    "node_ok (nodes cl1 p)" "log_of (store (nodes cl1 p)) = log_of (store (nodes cl p))"
    "cur_term (nodes cl1 p) = t" "getCommit (store (nodes cl1 p)) = getCommit (store (nodes cl p))"
    "peers (nodes cl1 p) = peers (nodes cl p)" "state (nodes cl1 p) = FOLLOWER"
    "\<And>d. d \<noteq> c \<Longrightarrow> d \<noteq> p \<Longrightarrow> nodes cl1 d = nodes cl d" "\<And>d. d \<noteq> c \<Longrightarrow> ballots cl1 d = ballots cl d"
    by (rule voted [OF cl c(1-6) p refl]) blast
  let ?b = "\<lparr>bl_msg = make_RequestVote ?s1, bl_todo = [0..<length (peers ?s1)], bl_votes = 1, bl_voters = {c}\<rparr>"
  let ?io = "\<lambda>k. if k = i then voting t else silent"
  let ?req = "RequestVote_serialize (make_RequestVote ?s1)"
  have reply: "fst (sendRPC (?io k) req q) = (if k = i then RequestVoteResponse_serialize (yes t) else [])" for k req q
    by (simp add: sendRPC_voting sendRPC_silent)
  have calm: "vote_calm t (if k = i then RequestVoteResponse_serialize (yes t) else [])"
    and given: "vote_given (if k = i then RequestVoteResponse_serialize (yes t) else []) \<longleftrightarrow> k = i" for k
    using vote_yes [of "yes t"] by (simp_all add: vote_calm_def vote_given_def)
  have todo: "bl_todo ?b = 0 # [1]" using c(9) by (simp add: sel upt_rec)
  obtain r0 q0 where q0: "sendRPC (?io 0) (RequestVote_serialize (bl_msg ?b)) (peers (nodes cl1 c) ! 0) = (r0, q0)" by fastforce
  then have r0: "r0 = (if 0 = i then RequestVoteResponse_serialize (yes t) else [])" using reply by (metis fst_conv)
  have net0: "r0 = [] \<or> (\<exists>resp. r0 = RequestVoteResponse_serialize resp
      \<and> (peer_id (peers (nodes cl1 c) ! 0), bl_msg ?b, resp) \<in> answers cl1)"
    using cl1(2,4) i(2) r0 by (auto simp: sel)
  have calm0: "vote_calm (cur_term (nodes cl1 c)) r0" using calm [of 0] c(5) cl1(2) by (simp only: r0 sel)
  obtain cl2 b2 where cl2: "orderly M cl2 A" "nodes cl2 c = (nodes cl1 c)\<lparr>peers := (peers (nodes cl1 c))[0 := q0]\<rparr>"
    "ballots cl2 c = Some b2" "bl_todo b2 = [1]" "bl_msg b2 = bl_msg ?b"
    "bl_votes b2 = bl_votes ?b + (if vote_given r0 then 1 else 0)" "answers cl2 = answers cl1" "granted cl2 = granted cl1"
    "\<And>d. d \<noteq> c \<Longrightarrow> nodes cl2 d = nodes cl1 d" "\<And>d. d \<noteq> c \<Longrightarrow> ballots cl2 d = ballots cl1 d"
    by (rule answered [OF cl1(1) c(1) cl1(3) todo q0 net0 calm0]) blast
  obtain r1 q1 where q1: "sendRPC (?io 1) (RequestVote_serialize (bl_msg b2)) (peers (nodes cl2 c) ! 1) = (r1, q1)" by fastforce
  then have r1: "r1 = (if 1 = i then RequestVoteResponse_serialize (yes t) else [])" using reply by (metis fst_conv)
  have net1: "r1 = [] \<or> (\<exists>resp. r1 = RequestVoteResponse_serialize resp
      \<and> (peer_id (peers (nodes cl2 c) ! 1), bl_msg b2, resp) \<in> answers cl2)"
    using cl1(2,4) cl2(2,5,7) i(2) r1 by (auto simp: sel)
  have calm1: "vote_calm (cur_term (nodes cl2 c)) r1" using calm [of 1] c(5) cl1(2) cl2(2) by (simp add: r1 sel)
  obtain cl3 b3 where cl3: "orderly M cl3 A" "nodes cl3 c = (nodes cl2 c)\<lparr>peers := (peers (nodes cl2 c))[1 := q1]\<rparr>"
    "ballots cl3 c = Some b3" "bl_todo b3 = []"
    "bl_votes b3 = bl_votes b2 + (if vote_given r1 then 1 else 0)" "granted cl3 = granted cl2"
    "\<And>d. d \<noteq> c \<Longrightarrow> nodes cl3 d = nodes cl2 d" "\<And>d. d \<noteq> c \<Longrightarrow> ballots cl3 d = ballots cl2 d"
    by (rule answered [OF cl2(1) c(1) cl2(3,4) q1 net1 calm1]) blast
  have votes: "bl_votes b3 = 2" using cl3(5) cl2(6) given [of 0] given [of 1] i(1) r0 r1 by (cases "i = 0") auto
  let ?t = "nodes cl3 c" and ?ps = "(peers ?s)[0 := q0, 1 := q1]"
  have tt: "?t = ?s1\<lparr>peers := ?ps\<rparr>" using cl3(2) cl2(2) cl1(2) by (simp add: sel)
  have ids: "peer_id q0 = peer_id (peers ?s ! 0)" "peer_id q1 = peer_id (peers ?s ! 1)"
    using arg_cong [OF q0, of "\<lambda>x. peer_id (snd x)"] arg_cong [OF q1, of "\<lambda>x. peer_id (snd x)"] cl2(2) cl1(2)
    by (simp_all add: sel)
  have live: "connected (?ps ! i)"
    using arg_cong [OF q0, of "\<lambda>x. connected (snd x)"] arg_cong [OF q1, of "\<lambda>x. connected (snd x)"] i(1) c(9)
      sendRPC_voting(2)
    by (cases "i = 0") (simp_all add: less_2_cases_iff)
  have mid: "map peer_id ?ps = map peer_id (peers ?s)"
    using ids by (simp add: map_update_same)
  have st: "state ?t = CANDIDATE" "length (peers ?t) = 2" "cur_term ?t = t" "store ?t = store ?s1"
    using c(5,9) by (simp_all add: tt sel)
  have room: "log_room ?t" using c(8) by (simp add: tt log_room_def sel)
  have ok: "node_ok ?t" using election_begin_node_ok [OF c(7), of "timeout_now ?s"] by (simp add: tt node_ok_def sel)
  have maj: "bl_votes b3 \<ge> majority ?t" using st votes by (simp add: majority_def)
  have kept: "logLen (store ?t) = logLen (store ?s)" "getCommit (store ?t) = getCommit (store ?s)" "sm ?t = sm ?s"
    "getLastLogIndex (store ?t) = getLastLogIndex (store ?s)"
    by (simp_all add: tt) (simp_all add: election_begin_def reset_timer_def)
  have log: "log_of (store (take_office ?t)) =
      log_of (store ?s) @ [mk_LogEntry t (logLen (store ?s) + 1) (mk_Command NOOP [] [])]"
    using node_ok_take_office(2) [OF ok room] st kept(1) sel by simp
  have led: "node_ok (take_office ?t)" by (rule node_ok_take_office(1) [OF ok room])
  from election_step.win [OF c(1) refl cl3(3,4) maj st(1) room] st(3)
  have "election_step M cl3 ((set_node c (take_office ?t) cl3)\<lparr>ballots := (ballots cl3)(c := None),
      won := insert (t, c) (won cl3)\<rparr>)" by simp
  note won = orderly_election [OF cl3(1) this]
  have "matchIndex (take_office ?t) = [0, 0]" "sm (take_office ?t) = sm ?t"
    using st by (simp_all add: numeral_2_eq_2 take_office_def Let_def)
  then show ?thesis
    by (intro that [OF won])
      (use log led kept st mid live tt p(2) cl3(6-8) cl2(8-10) cl1(5-13) in simp_all)
qed

lemma leader1_orderly:
  obtains cl where "orderly members3 cl {}" and "state (nodes cl 1) = LEADER" and "cur_term (nodes cl 1) = 1"
    and "(1, 1) \<in> won cl" and "(2, 1, 1) \<in> granted cl"
    and "log_of (store (nodes cl 1)) = [noop1]" and "node_ok (nodes cl 1)"
    and "nextIndex (nodes cl 1) = [1, 1]" and "map peer_id (peers (nodes cl 1)) = [2, 3]"
    and "node_ok (nodes cl 2)" and "log_of (store (nodes cl 2)) = []" and "cur_term (nodes cl 2) = 1"
    and "getCommit (store (nodes cl 1)) = 0" and "getCommit (store (nodes cl 2)) = 0"
    and "matchIndex (nodes cl 1) = [0, 0]" and "connected (peers (nodes cl 1) ! 0)"
    and "state (nodes cl 2) = FOLLOWER" and "map peer_id (peers (nodes cl 2)) = [1, 3]"
    and "nodes cl 3 = fresh_node 3 (peers3 3)" and "ballots cl 2 = None" and "sm (nodes cl 1) = StateMachine_init"
proof -
  have n: "nodes start3 d = fresh_node d (peers3 d)" "ballots start3 d = None" for d by (simp_all add: start3_def)
  have ids: "map peer_id (peers3 1) = [2, 3]" "map peer_id (peers3 2) = [1, 3]" by (simp_all add: peers3_def Peer_init_def)
  have f: "state (fresh_node d ps) = FOLLOWER" "cur_term (fresh_node d ps) = 0" "node_id (fresh_node d ps) = d"
    "peers (fresh_node d ps) = ps" "getCommit (store (fresh_node d ps)) = 0" "logLen (store (fresh_node d ps)) = 0"
    "getLastLogIndex (store (fresh_node d ps)) = 0" "sm (fresh_node d ps) = StateMachine_init"
    "store_pos (store (fresh_node d ps)) = Log_pos 0 0" for d ps
    by (simp_all add: fresh_node_def store_pos_def)
  note nf = n f ids node_ok_fresh log_of_fresh log_room_def
  have m: "1 \<in> members3" "2 \<in> members3" by (simp_all add: members3_def)
  have len: "length (peers3 1) = 2" "peer_id (peers3 1 ! 0) = 2" by (simp_all add: peers3_def Peer_init_def)
  show ?thesis
    by (rule elected [OF start3_orderly m(1), of 1 2 0], simp_all only: nf len m)
      ((simp; fail)+, rule that, assumption, simp_all add: noop1_def numeral_2_eq_2 nf)
qed

section \<open>A round of replication\<close>

text \<open>
  Node 1 leads in term 1 with the log \<open>F @ N\<close>, node 2 follows with \<open>F\<close>, and the leader is about
  to send \<open>N\<close>.
\<close>

definition ready :: "Cluster \<Rightarrow> LogEntry list \<Rightarrow> LogEntry list \<Rightarrow> bool" where
  "ready cl F N \<longleftrightarrow>
     state (nodes cl 1) = LEADER \<and> cur_term (nodes cl 1) = 1 \<and> node_ok (nodes cl 1)
     \<and> log_of (store (nodes cl 1)) = F @ N \<and> length (peers (nodes cl 1)) = 2
     \<and> connected (peers (nodes cl 1) ! 0) \<and> peer_id (peers (nodes cl 1) ! 0) = 2
     \<and> nextIndex (nodes cl 1) ! 0 = of_nat (Suc (length F)) \<and> matchIndex (nodes cl 1) ! 0 \<le> of_nat (length F)
     \<and> getCommit (store (nodes cl 1)) \<le> of_nat (length F)
     \<and> node_ok (nodes cl 2) \<and> cur_term (nodes cl 2) = 1 \<and> log_of (store (nodes cl 2)) = F
     \<and> getCommit (store (nodes cl 2)) \<le> getCommit (store (nodes cl 1))"

abbreviation "stored t \<equiv> \<lparr>ar_term = t, ar_success = True\<rparr>"

lemma ready_length: "ready cl F N \<Longrightarrow> Suc (length (F @ N)) < 2 ^ 64"
  using node_ok_store [of "nodes cl 1"] by (auto simp: ready_def store_inv_def log_ok_def)

lemma unat_length: "Suc (length (F @ N)) < 2 ^ 64 \<Longrightarrow> unat (of_nat (length F) :: u64) = length F"
  by (rule unat_of_nat_u64) simp

text \<open>The message, and what node 2 does with it.\<close>

lemma ready_send:
  assumes r: "ready cl F N"
  obtains m where "prepare_AppendEntries 0 (nodes cl 1) = Inr m" and "ae_term m = 1"
    and "unat (ae_prevLogIndex m) = length F" and "ae_entries m = N"
    and "ae_leaderCommit m = getCommit (store (nodes cl 1))"
    and "append_wf m" and "accepts m (nodes cl 2)"
proof -
  let ?s = "nodes cl 1"
  have s: "node_ok ?s" "length (peers ?s) = 2" "log_of (store ?s) = F @ N"
    "nextIndex ?s ! 0 = of_nat (Suc (length F))" "cur_term ?s = 1" "state ?s = LEADER"
    "log_of (store (nodes cl 2)) = F" "cur_term (nodes cl 2) = 1"
    using r by (simp_all add: ready_def)
  have len: "length (nextIndex ?s) = 2" using s by (simp add: node_ok_def)
  then have "nextIndex ?s ! 0 \<in> set (nextIndex ?s)" by (intro nth_mem) simp
  then have nz: "nextIndex ?s ! 0 \<noteq> 0" using s(1) unfolding node_ok_def by metis
  note u = unat_length [OF ready_length [OF r]]
  obtain m where m: "prepare_AppendEntries 0 ?s = Inr m" "ae_term m = 1" "ae_prevLogIndex m = of_nat (length F)"
      "ae_prevLogTerm m = entry_term (F @ N) (length F)" "ae_entries m = N"
      "ae_leaderCommit m = getCommit (store ?s)"
    using prepare_AppendEntries_eq [OF node_ok_store [OF s(1)] _ _ nz] s len u by simp
  have "log_ok (F @ N)" using node_ok_store [OF s(1)] s(3) by (simp add: store_inv_def)
  then have "append_wf m" by (rule append_wf_suffix) (use m u nz s(4) in \<open>simp_all add: add.commute\<close>)
  moreover have "accepts m (nodes cl 2)"
    using m s u by (auto simp: accepts_def entry_term_def nth_append)
  ultimately show ?thesis using m u by (intro that [of m]) simp_all
qed

lemma ready_receive:
  assumes r: "ready cl F N" and wf: "append_wf m" and acc: "accepts m (nodes cl 2)"
    and m: "ae_term m = 1" "unat (ae_prevLogIndex m) = length F" "ae_entries m = N"
      "ae_leaderCommit m = getCommit (store (nodes cl 1))"
  obtains s' where "handleAppendEntries (\<lambda>k. (0, 0)) m (nodes cl 2) = Inr (stored 1, s')" and "node_ok s'"
    and "cur_term s' = 1" and "log_of (store s') = F @ N" and "getCommit (store s') = getCommit (store (nodes cl 1))"
proof -
  let ?p = "nodes cl 2"
  have p: "node_ok ?p" "log_of (store ?p) = F" "getCommit (store ?p) \<le> getCommit (store (nodes cl 1))"
    and c: "getCommit (store (nodes cl 1)) \<le> of_nat (length F)" using r by (simp_all add: ready_def)
  have st: "store_inv (store ?p)" by (rule node_ok_store [OF p(1)])
  note u = unat_length [OF ready_length [OF r]]
  have ul: "unat (of_nat (length (F @ N)) :: u64) = length (F @ N)"
    using unat_length [of "F @ N" "[]"] ready_length [OF r] by simp
  obtain t where t: "handleAppendEntries (\<lambda>k. (0, 0)) m ?p = Inr (\<lparr>ar_term = ae_term m, ar_success = True\<rparr>, t)"
    "cur_term t = ae_term m"
    by (rule handleAppendEntries_accept [OF st wf acc])
  note a = handleAppendEntries_acceptD(3,4) [OF st wf acc t(1)]
  have "merge_log F (length F) N = F @ N" by (cases N) simp_all
  then have log: "log_of (store t) = F @ N" using a(1) p m by simp
  have "unat (getCommit (store (nodes cl 1))) \<le> length (F @ N)" using c u by (simp add: word_le_nat_alt)
  then have "getCommit (store (nodes cl 1)) \<le> of_nat (length (F @ N))"
    unfolding word_le_nat_alt ul .
  then have "getCommit (store t) = getCommit (store (nodes cl 1))"
    using a(2) p(3) m(4) log by (simp add: min_def)
  moreover have "node_ok t" using handleAppendEntries_ok [OF p(1) wf, of "\<lambda>k. (0, 0)"] t(1) by auto
  ultimately show ?thesis using that [of t] t m log by simp
qed

text \<open>The leader reads the answer and commits up to the end of its log.\<close>

lemma counted:
  assumes s: "node_ok s" "state s = LEADER" "cur_term s = t" "log_of (store s) = L" "length (peers s) = 2"
    "getCommit (store s) \<le> of_nat (length L)" "matchIndex s ! i \<le> of_nat (length L)" "connected (peers s ! i)"
    and i: "i < 2" and L: "L \<noteq> []" "last_term L = t" and m: "ae_prevLogIndex m + of_nat (length (ae_entries m)) = of_nat (length L)"
      "ae_entries m \<noteq> []"
  obtains s' where "handle_append_reply i m (AppendEntriesResponse_serialize (stored t)) s = Inr s'"
    and "node_ok s'" and "state s' = LEADER" and "cur_term s' = t" and "log_of (store s') = L" and "peers s' = peers s"
    and "nextIndex s' ! i = of_nat (Suc (length L))" and "matchIndex s' ! i = of_nat (length L)"
    and "getCommit (store s') = of_nat (length L)" and "committed_ok s \<Longrightarrow> committed_ok s'"
proof -
  let ?n = "of_nat (length L) :: u64"
  let ?s = "s\<lparr>matchIndex := (matchIndex s)[i := ?n], nextIndex := (nextIndex s)[i := ?n + 1]\<rparr>"
  have inv: "store_inv (store ?s)" using node_ok_store [OF s(1)] by simp
  then have last: "getLastLogIndex (store s) = ?n" and bound: "Suc (length L) < 2 ^ 64"
    using s(4) by (simp_all add: store_inv_def log_ok_def)
  have un: "unat ?n = length L" using bound by (intro unat_of_nat_u64) simp
  have len: "length (nextIndex s) = 2" "length (matchIndex s) = 2" using s(1,2,5) by (auto simp: node_ok_def)
  have lenm: "length (matchIndex ?s) = length (peers ?s)" using s(5) len by simp
  have call: "handle_append_reply i m (AppendEntriesResponse_serialize (stored t)) s = advanceCommitIndex ?s"
    using AppendEntriesResponse_roundtrip_append [of "stored t" "[]"] response_tags(3,4) [of "stored t"] s(3,7) m len i
    by (simp add: handle_append_reply_def Let_def max_def)
  obtain s' where s': "advanceCommitIndex ?s = Inr s'"
    using advanceCommitIndex_total [OF inv lenm] by blast
  note frame = advanceCommitIndex_frame [OF s']
  have "unat (of_nat (Suc (length L)) :: u64) = Suc (length L)" using bound by (rule unat_of_nat_u64)
  then have "?n + 1 \<noteq> 0" by (metis add.commute nat.distinct(1) of_nat_Suc unat_0)
  then have "node_ok ?s" by (rule node_ok_progress [OF s(1)])
  then have ok: "node_ok s'" using s' by (rule node_ok_advance)
  have target: "commit_target ?s (getCommit (store s'))"
  proof -
    obtain c where c: "commit_target ?s c" "advanceCommitIndex ?s = Inr (if c > getCommit (store ?s)
      then let s = on_store (setCommit c) ?s in
        if c > getApplied (store s)
        then on_store (setApplied c) (s\<lparr>sm := run_log (newly_applied (store s)) (sm s)\<rparr>) else s
      else ?s)" by (rule advanceCommitIndex_eq [OF inv lenm])
    from c(1) have "c = getCommit (store ?s) \<or> getCommit (store ?s) < c" by (auto simp: commit_target_def)
    with c(2) s' have "getCommit (store s') = c" by (auto simp: Let_def split: if_splits)
    with c(1) show ?thesis by simp
  qed
  have "entry_term L (length L) = t" using L by (simp add: entry_term_def last_term_def last_conv_nth)
  then have "committable ?s ?n"
    using s(3-5,8) un len i by (cases "i = 0") (simp_all add: committable_def holders_def majority_def upt_rec less_2_cases_iff)
  then have "?n \<le> getCommit (store s')" using target last s(6)
    by (cases "getCommit (store s) = ?n") (auto simp: commit_target_def)
  moreover have "getCommit (store s') \<le> ?n" using target last s(6) by (auto simp: commit_target_def)
  ultimately have "getCommit (store s') = ?n" by (rule antisym [rotated])
  moreover have "committed_ok s'" if "committed_ok s"
  proof -
    have "committed_ok ?s" using that by (simp add: committed_ok_def)
    with s' show ?thesis by (auto intro: advanceCommitIndex_committed [OF inv lenm])
  qed
  ultimately show ?thesis using call s' ok frame
    by (intro that [of s']) (use s len i in \<open>simp_all add: add.commute\<close>)
qed

text \<open>Message, answer, count, and a second message that tells node 2 about the commit.\<close>

lemma ready_step:
  assumes r: "ready cl F N"
  obtains m s' where "orderly_run members3 cl A
      (set_node 2 s' (cl\<lparr>appends := insert m (appends cl)\<rparr>)) (insert (2, m, stored 1) A)"
    and "ae_term m = 1" and "unat (ae_prevLogIndex m) = length F" and "ae_entries m = N"
    and "node_ok s'" and "cur_term s' = 1" and "log_of (store s') = F @ N"
    and "getCommit (store s') = getCommit (store (nodes cl 1))"
proof -
  obtain m where m: "prepare_AppendEntries 0 (nodes cl 1) = Inr m" "ae_term m = 1"
    "unat (ae_prevLogIndex m) = length F" "ae_entries m = N"
    "ae_leaderCommit m = getCommit (store (nodes cl 1))" "append_wf m" "accepts m (nodes cl 2)"
    by (rule ready_send [OF r])
  obtain s' where s': "handleAppendEntries (\<lambda>k. (0, 0)) m (nodes cl 2) = Inr (stored 1, s')" "node_ok s'"
    "cur_term s' = 1" "log_of (store s') = F @ N" "getCommit (store s') = getCommit (store (nodes cl 1))"
    by (rule ready_receive [OF r m(6,7,2-5)])
  let ?cl = "cl\<lparr>appends := insert m (appends cl)\<rparr>"
  have "orderly_step members3 cl A ?cl A"
    by (rule orderly_step.send [where c = 1 and i = 0]) (use r m in \<open>simp_all add: members3_def ready_def\<close>)
  moreover have "orderly_step members3 ?cl A (set_node 2 s' ?cl) (insert (2, m, stored 1) A)"
    by (rule orderly_step.receive [where ev = "\<lambda>k. (0, 0)"]) (use s' in \<open>simp_all add: members3_def\<close>)
  ultimately have "orderly_run members3 cl A (set_node 2 s' ?cl) (insert (2, m, stored 1) A)"
    by (rule orderly_run.onward [OF orderly_step_run])
  with that m s' show ?thesis by blast
qed

lemma round:
  assumes r: "ready cl F N" and N: "N \<noteq> []" "last_term N = 1"
  obtains cl1 A1 cl2 A2 where "orderly_run members3 cl A cl1 A1" and "orderly_run members3 cl1 A1 cl2 A2"
    and "state (nodes cl1 1) = LEADER" and "cur_term (nodes cl1 1) = 1"
    and "log_of (store (nodes cl1 1)) = F @ N" and "getCommit (store (nodes cl1 1)) = of_nat (length (F @ N))"
    and "ready cl2 (F @ N) []" and "getCommit (store (nodes cl2 2)) = of_nat (length (F @ N))"
    and "getCommit (store (nodes cl2 1)) = of_nat (length (F @ N))"
proof -
  obtain m s' where m: "orderly_run members3 cl A
      (set_node 2 s' (cl\<lparr>appends := insert m (appends cl)\<rparr>)) (insert (2, m, stored 1) A)"
      (is "orderly_run _ _ _ ?cl ?A")
    "ae_term m = 1" "unat (ae_prevLogIndex m) = length F" "ae_entries m = N"
    and s': "node_ok s'" "cur_term s' = 1" "log_of (store s') = F @ N"
      "getCommit (store s') = getCommit (store (nodes cl 1))"
    by (rule ready_step [OF r])
  let ?s = "nodes cl 1"
  note u = unat_length [OF ready_length [OF r]]
  have ul: "unat (of_nat (length (F @ N)) :: u64) = length (F @ N)"
    using unat_length [of "F @ N" "[]"] ready_length [OF r] by simp
  have le: "x \<le> of_nat (length (F @ N))" if "x \<le> of_nat (length F)" for x :: u64
    using that u ul by (simp add: word_le_nat_alt del: of_nat_add)
  have L: "F @ N \<noteq> []" "last_term (F @ N) = 1" using N by (simp_all add: last_term_def)
  have "of_nat (unat (ae_prevLogIndex m)) = ae_prevLogIndex m" by simp
  then have "ae_prevLogIndex m = of_nat (length F)" unfolding m(3) by (rule sym)
  then have mp: "ae_prevLogIndex m + of_nat (length (ae_entries m)) = of_nat (length (F @ N))" "ae_entries m \<noteq> []"
    using m(4) N by simp_all
  obtain s where s: "handle_append_reply 0 m (AppendEntriesResponse_serialize (stored 1)) ?s = Inr s"
    "node_ok s" "state s = LEADER" "cur_term s = 1" "log_of (store s) = F @ N" "peers s = peers ?s"
    "nextIndex s ! 0 = of_nat (Suc (length (F @ N)))" "matchIndex s ! 0 = of_nat (length (F @ N))"
    "getCommit (store s) = of_nat (length (F @ N))"
    by (rule counted [of ?s 1 "F @ N" 0 m, OF _ _ _ _ _ _ _ _ _ L mp]) (use r le in \<open>auto simp: ready_def\<close>)
  have "orderly_step members3 ?cl ?A (set_node 1 s ?cl) ?A"
    by (rule orderly_step.reply [OF _ refl, where ae = m and i = 0])
      (use r s m in \<open>auto simp: members3_def ready_def\<close>)
  from orderly_run.onward [OF m(1) this]
  have 1: "orderly_run members3 cl A (set_node 1 s ?cl) ?A" .
  have r1: "ready (set_node 1 s ?cl) (F @ N) []"
    using r s s' le by (simp add: ready_def)
  obtain n t where n: "orderly_run members3 (set_node 1 s ?cl) ?A
      (set_node 2 t ((set_node 1 s ?cl)\<lparr>appends := insert n (appends (set_node 1 s ?cl))\<rparr>)) (insert (2, n, stored 1) ?A)"
      (is "orderly_run _ _ _ ?cl2 ?A2")
    and t: "node_ok t" "cur_term t = 1" "log_of (store t) = (F @ N) @ []"
      "getCommit (store t) = getCommit (store (nodes (set_node 1 s ?cl) 1))"
    by (rule ready_step [OF r1])
  have "ready ?cl2 (F @ N) []" using r1 t by (simp add: ready_def)
  with that [OF 1 n] s t show ?thesis by simp
qed

text \<open>A request makes the next round ready.\<close>

lemma ready_append:
  assumes r: "ready cl L []" and room: "log_room (nodes cl 1)" and cmd: "command_ok cmd"
    and s': "s' = on_store (append_entry (new_entry cmd (nodes cl 1))) (nodes cl 1)"
  shows "ready (set_node 1 s' cl) L [new_entry cmd (nodes cl 1)]"
proof -
  have s: "node_ok (nodes cl 1)" using r by (simp add: ready_def)
  from node_ok_new_entry [OF s room cmd] r s' show ?thesis by (simp add: ready_def)
qed

text \<open>From the fresh leader: its NOOP entry is copied, counted and committed on both nodes.\<close>

lemma noop1_term: "le_term noop1 = 1" "last_term [noop1] = 1"
  by (simp_all add: noop1_def mk_LogEntry_def Let_def last_term_def)

lemma ready1_orderly:
  obtains cl where "orderly members3 cl {}" and "ready cl [] [noop1]"
proof -
  obtain cl where "orderly members3 cl {}" "state (nodes cl 1) = LEADER" "cur_term (nodes cl 1) = 1"
    "log_of (store (nodes cl 1)) = [noop1]" "node_ok (nodes cl 1)" "map peer_id (peers (nodes cl 1)) = [2, 3]"
    "nextIndex (nodes cl 1) = [1, 1]"
    "node_ok (nodes cl 2)" "log_of (store (nodes cl 2)) = []" "cur_term (nodes cl 2) = 1"
    "getCommit (store (nodes cl 1)) = 0" "getCommit (store (nodes cl 2)) = 0"
    "matchIndex (nodes cl 1) = [0, 0]" "connected (peers (nodes cl 1) ! 0)"
    by (rule leader1_orderly)
  then show ?thesis by (intro that [of cl]) (auto simp: ready_def map_eq_Cons_conv)
qed

lemma committed_orderly:
  obtains cl A cl' A' where "orderly members3 cl A" and "orderly_run members3 cl A cl' A'"
    and "getCommit (store (nodes cl 1)) = 1" and "log_of (store (nodes cl 1)) = [noop1]"
    and "ready cl' [noop1] []" and "getCommit (store (nodes cl' 2)) = 1" and "getCommit (store (nodes cl' 1)) = 1"
proof -
  obtain cl where cl: "orderly members3 cl {}" "ready cl [] [noop1]" by (rule ready1_orderly)
  obtain cl1 A1 cl2 A2 where r: "orderly_run members3 cl {} cl1 A1" "orderly_run members3 cl1 A1 cl2 A2"
    "log_of (store (nodes cl1 1)) = [] @ [noop1]"
    "getCommit (store (nodes cl1 1)) = of_nat (length ([] @ [noop1]))" "ready cl2 ([] @ [noop1]) []"
    "getCommit (store (nodes cl2 2)) = of_nat (length ([] @ [noop1]))"
    "getCommit (store (nodes cl2 1)) = of_nat (length ([] @ [noop1]))"
    by (rule round [OF cl(2) _ noop1_term(2), of "{}"]) simp
  from that [OF orderly_onward [OF r(1) cl(1)] r(2)] r(3-) show ?thesis by simp
qed

lemma replicated_orderly:
  obtains cl A where "orderly members3 cl A" and "log_of (store (nodes cl 1)) = [noop1]"
    and "log_of (store (nodes cl 2)) = [noop1]"
proof -
  obtain cl A cl' A' where "orderly members3 cl A" "orderly_run members3 cl A cl' A'" "ready cl' [noop1] []"
    by (rule committed_orderly)
  then show ?thesis using that orderly_onward by (fastforce simp: ready_def)
qed

text \<open>Orderly runs are runs.\<close>

lemmas start3_reachable = orderly_reachable [OF start3_orderly]

lemma leader1_reachable:
  obtains cl where "reachable members3 cl" and "state (nodes cl 1) = LEADER" and "cur_term (nodes cl 1) = 1"
    and "(1, 1) \<in> won cl" and "(2, 1, 1) \<in> granted cl"
    and "log_of (store (nodes cl 1)) = [noop1]" and "node_ok (nodes cl 1)"
  by (rule leader1_orderly) (use orderly_reachable in blast)

lemma replicated_reachable:
  obtains cl where "reachable members3 cl" and "log_of (store (nodes cl 1)) = [noop1]"
    and "log_of (store (nodes cl 2)) = [noop1]"
  by (rule replicated_orderly) (use orderly_reachable in blast)

end
