(* ===== verification/LogMatching.thy ===== *)
theory LogMatching
  imports ClusterRun
begin

text \<open>
  Log matching across a cluster: two logs that hold the same term at the same index are equal up
  to that index. The proof follows the set of all logs the cluster has ever had: it grows only
  when a leader appends to its own log, and every message and every log a node takes over from one
  is in it. What keeps the new log apart from all others is that a leader's log holds every entry
  of its term. The theory also shows that the whole operations of the code are runs of the
  cluster's steps.
\<close>

section \<open>Messages carry suffixes of logs\<close>

definition backed :: "AppendEntries \<Rightarrow> LogEntry list \<Rightarrow> bool" where
  "backed m l \<longleftrightarrow> unat (ae_prevLogIndex m) \<le> length l
     \<and> ae_prevLogTerm m = entry_term l (unat (ae_prevLogIndex m))
     \<and> ae_entries m = drop (unat (ae_prevLogIndex m)) l"

lemma prepare_backed:
  assumes inv: "store_inv (store s)" and call: "prepare_AppendEntries i s = Inr m"
  shows "ae_entries m = [] \<or> backed m (log_of (store s))"
proof (cases "nextIndex s ! i = 0 \<or> getLastLogIndex (store s) < nextIndex s ! i")
  case True
  with call show ?thesis
    by (auto simp: prepare_AppendEntries_def Let_def readFrom_eq [OF inv] split: if_splits
        elim!: bind_result_InrE)
next
  case False
  then have n: "nextIndex s ! i \<noteq> 0" "unat (nextIndex s ! i) \<le> length (log_of (store s))"
    using store_inv_length [OF inv] by (auto simp: not_less word_le_nat_alt)
  from call have "i < length (peers s)" "i < length (nextIndex s)"
    by (auto simp: prepare_AppendEntries_def split: if_splits)
  from prepare_AppendEntries_eq [OF inv this n(1)] call n show ?thesis
    by (auto simp: backed_def unat_pred_u64)
qed

lemma backed_wf:
  assumes "log_ok l" and "backed m l"
  shows "append_wf m"
proof (rule append_wf_suffix [OF assms(1)])
  have "Suc (unat (ae_prevLogIndex m)) < 2 ^ 64" using assms by (auto simp: backed_def log_ok_def)
  then have "unat (of_nat (Suc (unat (ae_prevLogIndex m))) :: u64) \<noteq> 0" by (subst unat_of_nat_u64) simp_all
  then show "ae_prevLogIndex m + 1 \<noteq> 0" by (auto simp: add.commute)
qed (use assms in \<open>simp add: backed_def\<close>)

lemma log_match_sym: "log_match l f \<Longrightarrow> log_match f l"
  by (auto simp: log_match_def)

lemma log_match_term:
  assumes "log_match l f" and "p \<le> length l" and "p \<le> length f" and "entry_term l p = entry_term f p"
  shows "take p l = take p f"
  using assms by (cases p) (auto simp: log_match_def entry_term_def)

text \<open>A message backed by a log that matches the receiver's leaves one of the two.\<close>

lemma receive_log:
  assumes inv: "store_inv (store s)" and call: "handleAppendEntries ev m s = Inr (r, s')"
    and m: "ae_entries m = [] \<or> backed m l \<and> log_ok l \<and> log_match l (log_of (store s))"
  shows "store_inv (store s') \<and> (log_of (store s') = log_of (store s) \<or> log_of (store s') = l)"
proof (cases "accepts m s")
  case False
  from handleAppendEntries_reject [OF inv False, of ev] call
  have "s' = s \<or> s' = follow ev m s" by (auto split: if_splits)
  with inv follow_store_inv [OF inv, of ev m] show ?thesis by auto
next
  case True
  let ?f = "log_of (store s)" and ?p = "unat (ae_prevLogIndex m)"
  have p: "?p \<le> length ?f" using True by (auto simp: accepts_def)
  have "Suc (length ?f) < 2 ^ 64" using inv by (simp add: store_inv_def log_ok_def)
  then have "append_wf m" if "ae_entries m = []" using that p by (simp add: append_wf_def)
  with m have wf: "append_wf m" using backed_wf by blast
  note acc = handleAppendEntries_acceptD(2,3) [OF inv wf True call]
  have "merge_log ?f ?p (ae_entries m) = ?f \<or> merge_log ?f ?p (ae_entries m) = l"
  proof (cases "ae_entries m = []")
    case False
    with m have b: "backed m l" "log_match l ?f" by auto
    have "take ?p l = take ?p ?f"
    proof (cases "ae_prevLogIndex m = 0")
      case nz: False
      with True b(1) have "entry_term l ?p = entry_term ?f ?p" by (simp add: accepts_def backed_def)
      with b p show ?thesis by (intro log_match_term) (simp_all add: backed_def)
    qed simp
    from merge_log_match [OF b(2) this p] b(1) show ?thesis by (simp add: backed_def)
  qed simp
  with acc show ?thesis by simp
qed

section \<open>The store under the other steps\<close>

lemma store_inv_down:
  "store_inv (store s) \<Longrightarrow> store_inv (setVoted [] (setTerm t (store s)))"
  using store_inv_setTerm [of "store s" t] store_inv_setVoted [of "setTerm t (store s)" "[]"] by simp

lemma handle_append_reply_store:
  assumes "handle_append_reply i ae r s = Inr s'" and "store_inv (store s)"
  shows "store_inv (store s') \<and> log_of (store s') = log_of (store s)"
  using assms store_inv_down [OF assms(2)]
  by (auto simp: handle_append_reply_def back_off_def Let_def split: if_splits
      elim!: bind_result_InrE dest!: advanceCommitIndex_frame)

lemma handleRequestVote_store:
  assumes call: "handleRequestVote ev m s = (r, s')" and inv: "store_inv (store s)"
  shows "store_inv (store s') \<and> log_of (store s') = log_of (store s)"
proof
  show "store_inv (store s')"
    using call store_inv_down [OF inv] store_inv_setVoted_u64 inv
    by (auto simp: handleRequestVote_def reset_timer_def Let_def split: if_splits)
qed (rule handleRequestVote_eq(11) [OF call])

lemma election_begin_store:
  assumes "store_inv (store s)"
  shows "store_inv (store (election_begin ev s))"
  using assms store_inv_setTerm [OF assms, of "cur_term s + 1"]
    store_inv_setVoted [OF _ length_to_string_cint, of "setTerm (cur_term s + 1) (store s)" "node_id s"]
  by (simp add: election_begin_def reset_timer_def)

lemma election_reply_store:
  assumes "election_reply ev r n s = Inr (v, s')" and "store_inv (store s)"
  shows "store_inv (store s') \<and> log_of (store s') = log_of (store s)"
  using assms store_inv_down [OF assms(2)]
  by (auto simp: election_reply_def reset_timer_def split: if_splits elim!: bind_result_InrE)

lemma crash_image_store:
  assumes "crash_image st st'" and inv: "store_inv st"
  shows "store_inv st' \<and> (\<exists>k. log_of st' = take k (log_of st))"
  using assms(1)
proof cases
  case (clean k)
  with store_inv_truncate [OF inv, of k] show ?thesis by auto
next
  case (raised t k)
  with store_inv_truncate [of "setTerm t st" k] store_inv_setTerm [OF inv, of t] show ?thesis by auto
next
  case (cleared t k)
  with store_inv_truncate [of "setVoted [] (setTerm t st)" k] store_inv_setTerm [OF inv, of t]
    store_inv_setVoted [of "setTerm t st" "[]"] show ?thesis by auto
qed

lemma RaftNode_init_store:
  assumes inv: "store_inv st" and init: "RaftNode_init ev c ps (st_disk st) = Inr s"
  shows "store_inv (store s) \<and> log_of (store s) = log_of st"
proof -
  obtain st1 where open1: "Storage_open (st_disk st) = Inr st1" and "store_inv st1" "log_of st1 = log_of st"
    by (rule Storage_open_reopens [OF inv]) blast
  with init show ?thesis
    by (auto simp: RaftNode_init_def replay_def reset_timer_def Let_def split: if_splits elim!: bind_result_InrE)
qed

section \<open>The invariant\<close>

text \<open>\<open>H\<close> is the set of all logs that nodes have had, and their prefixes.\<close>

definition history_ok :: "Cluster \<Rightarrow> LogEntry list set \<Rightarrow> bool" where
  "history_ok cl H \<longleftrightarrow>
     (\<forall>l \<in> H. log_ok l \<and> (\<forall>n. take n l \<in> H) \<and> (\<forall>m \<in> H. log_match l m)
        \<and> (\<forall>e \<in> set l. \<exists>c. (le_term e, c) \<in> won cl))"

text \<open>A leader's log reaches as far as any entry of its term.\<close>

definition log_member :: "Cluster \<Rightarrow> LogEntry list set \<Rightarrow> c_int \<Rightarrow> bool" where
  "log_member cl H c \<longleftrightarrow> store_inv (store (nodes cl c)) \<and> log_of (store (nodes cl c)) \<in> H
     \<and> (state (nodes cl c) = LEADER \<longrightarrow>
          (\<forall>l \<in> H. \<forall>i < length l. le_term (l ! i) = cur_term (nodes cl c) \<longrightarrow>
             i < length (log_of (store (nodes cl c)))))"

text \<open>Nobody wins a term twice.\<close>

definition past_wins :: "Cluster \<Rightarrow> bool" where
  "past_wins cl \<longleftrightarrow> (\<forall>t c. (t, c) \<in> won cl \<longrightarrow>
     t \<le> cur_term (nodes cl c) \<and> (t = cur_term (nodes cl c) \<longrightarrow> state (nodes cl c) \<noteq> CANDIDATE))"

definition log_inv :: "c_int set \<Rightarrow> Cluster \<Rightarrow> LogEntry list set \<Rightarrow> bool" where
  "log_inv M cl H \<longleftrightarrow> history_ok cl H \<and> (\<forall>c \<in> M. log_member cl H c) \<and> past_wins cl
     \<and> (\<forall>m \<in> appends cl. ae_entries m = [] \<or> (\<exists>l \<in> H. backed m l))"

lemma history_okD:
  assumes "history_ok cl H" and "l \<in> H"
  shows "log_ok l" and "take n l \<in> H" and "m \<in> H \<Longrightarrow> log_match l m"
    and "e \<in> set l \<Longrightarrow> \<exists>c. (le_term e, c) \<in> won cl"
  using assms by (auto simp: history_ok_def)

lemma log_inv_other:
  "log_inv M (cl\<lparr>ballots := b\<rparr>) H = log_inv M cl H" "log_inv M (cl\<lparr>requests := r\<rparr>) H = log_inv M cl H"
  "log_inv M (cl\<lparr>answers := a\<rparr>) H = log_inv M cl H" "log_inv M (cl\<lparr>granted := g\<rparr>) H = log_inv M cl H"
  by (simp_all add: log_inv_def history_ok_def log_member_def past_wins_def)

text \<open>A node changes and its log stays within the history.\<close>

lemma log_inv_node:
  assumes inv: "log_inv M cl H" and s: "s = nodes cl c"
    and log: "store_inv (store s') \<and> log_of (store s') \<in> H" and le: "cur_term s \<le> cur_term s'"
    and lead: "state s' = LEADER \<Longrightarrow>
      state s = LEADER \<and> cur_term s' = cur_term s \<and> log_of (store s') = log_of (store s)"
    and cand: "state s' = CANDIDATE \<Longrightarrow> cur_term s' = cur_term s \<Longrightarrow> state s = CANDIDATE"
  shows "log_inv M (set_node c s' cl) H"
  unfolding log_inv_def
proof (intro conjI ballI)
  show "history_ok (set_node c s' cl) H" using inv by (simp add: log_inv_def history_ok_def)
  show "log_member (set_node c s' cl) H d" if "d \<in> M" for d
  proof (cases "d = c")
    case True
    with that inv s have "log_member cl H c" by (simp add: log_inv_def)
    with True s log lead show ?thesis by (auto simp: log_member_def)
  next
    case False
    with that inv show ?thesis by (simp add: log_inv_def log_member_def)
  qed
  have "past_wins cl" using inv by (simp add: log_inv_def)
  then have old: "u \<le> cur_term (nodes cl d) \<and> (u = cur_term (nodes cl d) \<longrightarrow> state (nodes cl d) \<noteq> CANDIDATE)"
    if "(u, d) \<in> won cl" for u d using that by (simp add: past_wins_def)
  show "past_wins (set_node c s' cl)"
    unfolding past_wins_def
  proof (intro allI impI)
    fix u d assume won: "(u, d) \<in> won (set_node c s' cl)"
    show "u \<le> cur_term (nodes (set_node c s' cl) d)
      \<and> (u = cur_term (nodes (set_node c s' cl) d) \<longrightarrow> state (nodes (set_node c s' cl) d) \<noteq> CANDIDATE)"
    proof (cases "d = c")
      case True
      with old [of u d] won s have o: "u \<le> cur_term s" "u = cur_term s \<longrightarrow> state s \<noteq> CANDIDATE" by simp_all
      from o(1) le have "u \<le> cur_term s'" by (rule order_trans)
      moreover have "state s' \<noteq> CANDIDATE" if "u = cur_term s'"
      proof
        assume "state s' = CANDIDATE"
        moreover have "cur_term s' = cur_term s" using that o(1) le by simp
        ultimately show False using cand o(2) that by simp
      qed
      ultimately show ?thesis using True by simp
    next
      case False
      with old [of u d] won show ?thesis by simp
    qed
  qed
qed (use inv in \<open>simp add: log_inv_def\<close>)

lemma log_inv_vote_step:
  assumes "log_inv M cl H" and "vote_step (nodes cl c) s'"
    and "store_inv (store s') \<and> log_of (store s') \<in> H"
    and "state s' = LEADER \<Longrightarrow> log_of (store s') = log_of (store (nodes cl c))"
  shows "log_inv M (set_node c s' cl) H"
  by (rule log_inv_node [OF assms(1) refl assms(3)])
    (use assms(2,4) in \<open>auto simp: vote_step_def\<close>)

lemma log_inv_same_log:
  assumes inv: "log_inv M cl H" and c: "c \<in> M" and "vote_step (nodes cl c) s'"
    and "store_inv (store (nodes cl c)) \<Longrightarrow> store_inv (store s') \<and> log_of (store s') = log_of (store (nodes cl c))"
  shows "log_inv M (set_node c s' cl) H"
proof -
  have "log_member cl H c" using inv c by (simp add: log_inv_def)
  with assms(4) show ?thesis
    by (intro log_inv_vote_step [OF inv assms(3)]) (auto simp: log_member_def)
qed

section \<open>A leader appends\<close>

lemma log_match_snoc:
  assumes "log_match l m" and "length l < length m \<Longrightarrow> le_term (m ! length l) \<noteq> le_term e"
  shows "log_match (l @ [e]) m"
  using assms by (auto simp: log_match_def less_Suc_eq nth_append)

lemma history_snoc:
  assumes H: "history_ok cl H" and l: "l \<in> H" and ok: "log_ok (l @ [e])"
    and won: "(le_term e, c) \<in> won cl"
    and free: "\<And>m. m \<in> H \<Longrightarrow> length l < length m \<Longrightarrow> le_term (m ! length l) \<noteq> le_term e"
  shows "history_ok cl (insert (l @ [e]) H)"
proof -
  have match: "log_match (l @ [e]) m" if "m \<in> H" for m
    using log_match_snoc [OF history_okD(3) [OF H l that]] free [OF that] by blast
  have self: "log_match (l @ [e]) (l @ [e])" by (simp add: log_match_def)
  have tk: "take n (l @ [e]) \<in> insert (l @ [e]) H" for n
    using history_okD(2) [OF H l, of n] by (cases "n \<le> length l") (simp_all add: not_le Suc_le_eq)
  have terms: "\<exists>c. (le_term x, c) \<in> won cl" if "x \<in> set (l @ [e])" for x
    using that history_okD(4) [OF H l, of x] won by auto
  show ?thesis
    unfolding history_ok_def
  proof (intro ballI conjI allI)
    fix k x m n assume k: "k \<in> insert (l @ [e]) H"
    show "log_ok k" using k ok history_okD(1) [OF H] by blast
    show "take n k \<in> insert (l @ [e]) H" using k tk history_okD(2) [OF H] by blast
    show "log_match k m" if m: "m \<in> insert (l @ [e]) H"
      using k m match self history_okD(3) [OF H] log_match_sym by blast
    show "\<exists>c. (le_term x, c) \<in> won cl" if x: "x \<in> set k"
      using k x terms history_okD(4) [OF H] by blast
  qed
qed

lemma one_leader:
  assumes inv: "cluster_inv M cl" and "c \<in> M" "d \<in> M" and "state (nodes cl c) = LEADER" "state (nodes cl d) = LEADER"
    and "cur_term (nodes cl c) = cur_term (nodes cl d)"
  shows "c = d"
proof (rule won_unique [OF inv])
  show "(cur_term (nodes cl c), c) \<in> won cl"
    using cluster_invD(1) [OF inv assms(2)] assms(4) by (simp add: member_ok_def)
  show "(cur_term (nodes cl c), d) \<in> won cl"
    using cluster_invD(1) [OF inv assms(3)] assms(5,6) by (simp add: member_ok_def)
qed

lemma log_inv_own:
  assumes inv: "log_inv M cl H" and votes: "cluster_inv M cl" and c: "c \<in> M" and s: "s = nodes cl c"
    and lead: "state s = LEADER" and e: "le_term e = cur_term s"
    and s': "state s' = LEADER" "cur_term s' = cur_term s"
    and log': "store_inv (store s')" "log_of (store s') = log_of (store s) @ [e]"
  shows "log_inv M (set_node c s' cl) (insert (log_of (store s) @ [e]) H)" (is "log_inv M ?cl ?H")
proof -
  let ?l = "log_of (store s)"
  have H: "history_ok cl H" and mem: "log_member cl H c"
    using inv c by (simp_all add: log_inv_def)
  have won: "(le_term e, c) \<in> won cl" using cluster_invD(1) [OF votes c] lead e s by (simp add: member_ok_def)
  have "le_term (m ! length ?l) \<noteq> le_term e" if "m \<in> H" "length ?l < length m" for m
    using mem that lead e s by (auto simp: log_member_def)
  then have H': "history_ok cl ?H"
    using H mem log' s won by (intro history_snoc [of cl H ?l e c]) (auto simp: log_member_def store_inv_def)
  show ?thesis
    unfolding log_inv_def
  proof (intro conjI ballI)
    show "history_ok ?cl ?H" using H' by (simp add: history_ok_def)
    show "log_member ?cl ?H d" if d: "d \<in> M" for d
    proof (cases "d = c")
      case True
      have "i < length (?l @ [e])" if "m \<in> ?H" "i < length m" "le_term (m ! i) = cur_term s" for m i
      proof (cases "m \<in> H")
        case True
        with mem that lead s have "i < length ?l" by (simp add: log_member_def)
        then show ?thesis by simp
      next
        case False
        with that show ?thesis by simp
      qed
      with True s' log' show ?thesis by (simp add: log_member_def)
    next
      case False
      have memd: "log_member cl H d" using inv d by (simp add: log_inv_def)
      have "i < length (log_of (store (nodes cl d)))"
        if ld: "state (nodes cl d) = LEADER" and m: "m \<in> ?H" "i < length m" "le_term (m ! i) = cur_term (nodes cl d)" for m i
      proof (cases "m \<in> H")
        case True
        with memd ld m show ?thesis by (simp add: log_member_def)
      next
        case new: False
        with m have i: "i < Suc (length ?l)" "le_term ((?l @ [e]) ! i) = cur_term (nodes cl d)" by auto
        have "i \<noteq> length ?l"
          using i(2) e one_leader [OF votes c d] False lead ld s by auto
        with i have "i < length ?l" "le_term (?l ! i) = cur_term (nodes cl d)" by (auto simp: nth_append)
        moreover have "?l \<in> H" using mem s by (simp add: log_member_def)
        ultimately show ?thesis using memd ld by (auto simp: log_member_def)
      qed
      with False memd show ?thesis by (simp add: log_member_def)
    qed
    show "past_wins ?cl" using inv s' lead s by (auto simp: log_inv_def past_wins_def)
    show "ae_entries m = [] \<or> (\<exists>l \<in> ?H. backed m l)" if "m \<in> appends ?cl" for m
      using that inv by (auto simp: log_inv_def)
  qed
qed

lemma log_inv_elected:
  assumes inv: "log_inv M cl H" and s: "s = nodes cl c" and cand: "state s = CANDIDATE"
    and votes: "cluster_inv M ((set_node c (s\<lparr>state := LEADER\<rparr>) cl)\<lparr>won := insert (cur_term s, c) (won cl)\<rparr>)"
      (is "cluster_inv M ?cl")
  shows "log_inv M ?cl H"
proof -
  have H: "history_ok cl H" and past: "past_wins cl" using inv by (simp_all add: log_inv_def)
  have fresh: "le_term x \<noteq> cur_term s" if "m \<in> H" "x \<in> set m" for m x
  proof
    assume t: "le_term x = cur_term s"
    from history_okD(4) [OF H that] t obtain d where d: "(cur_term s, d) \<in> won cl" by auto
    then have "d = c" by (intro won_unique [OF votes, of "cur_term s"]) simp_all
    with d past cand s show False by (auto simp: past_wins_def)
  qed
  show ?thesis
    unfolding log_inv_def
  proof (intro conjI ballI)
    show "history_ok ?cl H" using H unfolding history_ok_def by simp blast
    show "log_member ?cl H d" if "d \<in> M" for d
      using inv that s fresh nth_mem unfolding log_inv_def log_member_def by (cases "d = c") auto
    show "past_wins ?cl" using past s unfolding past_wins_def by auto
  qed (use inv in \<open>simp add: log_inv_def\<close>)
qed

section \<open>Preservation\<close>

text \<open>A step of a single node: the log stays, or the leader appends an entry of its term.\<close>

lemma quiet_step_log:
  assumes "quiet_step s s'" and "store_inv (store s)"
  shows "store_inv (store s') \<and> (log_of (store s') = log_of (store s)
    \<or> (\<exists>e. state s = LEADER \<and> le_term e = cur_term s \<and> log_of (store s') = log_of (store s) @ [e]
        \<and> state s' = LEADER \<and> cur_term s' = cur_term s))"
  using assms
proof (induction rule: quiet_step.induct)
  case (submit cmd s idx s')
  with store_inv_new_entry [of s cmd] show ?case
    by (auto simp: submit_append_eq mk_LogEntry_def Let_def)
next
  case (get s idx s')
  with store_inv_new_entry [of s "mk_Command NOOP [] []"] command_ok_noop show ?case
    by (auto simp: get_append_eq mk_LogEntry_def Let_def)
next
  case (commit s s')
  with applyCommitted_frame [OF commit(1)] show ?case by simp
qed simp_all

lemma local_step_log:
  assumes "local_step s s'" and "store_inv (store s)"
  shows "store_inv (store s') \<and> (log_of (store s') = log_of (store s)
    \<or> (\<exists>e. state s = LEADER \<and> le_term e = cur_term s \<and> log_of (store s') = log_of (store s) @ [e]
        \<and> state s' = LEADER \<and> cur_term s' = cur_term s))"
  using assms(1)
proof cases
  case quiet
  from quiet_step_log [OF this assms(2)] show ?thesis .
next
  case (reply i ae r)
  with handle_append_reply_store [OF _ assms(2)] show ?thesis by blast
qed

lemma log_inv_local:
  assumes inv: "log_inv M cl H" and votes: "cluster_inv M cl" and c: "c \<in> M"
    and step: "local_step (nodes cl c) s'"
  shows "log_inv M (set_node c s' cl) (insert (log_of (store s')) H)"
proof -
  have mem: "log_member cl H c" using inv c by (simp add: log_inv_def)
  then have st: "store_inv (store (nodes cl c))" by (simp add: log_member_def)
  from local_step_log [OF step st] consider
      "store_inv (store s')" "log_of (store s') = log_of (store (nodes cl c))"
    | e where "store_inv (store s')" "state (nodes cl c) = LEADER" "le_term e = cur_term (nodes cl c)"
        "log_of (store s') = log_of (store (nodes cl c)) @ [e]" "state s' = LEADER" "cur_term s' = cur_term (nodes cl c)"
    by blast
  then show ?thesis
  proof cases
    case 1
    then have "log_inv M (set_node c s' cl) H"
      by (intro log_inv_same_log [OF inv c local_step_vote_step [OF step]]) simp
    moreover have "insert (log_of (store s')) H = H" using 1 mem by (auto simp: log_member_def)
    ultimately show ?thesis by simp
  next
    case 2
    from log_inv_own [OF inv votes c refl 2(2,3,5,6,1,4)] 2(4) show ?thesis by simp
  qed
qed

lemma log_inv_receive:
  assumes inv: "log_inv M cl H" and p: "p \<in> M" and m: "m \<in> appends cl"
    and call: "handleAppendEntries ev m (nodes cl p) = Inr (r, s')"
  shows "log_inv M (set_node p s' cl) H"
proof -
  have H: "history_ok cl H" and mem: "log_member cl H p" using inv p by (simp_all add: log_inv_def)
  from inv m obtain l where l: "ae_entries m = [] \<or> l \<in> H \<and> backed m l" by (auto simp: log_inv_def)
  then have l': "ae_entries m = [] \<or> backed m l \<and> log_ok l \<and> log_match l (log_of (store (nodes cl p)))"
    using history_okD(1,3) [OF H] mem by (auto simp: log_member_def)
  have st: "store_inv (store (nodes cl p))" using mem by (simp add: log_member_def)
  have logs: "store_inv (store s') \<and> log_of (store s') \<in> H"
  proof (cases "ae_entries m = []")
    case True
    with receive_log [OF st call, of "log_of (store (nodes cl p))"] mem show ?thesis by (auto simp: log_member_def)
  next
    case False
    with receive_log [OF st call l'] l mem show ?thesis by (auto simp: log_member_def)
  qed
  show ?thesis
  proof (rule log_inv_vote_step [OF inv vote_step_handleAppendEntries [OF call] logs])
    assume "state s' = LEADER"
    with handleAppendEntries_cases [OF call] show "log_of (store s') = log_of (store (nodes cl p))" by auto
  qed
qed

lemma log_inv_win:
  assumes inv: "log_inv M cl H" and votes: "cluster_inv M cl" and c: "c \<in> M" and s: "s = nodes cl c"
    and b: "ballots cl c = Some b" and maj: "bl_votes b \<ge> majority s" and cand: "state s = CANDIDATE"
    and room: "log_room s"
  shows "log_inv M ((set_node c (take_office s) cl)\<lparr>
    ballots := (ballots cl)(c := None), won := insert (cur_term s, c) (won cl)\<rparr>)
    (insert (log_of (store s) @ [noop_entry s]) H)"
proof -
  let ?led = "(set_node c (s\<lparr>state := LEADER\<rparr>) cl)\<lparr>ballots := (ballots cl)(c := None),
    won := insert (cur_term s, c) (won cl)\<rparr>"
  have votes2: "cluster_inv M ?led" by (rule inv_elected [OF votes c s b maj cand])
  have inv0: "log_inv M (cl\<lparr>ballots := (ballots cl)(c := None)\<rparr>) H" using inv by (simp add: log_inv_other)
  have eq: "?led = (set_node c (s\<lparr>state := LEADER\<rparr>) (cl\<lparr>ballots := (ballots cl)(c := None)\<rparr>))
      \<lparr>won := insert (cur_term s, c) (won (cl\<lparr>ballots := (ballots cl)(c := None)\<rparr>))\<rparr>"
    by (rule Cluster.equality) simp_all
  have inv2: "log_inv M ?led H"
    unfolding eq by (rule log_inv_elected [OF inv0 _ cand votes2 [unfolded eq]]) (simp add: s)
  have st: "store_inv (store s)" using inv c s by (simp add: log_inv_def log_member_def)
  note new = store_inv_new_entry [OF st room command_ok_noop]
  have "log_inv M (set_node c (take_office s) ?led)
      (insert (log_of (store (s\<lparr>state := LEADER\<rparr>)) @ [noop_entry s]) H)" (is "log_inv M _ ?H")
    by (rule log_inv_own [OF inv2 votes2 c]) (use new in \<open>simp_all add: mk_LogEntry_def Let_def\<close>)
  moreover have "set_node c (take_office s) ?led = (set_node c (take_office s) cl)\<lparr>
      ballots := (ballots cl)(c := None), won := insert (cur_term s, c) (won cl)\<rparr>"
    by (rule Cluster.equality) simp_all
  moreover have "?H = insert (log_of (store s) @ [noop_entry s]) H" by simp
  ultimately show ?thesis by (simp only:)
qed

lemma log_inv_timeout:
  assumes inv: "log_inv M cl H" and c: "c \<in> M" and s: "s = nodes cl c" and room: "cur_term s + 1 \<noteq> 0"
  shows "log_inv M (set_node c (election_begin ev s) cl) H"
proof (rule log_inv_node [OF inv s])
  have "log_member cl H c" using inv c by (simp add: log_inv_def)
  then show "store_inv (store (election_begin ev s)) \<and> log_of (store (election_begin ev s)) \<in> H"
    using election_begin_store [of s ev] s by (simp add: log_member_def election_begin_eq)
  have "cur_term s < cur_term s + 1"
    using room unatSuc [of "cur_term s"] by (simp add: word_less_nat_alt add.commute)
  then show "cur_term s \<le> cur_term (election_begin ev s)"
    and "cur_term (election_begin ev s) = cur_term s \<Longrightarrow> state s = CANDIDATE"
    by (simp_all add: election_begin_eq)
qed (simp add: election_begin_eq)

lemma log_inv_crash:
  assumes inv: "log_inv M cl H" and votes: "cluster_inv M cl" and c: "c \<in> M"
    and img: "crash_image (store (nodes cl c)) st" and init: "RaftNode_init ev c ps (st_disk st) = Inr s'"
    and ps: "map peer_id ps = map peer_id (peers (nodes cl c))"
  shows "log_inv M (set_node c s' cl) H"
proof -
  have H: "history_ok cl H" and mem: "log_member cl H c" using inv c by (simp_all add: log_inv_def)
  note v = crash_vote_step [OF votes c img init ps]
  have st: "store_inv (store (nodes cl c))" using mem by (simp add: log_member_def)
  from crash_image_store [OF img st] obtain k where st': "store_inv st"
    and k: "log_of st = take k (log_of (store (nodes cl c)))" by blast
  from RaftNode_init_store [OF st' init] k history_okD(2) [OF H, of _ k] mem
  have "store_inv (store s') \<and> log_of (store s') \<in> H" by (simp add: log_member_def)
  with v show ?thesis by (intro log_inv_vote_step [OF inv]) simp_all
qed

lemma log_inv_answer:
  assumes inv: "log_inv M cl H" and c: "c \<in> M" and s: "s = nodes cl c"
    and rpc: "sendRPC io req (peers s ! i) = (r, p)"
    and call: "election_reply ev r n (s\<lparr>peers := (peers s)[i := p]\<rparr>) = Inr (v, s')"
  shows "log_inv M (set_node c s' cl) H"
proof (rule log_inv_same_log [OF inv c])
  show "vote_step (nodes cl c) s'"
    using vote_step_rpc [OF rpc] vote_step_election_reply [OF call] s by (blast intro: vote_step_trans)
  show "store_inv (store s') \<and> log_of (store s') = log_of (store (nodes cl c))" if "store_inv (store (nodes cl c))"
    using election_reply_store [OF call] that s by simp
qed

lemma log_inv_send:
  assumes inv: "log_inv M cl H" and c: "c \<in> M" and call: "prepare_AppendEntries i (nodes cl c) = Inr ae"
  shows "log_inv M (cl\<lparr>appends := insert ae (appends cl)\<rparr>) H"
proof -
  have mem: "log_member cl H c" using inv c by (simp add: log_inv_def)
  then have "ae_entries ae = [] \<or> (\<exists>l \<in> H. backed ae l)"
    using prepare_backed [OF _ call] by (auto simp: log_member_def)
  with inv show ?thesis by (simp add: log_inv_def history_ok_def log_member_def past_wins_def)
qed

lemma log_inv_vote:
  assumes "log_inv M cl H" and "p \<in> M" and call: "handleRequestVote ev m (nodes cl p) = (r, s')"
  shows "log_inv M (set_node p s' cl) H"
  using handleRequestVote_store [OF call] vote_step_handleRequestVote [OF call]
  by (intro log_inv_same_log [OF assms(1,2)])

lemma log_inv_election:
  "election_step M cl cl' \<Longrightarrow> cluster_inv M cl \<Longrightarrow> log_inv M cl H \<Longrightarrow> \<exists>H'. log_inv M cl' H'"
proof (induction rule: election_step.induct)
  case (timeout c s cl ev s')
  then have "log_inv M (set_node c s' cl) H" by (blast intro: log_inv_timeout)
  then show ?case by (auto simp: log_inv_other)
next
  case (vote p m cl ev r s')
  from log_inv_vote [OF vote(5,1,3)] show ?case by (auto simp: log_inv_other)
next
  case (answer c s cl b i js io r p ev v s')
  have "log_inv M (set_node c s' cl) H" by (rule log_inv_answer [OF answer(9,1,2,5,7)])
  then show ?case by (auto simp: log_inv_other)
next
  case (win c s cl b)
  then show ?case using log_inv_win [OF win(9,8,1-3,5,6,7)] by blast
next
  case (lose c s cl b)
  then show ?case by (auto simp: log_inv_other)
qed

lemma log_inv_step:
  "cluster_step M cl cl' \<Longrightarrow> cluster_inv M cl \<Longrightarrow> log_inv M cl H \<Longrightarrow> \<exists>H'. log_inv M cl' H'"
proof (induction rule: cluster_step.induct)
  case (local c cl s')
  from log_inv_local [OF local(4,3,1,2)] show ?case by blast
next
  case (send c i cl ae)
  then show ?case by (blast intro: log_inv_send)
next
  case (receive p ae cl ev resp s')
  then show ?case by (blast intro: log_inv_receive)
next
  case (election cl cl')
  then show ?case by (blast intro: log_inv_election)
next
  case (crash c cl st ev ps s')
  have "log_inv M (set_node c s' cl) H" by (rule log_inv_crash [OF crash(6,5,1-4)])
  then show ?case by (auto simp: log_inv_other)
qed

lemma RaftNode_init_empty: "RaftNode_init ev c ps empty_disk = Inr (reset_timer ev 0 (fresh_node c ps))"
  by (simp add: RaftNode_init_def empty_disk_def Storage_open_empty replay_def readAll_def
      readAll_loop_end apply_entries_def reset_timer_def fresh_node_def)

lemma log_inv_start:
  assumes "cluster_start M cl"
  shows "log_inv M cl {[]}"
proof -
  have "log_member cl {[]} c" if c: "c \<in> M" for c
  proof -
    from assms c obtain ev ps where "RaftNode_init ev c ps empty_disk = Inr (nodes cl c)"
      by (auto simp: cluster_start_def)
    then have "nodes cl c = reset_timer ev 0 (fresh_node c ps)" by (simp add: RaftNode_init_empty)
    then show ?thesis
      using node_ok_store [OF node_ok_fresh, of c ps] log_of_fresh [of c ps]
      by (simp add: log_member_def reset_timer_def)
  qed
  then show ?thesis
    using assms by (simp add: log_inv_def history_ok_def past_wins_def cluster_start_def log_match_def)
qed

lemma log_inv_reachable: "reachable M cl \<Longrightarrow> \<exists>H. log_inv M cl H"
proof (induction rule: reachable.induct)
  case (start cl)
  then show ?case using log_inv_start by blast
next
  case (step cl cl')
  then show ?case using log_inv_step cluster_inv_reachable by blast
qed

section \<open>Whole operations are runs\<close>

text \<open>\<open>node_run M cl c s'\<close>: steps of the cluster take node \<open>c\<close> to \<open>s'\<close> and leave the others alone.\<close>

definition node_run :: "c_int set \<Rightarrow> Cluster \<Rightarrow> c_int \<Rightarrow> RaftNode \<Rightarrow> bool" where
  "node_run M cl c s' \<longleftrightarrow> (\<exists>cl'. (cluster_step M)\<^sup>*\<^sup>* cl cl' \<and> nodes cl' = (nodes cl)(c := s'))"

lemma node_run_refl: "node_run M cl c (nodes cl c)"
  unfolding node_run_def by (intro exI [of _ cl]) simp

lemma node_run_step:
  assumes "cluster_step M cl cl1" and "nodes cl1 = (nodes cl)(c := s1)"
    and "node_run M cl1 c s'"
  shows "node_run M cl c s'"
proof -
  from assms(3) obtain cl' where "(cluster_step M)\<^sup>*\<^sup>* cl1 cl'" and "nodes cl' = (nodes cl1)(c := s')"
    unfolding node_run_def by blast
  with assms(1,2) show ?thesis
    unfolding node_run_def
    by (intro exI [of _ cl'] conjI converse_rtranclp_into_rtranclp [of "cluster_step M" cl cl1]) simp_all
qed

lemma node_run_local:
  assumes "c \<in> M" and "local_step (nodes cl c) s1" and "node_run M (set_node c s1 cl) c s'"
  shows "node_run M cl c s'"
  by (rule node_run_step [OF cluster_step.local [OF assms(1,2)] _ assms(3)]) simp

lemma node_run_send:
  assumes c: "c \<in> M" and call: "sendAppendEntries io i (nodes cl c) = Inr s1"
    and rest: "\<And>cl1. nodes cl1 = (nodes cl)(c := s1) \<Longrightarrow> node_run M cl1 c s'"
  shows "node_run M cl c s'"
proof -
  from call obtain ae r p where ae: "prepare_AppendEntries i (nodes cl c) = Inr ae"
    and rpc: "sendRPC io (AppendEntries_serialize ae) (peers (nodes cl c) ! i) = (r, p)"
    and reply: "handle_append_reply i ae r ((nodes cl c)\<lparr>peers := (peers (nodes cl c))[i := p]\<rparr>) = Inr s1"
    by (auto simp: sendAppendEntries_def elim!: bind_result_InrE split: prod.splits)
  let ?cl = "cl\<lparr>appends := insert ae (appends cl)\<rparr>"
  let ?s = "(nodes cl c)\<lparr>peers := (peers (nodes cl c))[i := p]\<rparr>"
  have 3: "node_run M (set_node c s1 (set_node c ?s ?cl)) c s'" by (rule rest) simp
  have reply': "handle_append_reply i ae r (nodes (set_node c ?s ?cl) c) = Inr s1" using reply by simp
  have 2: "node_run M (set_node c ?s ?cl) c s'"
    by (rule node_run_local [OF c local_step.reply [OF reply'] 3])
  have "local_step (nodes ?cl c) ?s" using local_step.quiet [OF quiet_step.call [OF rpc]] by simp
  from node_run_local [OF c this 2] have 1: "node_run M ?cl c s'" .
  show ?thesis by (rule node_run_step [OF cluster_step.send [OF c ae] _ 1, of "nodes cl c"]) simp
qed

lemma node_run_sends:
  assumes c: "c \<in> M"
  shows "for_each (\<lambda>i. sendAppendEntries (io i) i) js (nodes cl c) = Inr s' \<Longrightarrow> node_run M cl c s'"
proof (induction js arbitrary: cl)
  case Nil
  then show ?case using node_run_refl [of M cl c] by simp
next
  case (Cons i js)
  then obtain s1 where s1: "sendAppendEntries (io i) i (nodes cl c) = Inr s1"
    and rest: "for_each (\<lambda>i. sendAppendEntries (io i) i) js s1 = Inr s'"
    by (auto elim: bind_result_InrE)
  show ?case by (rule node_run_send [OF c s1]) (simp add: Cons.IH rest)
qed

lemma node_run_sendAll: "c \<in> M \<Longrightarrow> sendAll io (nodes cl c) = Inr s' \<Longrightarrow> node_run M cl c s'"
  by (simp add: sendAll_def node_run_sends)

lemma heartbeat_runs:
  assumes c: "c \<in> M" and lead: "state (nodes cl c) = LEADER"
    and call: "background_step ev io (nodes cl c) = Inr s'"
  shows "node_run M cl c s'"
proof (cases "fst (ev 2) - last_heartbeat (nodes cl c) \<ge> 100")
  case True
  with call lead have "sendAll (io 0) ((nodes cl c)\<lparr>last_heartbeat := fst (ev 2)\<rparr>) = Inr s'"
    by (simp add: background_step_def Let_def)
  then have "node_run M (set_node c ((nodes cl c)\<lparr>last_heartbeat := fst (ev 2)\<rparr>) cl) c s'"
    by (intro node_run_sendAll [OF c]) simp
  then show ?thesis by (rule node_run_local [OF c local_step.quiet [OF quiet_step.heartbeat [OF lead True]]])
next
  case False
  with call lead node_run_refl [of M cl c] show ?thesis by (simp add: background_step_def Let_def)
qed

lemma submit_runs:
  assumes c: "c \<in> M" and "command_ok cmd" and "log_room (nodes cl c)"
    and call: "submit_begin io cmd (nodes cl c) = Inr (idx, s')"
  shows "node_run M cl c s'"
proof -
  from call obtain s1 where s1: "submit_append cmd (nodes cl c) = Inr (idx, s1)" and "sendAll io s1 = Inr s'"
    by (auto simp: submit_begin_def elim!: bind_result_InrE)
  then have "node_run M (set_node c s1 cl) c s'" by (intro node_run_sendAll [OF c]) simp
  then show ?thesis by (rule node_run_local [OF c local_step.quiet [OF quiet_step.submit [OF s1 assms(2,3)]]])
qed

lemma get_runs:
  assumes c: "c \<in> M" and "log_room (nodes cl c)" and call: "get_begin io (nodes cl c) = Inr (idx, s')"
  shows "node_run M cl c s'"
proof -
  from call obtain s1 where s1: "get_append (nodes cl c) = Inr (idx, s1)" and "sendAll io s1 = Inr s'"
    by (auto simp: get_begin_def elim!: bind_result_InrE)
  then have "node_run M (set_node c s1 cl) c s'" by (intro node_run_sendAll [OF c]) simp
  then show ?thesis by (rule node_run_local [OF c local_step.quiet [OF quiet_step.get [OF s1 assms(2)]]])
qed

lemma election_end_runs:
  assumes c: "c \<in> M" and room: "log_room (nodes cl c)" and b: "ballots cl c = Some b" "bl_todo b = []"
    and call: "election_end io (bl_votes b) (nodes cl c) = Inr s'"
  shows "node_run M cl c s'"
proof (cases "bl_votes b \<ge> majority (nodes cl c) \<and> state (nodes cl c) = CANDIDATE")
  case True
  let ?s = "nodes cl c"
  let ?led = "(set_node c (take_office ?s) cl)\<lparr>ballots := (ballots cl)(c := None),
    won := insert (cur_term ?s, c) (won cl)\<rparr>"
  from call True have "sendAll io (take_office ?s) = Inr s'" by (simp add: election_end_def becomeLeader_def)
  then have "node_run M ?led c s'" by (intro node_run_sendAll [OF c]) simp
  from node_run_step [OF cluster_step.election [OF election_step.win [OF c refl b]] _ this, of "take_office ?s"] True room
  show ?thesis by simp
next
  case False
  with call have "s' = nodes cl c" by (auto simp: election_end_def)
  with node_run_refl show ?thesis by simp
qed

end
