(* ===== verification/Recovery.thy ===== *)
theory Recovery
  imports Leadership
begin

text \<open>
  Restarting a node from its files: what a clean restart gives back, that the metadata file is
  replaced atomically, and what the two kinds of damage to the log file do, a record with a
  wrong checksum and a record that was only partly written.
\<close>

section \<open>Restart\<close>

lemma replay_eq:
  assumes inv: "store_inv (store s)" and fresh: "sm s = StateMachine_init"
    and zero: "getCommit (store s) = 0" "getApplied (store s) = 0"
  defines "n \<equiv> of_nat (length (log_of (store s)))"
  shows "\<exists>st. replay s = Inr (s\<lparr>sm := run_log (log_of (store s)) StateMachine_init, store := st\<rparr>)
    \<and> store_inv st \<and> log_of st = log_of (store s) \<and> getTerm st = cur_term s \<and> getVoted st = getVoted (store s)
    \<and> getCommit st = n \<and> getApplied st = n"
proof -
  let ?log = "log_of (store s)"
  have ok: "log_ok ?log" using inv by (simp add: store_inv_def)
  have rd: "readAll (store s) = Inr ?log" by (rule store_inv_readAll [OF inv])
  have ap: "apply_entries ?log (sm s) = Inr (run_log ?log StateMachine_init)"
    using apply_entries_log [OF ok] fresh by simp
  show ?thesis
  proof (cases "?log = []")
    case True
    with rd ap inv zero show ?thesis
      by (intro exI [of _ "store s"]) (simp add: replay_def Let_def fresh n_def)
  next
    case False
    with log_ok_last [OF ok] have "le_index (last ?log) = n" by (simp add: n_def)
    with False rd ap inv show ?thesis
      by (intro exI [of _ "setCommit n (setApplied n (store s))"]) (simp add: replay_def Let_def)
  qed
qed

text \<open>
  C20. A node that restarts on the files of a well-formed node comes up as a follower with the
  same term, vote and log; commit index and applied index stand at the end of the log, and the
  state machine is the result of the whole log (\<^verbatim>\<open>replay\<close> takes every entry as committed).
\<close>

theorem restart_recovers:
  assumes inv: "store_inv (store s)"
  shows "\<exists>s'. RaftNode_init ev c ps (st_disk (store s)) = Inr s' \<and> node_ok s' \<and> committed_ok s'
    \<and> state s' = FOLLOWER \<and> node_id s' = c \<and> cur_term s' = cur_term s
    \<and> getVoted (store s') = getVoted (store s) \<and> log_of (store s') = log_of (store s)
    \<and> getCommit (store s') = of_nat (length (log_of (store s)))
    \<and> getApplied (store s') = getCommit (store s') \<and> sm s' = run_log (log_of (store s)) StateMachine_init"
proof -
  obtain st where st: "Storage_open (st_disk (store s)) = Inr st" "store_inv st"
    "log_of st = log_of (store s)" "getTerm st = cur_term s" "getVoted st = getVoted (store s)"
    "getCommit st = 0" "getApplied st = 0" by (rule Storage_open_reopens [OF inv])
  let ?n = "\<lparr>store = st, sm = StateMachine_init, node_id = c, peers = ps, state = FOLLOWER, running = True,
    last_heartbeat = 0, current_timeout = 0, current_leader_id = 0, nextIndex = [], matchIndex = [],
    noop_committed = False\<rparr>"
  obtain st' where st': "replay ?n = Inr (?n\<lparr>sm := run_log (log_of st) StateMachine_init, store := st'\<rparr>)"
    "store_inv st'" "log_of st' = log_of st" "getTerm st' = getTerm st" "getVoted st' = getVoted st"
    "getCommit st' = of_nat (length (log_of st))" "getApplied st' = of_nat (length (log_of st))"
    using replay_eq [of ?n] st by auto
  let ?s = "reset_timer ev 0 (?n\<lparr>sm := run_log (log_of st) StateMachine_init, store := st'\<rparr>)"
  have len: "unat (of_nat (length (log_of st)) :: u64) = length (log_of st)"
    using st(2) by (intro unat_of_nat_u64) (simp add: store_inv_def log_ok_def)
  have "RaftNode_init ev c ps (st_disk (store s)) = Inr ?s"
    using st(1) st'(1) by (simp add: RaftNode_init_def)
  moreover have "node_ok ?s" using st'(2) by (simp add: node_ok_def reset_timer_def)
  moreover have "committed_ok ?s" using st' len by (simp add: committed_ok_def reset_timer_def)
  ultimately show ?thesis using st st' by (intro exI [of _ ?s]) (simp add: reset_timer_def)
qed

theorem restart_recovers_witness:
  "\<exists>s'. RaftNode_init (\<lambda>k. (7, 9)) 1 [] (st_disk (store (fresh_node 1 []))) = Inr s' \<and> state s' = FOLLOWER
    \<and> cur_term s' = 0 \<and> log_of (store s') = []"
proof -
  have "store_inv (store (fresh_node 1 []))" by (rule node_ok_store [OF node_ok_fresh])
  from restart_recovers [OF this, of "\<lambda>k. (7, 9)" 1 "[]"] show ?thesis
    by (auto simp: log_of_fresh) (auto simp: fresh_node_def)
qed

section \<open>The metadata file\<close>

text \<open>
  C21. \<^verbatim>\<open>save_meta\<close> is atomic: a crash at any point while the temporary file is written, byte by
  byte, or before the rename leaves the old term and vote, and after the rename the new ones are
  there; the log is the same either way.
\<close>

theorem save_meta_atomic:
  assumes inv: "store_inv s" and v: "length v < 2 ^ 32"
  shows "(\<forall>n. \<exists>s1. Storage_open ((st_disk (write_meta_tmp (s\<lparr>st_term := t, st_voted := v\<rparr>)))
          \<lparr>raft_meta_tmp := Some (take n (meta_bytes t v))\<rparr>) = Inr s1
      \<and> st_term s1 = st_term s \<and> st_voted s1 = st_voted s \<and> log_of s1 = log_of s) \<and>
    (\<exists>s2. Storage_open (st_disk (save_meta (s\<lparr>st_term := t, st_voted := v\<rparr>))) = Inr s2
      \<and> st_term s2 = t \<and> st_voted s2 = v \<and> log_of s2 = log_of s)"
proof (intro conjI allI)
  fix n
  let ?s1 = "s\<lparr>st_disk := (st_disk (write_meta_tmp (s\<lparr>st_term := t, st_voted := v\<rparr>)))
    \<lparr>raft_meta_tmp := Some (take n (meta_bytes t v))\<rparr>\<rparr>"
  have "meta_ok ?s1 = meta_ok s" by (rule meta_ok_cong) (simp_all add: write_meta_tmp_def)
  moreover have "at_end ?s1 = at_end s" by (simp add: at_end_def write_meta_tmp_def)
  ultimately have "store_inv ?s1 \<and> log_of ?s1 = log_of s"
    by (intro store_invI) (use inv in \<open>simp_all add: store_inv_def, simp_all add: write_meta_tmp_def\<close>)
  then have 1: "store_inv ?s1" "log_of ?s1 = log_of s" by simp_all
  obtain s1 where "Storage_open (st_disk ?s1) = Inr s1" "log_of s1 = log_of ?s1"
    "st_term s1 = st_term ?s1" "st_voted s1 = st_voted ?s1"
    by (rule Storage_open_reopens [OF 1(1)])
  with 1 show "\<exists>s1. Storage_open ((st_disk (write_meta_tmp (s\<lparr>st_term := t, st_voted := v\<rparr>)))
        \<lparr>raft_meta_tmp := Some (take n (meta_bytes t v))\<rparr>) = Inr s1
      \<and> st_term s1 = st_term s \<and> st_voted s1 = st_voted s \<and> log_of s1 = log_of s" by simp
next
  let ?s2 = "save_meta (s\<lparr>st_term := t, st_voted := v\<rparr>)"
  have "at_end ?s2 = at_end s" by (simp add: at_end_def)
  then have "store_inv ?s2 \<and> log_of ?s2 = log_of s"
    by (intro store_invI) (use inv v in \<open>simp_all add: store_inv_def meta_ok_def\<close>)
  then have 2: "store_inv ?s2" "log_of ?s2 = log_of s" by simp_all
  obtain s2 where "Storage_open (st_disk ?s2) = Inr s2" "log_of s2 = log_of ?s2"
    "st_term s2 = st_term ?s2" "st_voted s2 = st_voted ?s2"
    by (rule Storage_open_reopens [OF 2(1)])
  with 2 show "\<exists>s2. Storage_open (st_disk (save_meta (s\<lparr>st_term := t, st_voted := v\<rparr>))) = Inr s2
      \<and> st_term s2 = t \<and> st_voted s2 = v \<and> log_of s2 = log_of s" by simp
qed

theorem save_meta_atomic_witness:
  "\<exists>s1 s2. Storage_open ((st_disk (write_meta_tmp ((store (fresh_node 1 []))\<lparr>st_term := 4, st_voted := ''2''\<rparr>)))
          \<lparr>raft_meta_tmp := Some (take 5 (meta_bytes 4 ''2''))\<rparr>) = Inr s1
    \<and> st_term s1 = 0 \<and> st_voted s1 = []
    \<and> Storage_open (st_disk (save_meta ((store (fresh_node 1 []))\<lparr>st_term := 4, st_voted := ''2''\<rparr>))) = Inr s2
    \<and> st_term s2 = 4 \<and> st_voted s2 = ''2''"
proof -
  have "store_inv (store (fresh_node 1 []))" by (rule node_ok_store [OF node_ok_fresh])
  note both = save_meta_atomic [OF this, of "''2''" 4]
  have a: "\<exists>s1. Storage_open ((st_disk (write_meta_tmp ((store (fresh_node 1 []))\<lparr>st_term := 4, st_voted := ''2''\<rparr>)))
          \<lparr>raft_meta_tmp := Some (take 5 (meta_bytes 4 ''2''))\<rparr>) = Inr s1
      \<and> st_term s1 = cur_term (fresh_node 1 []) \<and> st_voted s1 = getVoted (store (fresh_node 1 []))"
    using both by simp blast
  have b: "\<exists>s2. Storage_open (st_disk (save_meta ((store (fresh_node 1 []))\<lparr>st_term := 4, st_voted := ''2''\<rparr>))) = Inr s2
      \<and> st_term s2 = 4 \<and> st_voted s2 = ''2''" using both by simp blast
  have "cur_term (fresh_node 1 []) = 0" "getVoted (store (fresh_node 1 [])) = []" by (simp_all add: fresh_node_def)
  with a b show ?thesis by metis
qed

section \<open>Damaged log files\<close>

lemma readAll_open:
  "readAll (load_meta (Storage_members d)) =
   readAll_loop (file_bytes (raft_log d)) 0"
  by (simp add: readAll_def load_meta_def Storage_members_def Let_def split: option.split)

text \<open>
  C29. When the last record of the log file was only partly written (a crash in the middle of
  \<^verbatim>\<open>append\<close>), opening the store reads past the end of the buffer: undefined behaviour, not a log
  without that record.
\<close>

theorem torn_record_undefined:
  assumes "log_ok es" and "entry_ok x" and "0 < n" and "n < length (LogEntry_serialize x)"
    and "raft_log d = Some (log_file es @ take n (LogEntry_serialize x))"
  shows "Storage_open d = Inl Undefined"
proof -
  have "readAll_loop (file_bytes (raft_log d)) 0 = Inl Undefined"
    using readAll_loop_torn [of es x n] assms log_ok_entries [OF assms(1)] by (simp add: file_bytes_def)
  then show ?thesis unfolding Storage_open_def Let_def readAll_open by simp
qed

theorem torn_record_undefined_witness:
  "Storage_open \<lparr>raft_log = Some (take 7 (LogEntry_serialize (mk_LogEntry 1 1 (mk_Command PUT ''k'' ''v'')))),
     raft_meta = None, raft_meta_tmp = None\<rparr> = Inl Undefined"
  by (rule torn_record_undefined [of "[]" "mk_LogEntry 1 1 (mk_Command PUT ''k'' ''v'')" 7])
    (simp_all add: log_ok_def mk_LogEntry_ok command_ok_def mk_Command_def len_simps)

text \<open>
  C30. A record whose checksum does not match ends the log: opening the store keeps the records
  in front of it, in order, and leaves the rest out. But the damaged record stays in the file, so
  an entry appended afterwards comes behind it and cannot be read back.
\<close>

theorem corrupt_record_cut:
  assumes ok: "log_ok es" and "length (le_command x) < 2 ^ 32" and "\<not> LogEntry_verify x"
    and f: "raft_log d = Some (log_file es @ LogEntry_serialize x @ rest)"
  shows "\<exists>s. Storage_open d = Inr s \<and> readAll s = Inr es \<and> unat (logLen s) = length es
    \<and> getLastLogTerm s = last_term es \<and> (\<forall>e. readAll (append_entry e s) = Inr es)"
proof -
  have bad: "readAll_loop (log_file es @ LogEntry_serialize x @ more) 0 = Inr es" for more
    using readAll_loop_corrupt [of es x more] assms log_ok_entries [OF ok] by simp
  have rd: "readAll_loop (file_bytes (raft_log d)) 0 = Inr es"
    using bad f by (simp add: file_bytes_def)
  define s0 where "s0 = load_meta (Storage_members d)"
  have r0: "readAll s0 = Inr es" unfolding s0_def readAll_open by (rule rd)
  have z: "logLen s0 = 0" "getLastLogTerm s0 = 0"
    by (simp_all add: s0_def load_meta_def Storage_members_def Let_def split: option.split)
  have len: "unat (of_nat (length es) :: u64) = length es"
    using ok by (intro unat_of_nat_u64) (simp add: log_ok_def)
  let ?s = "if es \<noteq> [] then save_meta (s0\<lparr>st_log_length := le_index (last es), st_last_log_term := le_term (last es)\<rparr>) else s0"
  have "Storage_open d = Inr ?s"
    unfolding Storage_open_def Let_def s0_def [symmetric] by (simp add: r0)
  moreover have "readAll ?s = Inr es" using r0 by (simp add: readAll_def)
  moreover have "log_fd ?s = Appending" "raft_log (st_disk ?s) = Some (log_file es @ LogEntry_serialize x @ rest)"
    using f by (simp_all add: s0_def load_meta_def Storage_members_def Let_def file_bytes_def split: option.split)
  then have "readAll (append_entry e ?s) = Inr es" for e
    using bad [of "rest @ LogEntry_serialize e"]
    by (simp add: readAll_def append_entry_def write_log_def file_bytes_def)
  ultimately show ?thesis using z len log_ok_last [OF ok]
    by (intro exI [of _ ?s]) (simp add: last_term_def)
qed

theorem corrupt_record_cut_witness:
  "\<exists>s. Storage_open \<lparr>raft_log = Some (LogEntry_serialize (mk_LogEntry 1 1 (mk_Command PUT ''k'' ''v''))
      @ LogEntry_serialize ((mk_LogEntry 1 2 (mk_Command DELETE ''k'' []))
          \<lparr>le_crc := le_crc (mk_LogEntry 1 2 (mk_Command DELETE ''k'' [])) + 1\<rparr>)),
      raft_meta = None, raft_meta_tmp = None\<rparr> = Inr s \<and> unat (logLen s) = 1
    \<and> readAll (append_entry (mk_LogEntry 1 2 (mk_Command PUT ''k'' ''w'')) s) =
        Inr [mk_LogEntry 1 1 (mk_Command PUT ''k'' ''v'')]"
proof -
  let ?e = "mk_LogEntry 1 1 (mk_Command PUT ''k'' ''v'')" and ?y = "mk_LogEntry 1 2 (mk_Command DELETE ''k'' [])"
  let ?x = "?y\<lparr>le_crc := le_crc ?y + 1\<rparr>"
  let ?d = "\<lparr>raft_log = Some (LogEntry_serialize ?e @ LogEntry_serialize ?x), raft_meta = None, raft_meta_tmp = None\<rparr>"
  have c: "command_ok (mk_Command PUT ''k'' ''v'')" by (simp add: command_ok_def mk_Command_def)
  have ok: "log_ok [?e]"
    using c by (simp add: log_ok_def entry_good_def mk_LogEntry_ok getCommand_mk_LogEntry)
  have bad: "\<not> LogEntry_verify ?x"
    using mk_LogEntry_verify [of 1 2 "mk_Command DELETE ''k'' []"] by (simp add: LogEntry_verify_def)
  have "\<exists>s. Storage_open ?d = Inr s \<and> readAll s = Inr [?e] \<and> unat (logLen s) = length [?e]
      \<and> getLastLogTerm s = last_term [?e] \<and> (\<forall>e. readAll (append_entry e s) = Inr [?e])"
    by (rule corrupt_record_cut [OF ok _ bad, of _ "[]"]) (simp_all add: mk_Command_def len_simps)
  then show ?thesis by auto
qed

section \<open>A crash while the log is cut\<close>

text \<open>
  \<^verbatim>\<open>truncate\<close> empties the file and writes the records it keeps one after the other. When the node
  stops behind the j-th of them, the records after it are gone, although the operation was to
  keep them: unlike the metadata the log is not replaced as a whole.
\<close>

lemma truncate_not_atomic:
  assumes inv: "store_inv s" and j: "j \<le> length (log_of s)"
    and st: "st = fold (\<lambda>e. write_log (LogEntry_serialize e)) (take j (log_of s))
      (s\<lparr>log_fd := At 0, st_disk := (st_disk s)\<lparr>raft_log := Some []\<rparr>\<rparr>)"
  shows "\<exists>s'. Storage_open (st_disk st) = Inr s' \<and> log_of s' = take j (log_of s) \<and> st_term s' = st_term s"
proof -
  let ?es = "take j (log_of s)"
  let ?t = "st\<lparr>st_log_length := of_nat (length ?es), st_last_log_term := last_term ?es\<rparr>"
  let ?s0 = "s\<lparr>log_fd := At 0, st_disk := (st_disk s)\<lparr>raft_log := Some []\<rparr>\<rparr>"
  have "at_end ?s0" by (simp add: at_end_def file_bytes_def)
  then have f: "raft_log (st_disk st) = Some (log_file ?es) \<and> at_end st"
    using fold_write_log_end [of ?s0 "[]" ?es] by (simp add: st)
  have m: "st_term st = st_term s" "st_voted st = st_voted s" "raft_meta (st_disk st) = raft_meta (st_disk s)"
    by (simp_all add: st fold_write_log)
  then have "meta_ok ?t = meta_ok s" by (intro meta_ok_cong) simp_all
  with inv f have "store_inv ?t \<and> log_of ?t = ?es"
    by (intro store_invI) (simp_all add: store_inv_def log_ok_take)
  then have t: "store_inv ?t" "log_of ?t = ?es" by simp_all
  obtain s' where "Storage_open (st_disk ?t) = Inr s'" "log_of s' = log_of ?t" "st_term s' = st_term ?t"
    by (rule Storage_open_reopens [OF t(1)]) blast
  with t m show ?thesis by simp
qed

end
