(* ===== verification/Completeness.thy ===== *)
theory Completeness
  imports LogMatching Recovery "HOL-Library.Sublist"
begin

text \<open>
  The argument for leader completeness, on the history of a cluster: all logs there have been,
  the log each winner had when it was elected, the logs that nodes acknowledged, and the logs
  voters had when they voted. It uses no step of the cluster; \<open>Safety\<close> shows that orderly runs
  have such a history.
\<close>

section \<open>Histories\<close>

record history =
  logs :: "LogEntry list set"
  elected :: "u64 \<rightharpoonup> LogEntry list"
  acks :: "(c_int \<times> u64 \<times> LogEntry list) set"
  voters_logs :: "(c_int \<times> u64 \<times> LogEntry list) set"

text \<open>A log that ends in term \<open>t\<close> is the log its leader was elected with and entries of \<open>t\<close>.\<close>

definition led_by :: "LogEntry list \<Rightarrow> u64 \<Rightarrow> LogEntry list \<Rightarrow> bool" where
  "led_by l t L \<longleftrightarrow> strict_prefix L l \<and> (\<forall>e \<in> set (drop (length L) l). le_term e = t)"

definition terms_inv :: "history \<Rightarrow> bool" where
  "terms_inv G \<longleftrightarrow>
     (\<forall>t L. elected G t = Some L \<longrightarrow> t \<noteq> 0 \<and> L \<in> logs G \<and> (\<forall>e \<in> set L. le_term e < t))
     \<and> (\<forall>l \<in> logs G. l \<noteq> [] \<longrightarrow> (\<exists>L. elected G (last_term l) = Some L \<and> led_by l (last_term l) L))"

lemma terms_invD:
  assumes "terms_inv G"
  shows "elected G t = Some L \<Longrightarrow> t \<noteq> 0" and "elected G t = Some L \<Longrightarrow> L \<in> logs G"
    and "elected G t = Some L \<Longrightarrow> e \<in> set L \<Longrightarrow> le_term e < t"
    and "l \<in> logs G \<Longrightarrow> l \<noteq> [] \<Longrightarrow> \<exists>L. elected G (last_term l) = Some L \<and> led_by l (last_term l) L"
  using assms unfolding terms_inv_def by blast+

lemma led_by_prefix: "led_by l t L \<Longrightarrow> prefix L l"
  by (simp add: led_by_def strict_prefix_def)

lemma led_by_snoc: "led_by l t L \<Longrightarrow> le_term e = t \<Longrightarrow> led_by (l @ [e]) t L"
  by (auto simp: led_by_def strict_prefix_def prefix_length_le)

lemma last_term_snoc [simp]: "last_term (l @ [e]) = le_term e"
  by (simp add: last_term_def)

lemma led_by_nth:
  assumes "led_by l t L" and "length L \<le> i" and "i < length l"
  shows "le_term (l ! i) = t"
proof -
  have "l ! i \<in> set (drop (length L) l)"
    using assms(2,3) nth_mem [of "i - length L" "drop (length L) l"] by simp
  with assms(1) show ?thesis by (simp add: led_by_def)
qed

text \<open>Terms never fall along a log.\<close>

lemma terms_le:
  assumes inv: "terms_inv G" and l: "l \<in> logs G" and e: "e \<in> set l"
  shows "le_term e \<le> last_term l"
proof -
  from e have "l \<noteq> []" by auto
  from terms_invD(4) [OF inv l this] obtain L
    where L: "elected G (last_term l) = Some L" "led_by l (last_term l) L" by blast
  from led_by_prefix [OF L(2)] obtain r where "l = L @ r" by (rule prefixE)
  with e L terms_invD(3) [OF inv L(1)] show ?thesis by (force simp: led_by_def)
qed

lemma last_term_prefix:
  assumes "terms_inv G" and "m \<in> logs G" and "prefix l m"
  shows "last_term l \<le> last_term m"
proof (cases "l = []")
  case False
  then have "last l \<in> set m" using assms(3) by (auto simp: prefix_def)
  from terms_le [OF assms(1,2) this] False show ?thesis by (simp add: last_term_def)
qed (simp add: last_term_def)

lemma prefix_take: "prefix l m \<Longrightarrow> l = take (length l) m"
  by (auto simp: prefix_def)

lemma prefix_logs: "history_ok cl (logs G) \<Longrightarrow> m \<in> logs G \<Longrightarrow> prefix l m \<Longrightarrow> l \<in> logs G"
  using history_okD(2) prefix_take by metis

text \<open>Logs that end in the same term are prefixes of each other.\<close>

lemma same_leader_prefix:
  assumes inv: "terms_inv G" and H: "history_ok cl (logs G)" and l: "l \<in> logs G" "l \<noteq> []"
    and m: "m \<in> logs G" "m \<noteq> []" and t: "last_term l = last_term m" and len: "length l \<le> length m"
  shows "prefix l m"
proof -
  from terms_invD(4) [OF inv l] terms_invD(4) [OF inv m] t obtain L
    where L: "led_by l (last_term l) L" "led_by m (last_term l) L" by auto
  let ?i = "length l - 1"
  have i: "length L \<le> ?i" "?i < length l"
    using L(1) l(2) prefix_length_less [of L l] by (auto simp: led_by_def)
  then have "le_term (l ! ?i) = le_term (m ! ?i)" using led_by_nth [OF L(1)] led_by_nth [OF L(2)] len by simp
  moreover have "log_match l m" by (rule history_okD(3) [OF H l(1) m(1)])
  moreover have "?i < length m" using i len by simp
  ultimately have "take (Suc ?i) l = take (Suc ?i) m" using i(2) unfolding log_match_def by blast
  moreover have "Suc ?i = length l" using l(2) by simp
  ultimately have "l = take (length l) m" by simp
  then show ?thesis using take_is_prefix [of "length l" m] by simp
qed

section \<open>Acknowledged and chosen logs\<close>

definition acked :: "history \<Rightarrow> c_int \<Rightarrow> u64 \<Rightarrow> LogEntry list \<Rightarrow> bool" where
  "acked G p t l \<longleftrightarrow> l \<noteq> [] \<and> last_term l = t \<and> (\<exists>m. (p, t, m) \<in> acks G \<and> prefix l m)"

definition chosen :: "c_int set \<Rightarrow> history \<Rightarrow> u64 \<Rightarrow> LogEntry list \<Rightarrow> bool" where
  "chosen M G t l \<longleftrightarrow> l \<in> logs G \<and> l \<noteq> [] \<and> last_term l = t \<and> majority_of M {p \<in> M. acked G p t l}"

text \<open>What is known to be chosen no later than in term \<open>t\<close>.\<close>

definition settled :: "c_int set \<Rightarrow> history \<Rightarrow> u64 \<Rightarrow> LogEntry list \<Rightarrow> bool" where
  "settled M G t x \<longleftrightarrow> x = [] \<or> (\<exists>u l. u \<le> t \<and> chosen M G u l \<and> prefix x l)"

definition log_position :: "LogEntry list \<Rightarrow> log_pos" where
  "log_position l = Log_pos (last_term l) (of_nat (length l))"

lemma store_pos_log: "store_inv st \<Longrightarrow> store_pos st = log_position (log_of st)"
  by (simp add: store_pos_def log_position_def store_inv_def)

text \<open>
  Every winner had a majority of voters whose logs were not ahead of its own, and what a voter
  had acknowledged before was in its log, or contradicted by an earlier winner.
\<close>

definition votes_inv :: "c_int set \<Rightarrow> history \<Rightarrow> bool" where
  "votes_inv M G \<longleftrightarrow>
     (\<forall>u L. elected G u = Some L \<longrightarrow>
        majority_of M {p \<in> M. \<exists>v. (p, u, v) \<in> voters_logs G \<and> log_position v \<le> log_position L})
     \<and> (\<forall>p u v. (p, u, v) \<in> voters_logs G \<longrightarrow> v \<in> logs G
        \<and> (\<forall>t l. acked G p t l \<longrightarrow> t < u \<longrightarrow>
             prefix l v \<or> (\<exists>w L. t < w \<and> w < u \<and> elected G w = Some L \<and> \<not> prefix l L)))"

lemma votes_invD:
  assumes "votes_inv M G"
  shows "elected G u = Some L \<Longrightarrow>
      majority_of M {p \<in> M. \<exists>v. (p, u, v) \<in> voters_logs G \<and> log_position v \<le> log_position L}"
    and "(p, u, v) \<in> voters_logs G \<Longrightarrow> v \<in> logs G"
    and "(p, u, v) \<in> voters_logs G \<Longrightarrow> acked G p t l \<Longrightarrow> t < u \<Longrightarrow>
      prefix l v \<or> (\<exists>w L. t < w \<and> w < u \<and> elected G w = Some L \<and> \<not> prefix l L)"
  using assms unfolding votes_inv_def by blast+

lemma length_le_of_nat:
  assumes "log_ok l" and "log_ok m" and "(of_nat (length l) :: u64) \<le> of_nat (length m)"
  shows "length l \<le> length m"
  using assms by (simp add: word_le_nat_alt unat_of_nat_u64 log_ok_def)

text \<open>A log that was chosen is in the log of every later winner.\<close>

lemma chosen_elected:
  assumes terms: "terms_inv G" and H: "history_ok cl (logs G)" and votes: "votes_inv M G"
    and l: "chosen M G t l"
  shows "elected G u = Some L \<Longrightarrow> t < u \<Longrightarrow> prefix l L"
proof (induction "unat u" arbitrary: u L rule: less_induct)
  case less
  have IH: "prefix l K" if "elected G w = Some K" "t < w" "w < u" for w K
    using less(1) [OF _ that(1,2)] that(3) by (simp add: word_less_nat_alt)
  have ll: "l \<in> logs G" "l \<noteq> []" "last_term l = t" using l by (simp_all add: chosen_def)
  obtain p v where p: "acked G p t l" and v: "(p, u, v) \<in> voters_logs G" "log_position v \<le> log_position L"
    using mq.meet [of M "{p \<in> M. acked G p t l}", OF _ votes_invD(1) [OF votes less(2)]] l
    by (auto simp: chosen_def)
  from votes_invD(3) [OF votes v(1) p less(3)] IH have lv: "prefix l v" by blast
  have vL: "v \<in> logs G" "L \<in> logs G" using votes_invD(2) [OF votes v(1)] terms_invD(2) [OF terms less(2)] .
  have tv: "t \<le> last_term v" using last_term_prefix [OF terms vL(1) lv] ll(3) by simp
  have vLt: "last_term v \<le> last_term L" using v(2) by (auto simp: log_position_def less_eq_log_pos_def)
  have "t \<noteq> 0" using terms_invD(1,4) [OF terms] ll by blast
  with tv vLt have ne: "L \<noteq> []" by (auto simp: last_term_def)
  have "v \<noteq> []" using lv ll(2) by auto
  show ?case
  proof (cases "t < last_term L")
    case True
    from terms_invD(4) [OF terms vL(2) ne] obtain K
      where K: "elected G (last_term L) = Some K" "led_by L (last_term L) K" by blast
    have "last_term L < u" using terms_invD(3) [OF terms less(2), of "last L"] ne by (simp add: last_term_def)
    from IH [OF K(1) True this] led_by_prefix [OF K(2)] show ?thesis by (rule prefix_order.trans)
  next
    case False
    with tv vLt have eq: "last_term v = last_term L" by simp
    then have "length v \<le> length L"
      using v(2) length_le_of_nat [OF history_okD(1) [OF H vL(1)] history_okD(1) [OF H vL(2)]]
      by (simp add: log_position_def less_eq_log_pos_def)
    from same_leader_prefix [OF terms H vL(1) \<open>v \<noteq> []\<close> vL(2) ne eq this] lv
    show ?thesis by (blast intro: prefix_order.trans)
  qed
qed

text \<open>And in every log that ends in a later term.\<close>

lemma chosen_later:
  assumes terms: "terms_inv G" and "history_ok cl (logs G)" and "votes_inv M G" and "chosen M G t l"
    and m: "m \<in> logs G" "m \<noteq> []" and t: "t < last_term m"
  shows "prefix l m"
proof -
  from terms_invD(4) [OF terms m] obtain L where L: "elected G (last_term m) = Some L"
    "led_by m (last_term m) L" by blast
  from chosen_elected [OF assms(1-4) L(1) t] led_by_prefix [OF L(2)] show ?thesis
    by (rule prefix_order.trans)
qed

lemma chosen_same:
  assumes terms: "terms_inv G" and H: "history_ok cl (logs G)" and l: "chosen M G t l"
    and m: "m \<in> logs G" "m \<noteq> []" and t: "t = last_term m"
  shows "prefix l m \<or> prefix m l"
proof -
  have l': "l \<in> logs G" "l \<noteq> []" "last_term l = last_term m" using l t by (simp_all add: chosen_def)
  show ?thesis
    using same_leader_prefix [OF terms H l'(1,2) m l'(3)]
      same_leader_prefix [OF terms H m l'(1,2) l'(3) [symmetric]] by fastforce
qed

lemma settled_prefix: "settled M G t x \<Longrightarrow> prefix y x \<Longrightarrow> settled M G t y"
  unfolding settled_def by (auto intro: prefix_order.trans)

lemma settled_mono:
  assumes "settled M G t x" and "t \<le> u" and "logs G \<subseteq> logs G'" and "acks G \<subseteq> acks G'"
  shows "settled M G' u x"
proof (cases "x = []")
  case False
  with assms(1) obtain w l where w: "w \<le> t" "chosen M G w l" "prefix x l" by (auto simp: settled_def)
  have "majority_of M {p \<in> M. acked G' p w l}" if "majority_of M {p \<in> M. acked G p w l}"
  proof -
    have "{p \<in> M. acked G p w l} \<subseteq> {p \<in> M. acked G' p w l}" using assms(4) by (auto simp: acked_def)
    from card_mono [OF _ this] that show ?thesis by (auto simp: majority_of_def)
  qed
  with w(2) assms(3) have "chosen M G' w l" by (auto simp: chosen_def)
  moreover have "w \<le> u" using w(1) assms(2) by (rule order_trans)
  ultimately show ?thesis using w(3) unfolding settled_def by blast
qed (simp add: settled_def)

text \<open>Settled prefixes agree.\<close>

lemma settled_agree:
  assumes terms: "terms_inv G" and H: "history_ok cl (logs G)" and votes: "votes_inv M G"
    and "settled M G t x" and "settled M G u y"
  shows "prefix x y \<or> prefix y x"
proof (cases "x = [] \<or> y = []")
  case False
  with assms(4,5) obtain t l u m where l: "chosen M G t l" "prefix x l" and m: "chosen M G u m" "prefix y m"
    by (auto simp: settled_def)
  have l': "l \<in> logs G" "l \<noteq> []" "last_term l = t" and m': "m \<in> logs G" "m \<noteq> []" "last_term m = u"
    using l m by (simp_all add: chosen_def)
  consider "t < u" | "u < t" | "t = u" by fastforce
  then have "prefix l m \<or> prefix m l"
    by cases (use chosen_later [OF terms H votes] chosen_same [OF terms H] l m l' m' in blast)+
  then show ?thesis
    using l(2) m(2) prefix_same_cases prefix_order.trans by metis
qed auto

text \<open>A log that ends in term \<open>T\<close> is compared with what was settled by then.\<close>

lemma settled_log:
  assumes "terms_inv G" and "history_ok cl (logs G)" and "votes_inv M G"
    and x: "settled M G t x" and t: "t \<le> last_term m" and m: "m \<in> logs G" "m \<noteq> []"
  shows "prefix x m \<or> prefix m x"
proof (cases "x = []")
  case False
  with x obtain u l where l: "u \<le> t" "chosen M G u l" "prefix x l" by (auto simp: settled_def)
  with t consider "u < last_term m" | "u = last_term m" by fastforce
  then have "prefix l m \<or> prefix m l"
    by cases (use chosen_later [OF assms(1-3) l(2) m] chosen_same [OF assms(1,2) l(2) m] in blast)+
  then show ?thesis using l(3) prefix_same_cases prefix_order.trans by metis
qed simp

end
