(* ===== verification/SafetyInv.thy ===== *)
theory SafetyInv
  imports Completeness
begin

text \<open>
  The invariant behind state machine safety: what each node, message and answer of a cluster
  guarantees about the history of \<open>Completeness\<close>, that the guarantees outlast the growth of the
  history, and how a new acknowledgement, vote or winner is added to it.
\<close>

section \<open>The invariant\<close>

abbreviation node_log :: "RaftNode \<Rightarrow> LogEntry list" where
  "node_log s \<equiv> log_of (store s)"

abbreviation commits :: "RaftNode \<Rightarrow> LogEntry list" where
  "commits s \<equiv> take (unat (getCommit (store s))) (node_log s)"

text \<open>A leader's match indices stand for logs of its term that the peers acknowledged.\<close>

definition match_ok :: "history \<Rightarrow> RaftNode \<Rightarrow> bool" where
  "match_ok G s \<longleftrightarrow> length (matchIndex s) = length (peers s)
     \<and> (\<forall>i < length (peers s). matchIndex s ! i \<noteq> 0 \<longrightarrow>
          (\<exists>l. acked G (peer_id (peers s ! i)) (cur_term s) l \<and> length l = unat (matchIndex s ! i)))"

definition leads :: "history \<Rightarrow> c_int \<Rightarrow> RaftNode \<Rightarrow> bool" where
  "leads G c s \<longleftrightarrow> node_log s \<noteq> [] \<and> last_term (node_log s) = cur_term s
     \<and> (c, cur_term s, node_log s) \<in> acks G \<and> match_ok G s"

definition member_safe :: "c_int set \<Rightarrow> history \<Rightarrow> c_int \<Rightarrow> RaftNode \<Rightarrow> bool" where
  "member_safe M G c s \<longleftrightarrow> last_term (node_log s) \<le> cur_term s \<and> committed_ok s
     \<and> settled M G (cur_term s) (commits s) \<and> (state s = LEADER \<longrightarrow> leads G c s)"

text \<open>
  A message carries the end of a log of its term, or nothing and a position that no log has; the
  commit index in it is settled.
\<close>

definition msg_safe :: "c_int set \<Rightarrow> history \<Rightarrow> AppendEntries \<Rightarrow> bool" where
  "msg_safe M G m \<longleftrightarrow> (\<exists>l \<in> logs G. l \<noteq> [] \<and> last_term l = ae_term m
     \<and> (backed m l \<or> ae_entries m = [] \<and> ae_prevLogIndex m \<noteq> 0 \<and> ae_prevLogTerm m = 0)
     \<and> unat (ae_leaderCommit m) \<le> length l \<and> settled M G (ae_term m) (take (unat (ae_leaderCommit m)) l))"

definition answer_safe :: "history \<Rightarrow> c_int \<Rightarrow> AppendEntries \<Rightarrow> AppendEntriesResponse \<Rightarrow> bool" where
  "answer_safe G p m r \<longleftrightarrow>
     (ar_success r \<longrightarrow> ae_entries m \<noteq> [] \<longrightarrow> (\<exists>l. backed m l \<and> acked G p (ae_term m) l))"

text \<open>What a node acknowledged stays in its log, unless a later winner did not have it.\<close>

definition ack_safe :: "history \<Rightarrow> u64 \<Rightarrow> LogEntry list \<Rightarrow> RaftNode \<Rightarrow> bool" where
  "ack_safe G t l s \<longleftrightarrow> t \<le> cur_term s \<and> (prefix l (node_log s)
     \<or> (\<exists>u L. t < u \<and> u \<le> cur_term s \<and> elected G u = Some L \<and> \<not> prefix l L))"

definition acks_inv :: "history \<Rightarrow> Cluster \<Rightarrow> bool" where
  "acks_inv G cl \<longleftrightarrow> (\<forall>p t m. (p, t, m) \<in> acks G \<longrightarrow> m \<in> logs G)
     \<and> (\<forall>p t l. acked G p t l \<longrightarrow> ack_safe G t l (nodes cl p))"

text \<open>Requests and votes of an election that is still open describe the candidate's log.\<close>

definition running_for :: "RaftNode \<Rightarrow> u64 \<Rightarrow> bool" where
  "running_for s u \<longleftrightarrow> state s = CANDIDATE \<and> cur_term s = u"

definition election_inv :: "history \<Rightarrow> Cluster \<Rightarrow> bool" where
  "election_inv G cl \<longleftrightarrow>
     (\<forall>m \<in> requests cl. rv_term m \<noteq> 0) \<and>
     (\<forall>m \<in> requests cl. \<forall>c. rv_candidateId m = scast c \<longrightarrow> rv_term m \<le> cur_term (nodes cl c)
        \<and> (running_for (nodes cl c) (rv_term m) \<longrightarrow> request_pos m = log_position (node_log (nodes cl c))))
     \<and> (\<forall>p u c. (p, u, c) \<in> granted cl \<longrightarrow> u \<le> cur_term (nodes cl c)
        \<and> (elected G u = None \<longrightarrow> (\<exists>v. (p, u, v) \<in> voters_logs G
             \<and> (running_for (nodes cl c) u \<longrightarrow> log_position v \<le> log_position (node_log (nodes cl c))))))
     \<and> (\<forall>p u v. (p, u, v) \<in> voters_logs G \<longrightarrow> u \<noteq> 0 \<and> u \<le> cur_term (nodes cl p))"

lemma election_invD:
  assumes "election_inv G cl"
  shows "m \<in> requests cl \<Longrightarrow> rv_candidateId m = scast c \<Longrightarrow> rv_term m \<le> cur_term (nodes cl c)"
    and "m \<in> requests cl \<Longrightarrow> rv_candidateId m = scast c \<Longrightarrow> running_for (nodes cl c) (rv_term m) \<Longrightarrow>
      request_pos m = log_position (node_log (nodes cl c))"
    and "(p, u, c) \<in> granted cl \<Longrightarrow> u \<le> cur_term (nodes cl c)"
    and "(p, u, c) \<in> granted cl \<Longrightarrow> elected G u = None \<Longrightarrow> \<exists>v. (p, u, v) \<in> voters_logs G
      \<and> (running_for (nodes cl c) u \<longrightarrow> log_position v \<le> log_position (node_log (nodes cl c)))"
    and "(p, u, v) \<in> voters_logs G \<Longrightarrow> u \<le> cur_term (nodes cl p)"
    and "m \<in> requests cl \<Longrightarrow> rv_term m \<noteq> 0" and "(p, u, v) \<in> voters_logs G \<Longrightarrow> u \<noteq> 0"
  using assms unfolding election_inv_def by blast+

lemma election_invI:
  assumes "\<And>m c. m \<in> requests cl \<Longrightarrow> rv_candidateId m = scast c \<Longrightarrow> rv_term m \<le> cur_term (nodes cl c)"
    and "\<And>m c. m \<in> requests cl \<Longrightarrow> rv_candidateId m = scast c \<Longrightarrow> running_for (nodes cl c) (rv_term m) \<Longrightarrow>
      request_pos m = log_position (node_log (nodes cl c))"
    and "\<And>p u c. (p, u, c) \<in> granted cl \<Longrightarrow> u \<le> cur_term (nodes cl c)"
    and "\<And>p u c. (p, u, c) \<in> granted cl \<Longrightarrow> elected G u = None \<Longrightarrow> \<exists>v. (p, u, v) \<in> voters_logs G
      \<and> (running_for (nodes cl c) u \<longrightarrow> log_position v \<le> log_position (node_log (nodes cl c)))"
    and "\<And>p u v. (p, u, v) \<in> voters_logs G \<Longrightarrow> u \<le> cur_term (nodes cl p)"
    and "\<And>m. m \<in> requests cl \<Longrightarrow> rv_term m \<noteq> 0" and "\<And>p u v. (p, u, v) \<in> voters_logs G \<Longrightarrow> u \<noteq> 0"
  shows "election_inv G cl"
  using assms unfolding election_inv_def by blast

definition safety_inv :: "c_int set \<Rightarrow> Cluster \<Rightarrow> given \<Rightarrow> history \<Rightarrow> bool" where
  "safety_inv M cl A G \<longleftrightarrow> log_inv M cl (logs G) \<and> terms_inv G \<and> votes_inv M G
     \<and> (\<forall>t. elected G t = None \<longleftrightarrow> t \<notin> fst ` won cl)
     \<and> (\<forall>c \<in> M. member_safe M G c (nodes cl c)) \<and> (\<forall>m \<in> appends cl. msg_safe M G m)
     \<and> (\<forall>p m r. (p, m, r) \<in> A \<longrightarrow> answer_safe G p m r) \<and> acks_inv G cl \<and> election_inv G cl"

lemma safety_invI:
  assumes "log_inv M cl (logs G)" and "terms_inv G" and "votes_inv M G"
    and "\<And>t. elected G t = None \<longleftrightarrow> t \<notin> fst ` won cl"
    and "\<And>c. c \<in> M \<Longrightarrow> member_safe M G c (nodes cl c)" and "\<And>m. m \<in> appends cl \<Longrightarrow> msg_safe M G m"
    and "\<And>p m r. (p, m, r) \<in> A \<Longrightarrow> answer_safe G p m r" and "acks_inv G cl" and "election_inv G cl"
  shows "safety_inv M cl A G"
  using assms unfolding safety_inv_def by blast

lemma safety_invD:
  assumes "safety_inv M cl A G"
  shows "log_inv M cl (logs G)" and "terms_inv G" and "votes_inv M G"
    and "elected G t = None \<longleftrightarrow> t \<notin> fst ` won cl"
    and "c \<in> M \<Longrightarrow> member_safe M G c (nodes cl c)" and "m \<in> appends cl \<Longrightarrow> msg_safe M G m"
    and "(p, m, r) \<in> A \<Longrightarrow> answer_safe G p m r" and "acks_inv G cl" and "election_inv G cl"
    and "history_ok cl (logs G)" and "c \<in> M \<Longrightarrow> log_member cl (logs G) c"
  using assms unfolding safety_inv_def log_inv_def by blast+

section \<open>Growing histories\<close>

definition grows :: "history \<Rightarrow> history \<Rightarrow> bool" where
  "grows G G' \<longleftrightarrow> logs G \<subseteq> logs G' \<and> acks G \<subseteq> acks G' \<and> elected G \<subseteq>\<^sub>m elected G'"

lemma grows_settled: "grows G G' \<Longrightarrow> settled M G t x \<Longrightarrow> t \<le> u \<Longrightarrow> settled M G' u x"
  unfolding grows_def by (blast intro: settled_mono)

lemma grows_acked: "grows G G' \<Longrightarrow> acked G p t l \<Longrightarrow> acked G' p t l"
  by (auto simp: grows_def acked_def)

lemma grows_match_ok: "grows G G' \<Longrightarrow> match_ok G s \<Longrightarrow> match_ok G' s"
  unfolding match_ok_def using grows_acked by blast

lemma grows_leads: "grows G G' \<Longrightarrow> leads G c s \<Longrightarrow> leads G' c s"
  using grows_match_ok by (auto simp: leads_def grows_def)

lemma grows_member_safe: "grows G G' \<Longrightarrow> member_safe M G c s \<Longrightarrow> member_safe M G' c s"
  using grows_leads grows_settled by (auto simp: member_safe_def)

lemma grows_msg_safe: "grows G G' \<Longrightarrow> msg_safe M G m \<Longrightarrow> msg_safe M G' m"
proof -
  assume g: "grows G G'" and "msg_safe M G m"
  then obtain l where "l \<in> logs G" "l \<noteq> []" "last_term l = ae_term m"
    "backed m l \<or> ae_entries m = [] \<and> ae_prevLogIndex m \<noteq> 0 \<and> ae_prevLogTerm m = 0"
    "unat (ae_leaderCommit m) \<le> length l" "settled M G (ae_term m) (take (unat (ae_leaderCommit m)) l)"
    unfolding msg_safe_def by blast
  moreover have "l \<in> logs G'" using calculation(1) g by (auto simp: grows_def)
  ultimately show ?thesis using grows_settled [OF g _ order_refl] unfolding msg_safe_def by blast
qed

lemma grows_answer_safe: "grows G G' \<Longrightarrow> answer_safe G p m r \<Longrightarrow> answer_safe G' p m r"
  unfolding answer_safe_def using grows_acked by blast

lemma grows_ack_safe: "grows G G' \<Longrightarrow> ack_safe G t l s \<Longrightarrow> ack_safe G' t l s"
  unfolding ack_safe_def grows_def map_le_def by (metis domI)

lemma grows_refl [simp]: "grows G G"
  by (simp add: grows_def)

lemma grows_trans: "grows F G \<Longrightarrow> grows G H \<Longrightarrow> grows F H"
  unfolding grows_def using map_le_trans by blast

section \<open>One node changes\<close>

lemma member_safe_same:
  assumes safe: "member_safe M G c s" and "node_log s' = node_log s" and "cur_term s \<le> cur_term s'"
    and "getCommit (store s') = getCommit (store s)" and "committed_ok s'"
    and "state s' = LEADER \<Longrightarrow> state s = LEADER \<and> cur_term s' = cur_term s \<and> match_ok G s'"
  shows "member_safe M G c s'"
proof -
  have "last_term (node_log s') \<le> cur_term s'" using safe assms(2,3) by (auto simp: member_safe_def)
  moreover have "settled M G (cur_term s') (commits s')"
    using safe assms(2-4) grows_settled [OF grows_refl] by (auto simp: member_safe_def)
  moreover have "leads G c s'" if "state s' = LEADER"
    using safe assms(2) assms(6) [OF that] by (auto simp: member_safe_def leads_def)
  ultimately show ?thesis using assms(5) by (simp add: member_safe_def)
qed

lemma ack_safe_later:
  assumes "ack_safe G t l s" and "cur_term s \<le> cur_term s'" and "prefix (node_log s) (node_log s')"
  shows "ack_safe G t l s'"
  using assms unfolding ack_safe_def by (blast intro: order_trans prefix_order.trans)

lemma acks_inv_node:
  assumes inv: "acks_inv G cl" and "\<And>t l. acked G c t l \<Longrightarrow> ack_safe G t l s'"
  shows "acks_inv G (set_node c s' cl)"
  using assms by (simp add: acks_inv_def)

lemma election_inv_node:
  assumes inv: "election_inv G cl" and s: "s = nodes cl c" and le: "cur_term s \<le> cur_term s'"
    and cand: "state s' = CANDIDATE \<Longrightarrow> cur_term s' = cur_term s \<Longrightarrow>
      state s = CANDIDATE \<and> node_log s' = node_log s"
  shows "election_inv G (set_node c s' cl)"
proof -
  let ?n = "nodes (set_node c s' cl)"
  have le': "cur_term (nodes cl d) \<le> cur_term (?n d)" for d using le s by simp
  have run: "running_for (nodes cl d) u \<and> node_log (?n d) = node_log (nodes cl d)"
    if "running_for (?n d) u" "u \<le> cur_term (nodes cl d)" for d u
    using that cand le s by (cases "d = c") (auto simp: running_for_def)
  note D = election_invD [OF inv]
  show ?thesis
  proof (rule election_invI)
    fix m and d :: c_int assume m: "m \<in> requests (set_node c s' cl)" "rv_candidateId m = scast d"
    then have o: "rv_term m \<le> cur_term (nodes cl d)" using D(1) by simp
    then show "rv_term m \<le> cur_term (?n d)" using le' by (rule order_trans)
    show "request_pos m = log_position (node_log (?n d))" if "running_for (?n d) (rv_term m)"
      using run [OF that o] D(2) m by simp
  next
    fix p u d assume g: "(p, u, d) \<in> granted (set_node c s' cl)"
    then have o: "u \<le> cur_term (nodes cl d)" using D(3) by simp
    then show "u \<le> cur_term (?n d)" using le' by (rule order_trans)
    show "\<exists>v. (p, u, v) \<in> voters_logs G
      \<and> (running_for (?n d) u \<longrightarrow> log_position v \<le> log_position (node_log (?n d)))" if "elected G u = None"
    proof -
      from D(4) [of p u d, OF _ that] g obtain v where v: "(p, u, v) \<in> voters_logs G"
        "running_for (nodes cl d) u \<longrightarrow> log_position v \<le> log_position (node_log (nodes cl d))" by auto
      have "log_position v \<le> log_position (node_log (?n d))" if "running_for (?n d) u"
        using run [OF that o] v(2) by simp
      with v(1) show ?thesis by blast
    qed
  next
    fix p u v assume "(p, u, v) \<in> voters_logs G"
    then have "u \<le> cur_term (nodes cl p)" by (rule D(5))
    then show "u \<le> cur_term (?n p)" using le' by (rule order_trans)
  qed (use D(6,7) in simp_all)
qed

text \<open>A step that leaves the log of its node and the history alone.\<close>

lemma safety_node:
  assumes inv: "safety_inv M cl A G" and s: "s = nodes cl c"
    and logs: "log_inv M (set_node c s' cl) (logs G)" and same: "node_log s' = node_log s"
    and le: "cur_term s \<le> cur_term s'" and safe: "c \<in> M \<Longrightarrow> member_safe M G c s'"
    and cand: "state s' = CANDIDATE \<Longrightarrow> cur_term s' = cur_term s \<Longrightarrow> state s = CANDIDATE"
  shows "safety_inv M (set_node c s' cl) A G"
proof (rule safety_invI [OF logs])
  note D = safety_invD [OF inv]
  show "member_safe M G d (nodes (set_node c s' cl) d)" if "d \<in> M" for d
    using that D(5) safe by (cases "d = c") simp_all
  show "acks_inv G (set_node c s' cl)"
  proof (rule acks_inv_node [OF D(8)])
    fix t l assume "acked G c t l"
    then have "ack_safe G t l s" using D(8) unfolding acks_inv_def s by blast
    then show "ack_safe G t l s'" by (rule ack_safe_later [OF _ le]) (simp add: same)
  qed
  show "election_inv G (set_node c s' cl)"
    by (rule election_inv_node [OF D(9) s le]) (use cand same in blast)
qed (use safety_invD [OF inv] in simp_all)

text \<open>The other fields of the cluster.\<close>

lemma acks_inv_other [simp]:
  "acks_inv G (cl\<lparr>ballots := b\<rparr>) = acks_inv G cl" "acks_inv G (cl\<lparr>requests := r\<rparr>) = acks_inv G cl"
  "acks_inv G (cl\<lparr>answers := a\<rparr>) = acks_inv G cl" "acks_inv G (cl\<lparr>granted := g\<rparr>) = acks_inv G cl"
  "acks_inv G (cl\<lparr>appends := m\<rparr>) = acks_inv G cl" "acks_inv G (cl\<lparr>won := w\<rparr>) = acks_inv G cl"
  by (simp_all add: acks_inv_def)

lemma election_inv_other [simp]:
  "election_inv G (cl\<lparr>ballots := b\<rparr>) = election_inv G cl" "election_inv G (cl\<lparr>answers := a\<rparr>) = election_inv G cl"
  "election_inv G (cl\<lparr>appends := m\<rparr>) = election_inv G cl" "election_inv G (cl\<lparr>won := w\<rparr>) = election_inv G cl"
  by (simp_all add: election_inv_def)

lemma safety_inv_ballots [simp]: "safety_inv M (cl\<lparr>ballots := b\<rparr>) A G = safety_inv M cl A G"
  by (simp add: safety_inv_def log_inv_other)

lemma safety_inv_answers [simp]: "safety_inv M (cl\<lparr>answers := b\<rparr>) A G = safety_inv M cl A G"
  by (simp add: safety_inv_def log_inv_other)

section \<open>New acknowledgements, votes and winners\<close>

lemma grows_ack: "grows G (G\<lparr>acks := insert a (acks G)\<rparr>)"
  by (auto simp: grows_def)

lemma acked_insert:
  "acked (G\<lparr>acks := insert (p, t, m) (acks G)\<rparr>) q u l \<longleftrightarrow>
    acked G q u l \<or> q = p \<and> u = t \<and> l \<noteq> [] \<and> last_term l = t \<and> prefix l m"
  by (auto simp: acked_def)

text \<open>Votes are for terms the voter had reached, acknowledgements for the term it is in.\<close>

lemma votes_inv_ack:
  assumes "votes_inv M G" and "\<And>u v. (p, u, v) \<in> voters_logs G \<Longrightarrow> u \<le> t"
  shows "votes_inv M (G\<lparr>acks := insert (p, t, m) (acks G)\<rparr>)"
  using assms(1) leD [OF assms(2)] unfolding votes_inv_def acked_insert by simp blast

lemma votes_inv_vote:
  assumes "votes_inv M G" and new: "elected G u = None" and "v \<in> logs G"
    and old: "\<And>t l. acked G p t l \<Longrightarrow> ack_safe G t l s" and s: "v = node_log s" "cur_term s \<le> u"
  shows "votes_inv M (G\<lparr>voters_logs := insert (p, u, v) (voters_logs G)\<rparr>)" (is "votes_inv M ?G")
proof -
  have acked: "acked ?G = acked G" by (intro ext) (simp add: acked_def)
  have v: "prefix l v \<or> (\<exists>w L. t < w \<and> w < u \<and> elected G w = Some L \<and> \<not> prefix l L)"
    if "acked G p t l" "t < u" for t l
  proof -
    from old [OF that(1)] s(1) consider "prefix l v"
      | w L where "t < w" "w \<le> cur_term s" "elected G w = Some L" "\<not> prefix l L"
      by (auto simp: ack_safe_def)
    then show ?thesis
    proof cases
      case 2
      with new have "w \<noteq> u" by auto
      moreover have "w \<le> u" using 2(2) s(2) by (rule order_trans)
      ultimately have "w < u" by simp
      with 2 show ?thesis by blast
    qed simp
  qed
  have quorum: "majority_of M {q \<in> M. \<exists>x. (q, w, x) \<in> voters_logs ?G \<and> log_position x \<le> log_position L}"
    if "elected G w = Some L" for w L
  proof -
    have "{q \<in> M. \<exists>x. (q, w, x) \<in> voters_logs ?G \<and> log_position x \<le> log_position L} =
        {q \<in> M. \<exists>x. (q, w, x) \<in> voters_logs G \<and> log_position x \<le> log_position L}"
      using that new by auto
    with votes_invD(1) [OF assms(1) that] show ?thesis by simp
  qed
  show ?thesis
    unfolding votes_inv_def acked
  proof (intro conjI allI impI)
    fix q w x assume x: "(q, w, x) \<in> voters_logs ?G"
    then show "x \<in> logs ?G" using votes_invD(2) [OF assms(1)] assms(3) by auto
    show "prefix l x \<or> (\<exists>z L. t < z \<and> z < w \<and> elected ?G z = Some L \<and> \<not> prefix l L)"
      if "acked G q t l" "t < w" for t l
    proof (cases "(q, w, x) \<in> voters_logs G")
      case True
      from votes_invD(3) [OF assms(1) True that] show ?thesis by simp
    next
      case False
      with x have "q = p" "w = u" "x = v" by auto
      with v that show ?thesis by simp
    qed
  qed (use quorum in simp)
qed

lemma votes_inv_elect:
  assumes "votes_inv M G" and new: "elected G u = None"
    and quorum: "majority_of M {p \<in> M. \<exists>v. (p, u, v) \<in> voters_logs G \<and> log_position v \<le> log_position L}"
  shows "votes_inv M (G\<lparr>elected := (elected G)(u \<mapsto> L)\<rparr>)" (is "votes_inv M ?G")
proof -
  have acked: "acked ?G = acked G" by (intro ext) (simp add: acked_def)
  show ?thesis
    unfolding votes_inv_def acked
  proof (intro conjI allI impI)
    fix p w v t l assume "(p, w, v) \<in> voters_logs ?G" "acked G p t l" "t < w"
    with votes_invD(3) [OF assms(1)]
    have "prefix l v \<or> (\<exists>z L. t < z \<and> z < w \<and> elected G z = Some L \<and> \<not> prefix l L)" by simp
    moreover have "elected ?G z = Some L" if "elected G z = Some L" for z L using that new by auto
    ultimately show "prefix l v \<or> (\<exists>z L. t < z \<and> z < w \<and> elected ?G z = Some L \<and> \<not> prefix l L)" by blast
  qed (use assms votes_invD(1,2) [OF assms(1)] in \<open>auto split: if_splits\<close>)
qed

lemma votes_inv_logs: "votes_inv M G \<Longrightarrow> votes_inv M (G\<lparr>logs := insert l (logs G)\<rparr>)"
proof -
  have "acked (G\<lparr>logs := insert l (logs G)\<rparr>) = acked G" by (intro ext) (simp add: acked_def)
  then show "votes_inv M G \<Longrightarrow> ?thesis" unfolding votes_inv_def by simp
qed

lemma acks_inv_grow:
  assumes "acks_inv G cl" and "grows G G'" and "acks G' = acks G"
  shows "acks_inv G' cl"
proof -
  have "acked G' = acked G" using assms(3) by (intro ext) (simp add: acked_def)
  moreover have "m \<in> logs G'" if "(p, t, m) \<in> acks G" for p t m
    using that assms(1,2) unfolding acks_inv_def grows_def by blast
  ultimately show ?thesis
    using assms(1,3) grows_ack_safe [OF assms(2)] unfolding acks_inv_def by simp
qed

lemma acks_inv_insert:
  assumes inv: "acks_inv G cl" and "l \<in> logs G" and "t \<le> cur_term s'" and "prefix l (node_log s')"
    and "\<And>t x. acked G c t x \<Longrightarrow> ack_safe G t x s'"
  shows "acks_inv (G\<lparr>acks := insert (c, t, l) (acks G)\<rparr>) (set_node c s' cl)" (is "acks_inv ?G _")
proof -
  have "acks_inv G (set_node c s' cl)" by (rule acks_inv_node [OF inv assms(5)])
  moreover have "ack_safe ?G u x s = ack_safe G u x s" for u x s by (simp add: ack_safe_def)
  moreover have "ack_safe G t x s'" if "prefix x l" for x
    using that assms(3,4) by (auto simp: ack_safe_def intro: prefix_order.trans)
  ultimately show ?thesis using assms(2) unfolding acks_inv_def acked_insert by auto
qed

lemma acks_invD:
  assumes "acks_inv G cl"
  shows "(p, t, m) \<in> acks G \<Longrightarrow> m \<in> logs G" and "acked G p t l \<Longrightarrow> ack_safe G t l (nodes cl p)"
  using assms unfolding acks_inv_def by blast+

lemma acked_log:
  assumes "acks_inv G cl" and "history_ok cl (logs G)" and "acked G p t l"
  shows "l \<in> logs G" and "l \<noteq> []" and "last_term l = t"
proof -
  from assms(3) obtain m where "(p, t, m) \<in> acks G" "prefix l m" by (auto simp: acked_def)
  with prefix_logs [OF assms(2)] acks_invD(1) [OF assms(1)] show "l \<in> logs G" by blast
qed (use assms(3) in \<open>simp_all add: acked_def\<close>)

lemma terms_inv_other [simp]:
  "terms_inv (G\<lparr>acks := a\<rparr>) = terms_inv G" "terms_inv (G\<lparr>voters_logs := v\<rparr>) = terms_inv G"
  by (simp_all add: terms_inv_def)

lemma election_inv_acks [simp]:
  "election_inv (G\<lparr>acks := a\<rparr>) cl = election_inv G cl" "election_inv (G\<lparr>logs := l\<rparr>) cl = election_inv G cl"
  by (simp_all add: election_inv_def)

lemma terms_inv_snoc:
  assumes inv: "terms_inv G" and "elected G t = Some L" and "led_by (l @ [e]) t L" and "le_term e = t"
  shows "terms_inv (G\<lparr>logs := insert (l @ [e]) (logs G)\<rparr>)"
  using assms unfolding terms_inv_def by auto

end
