(* ===== verification/SafetySteps.thy ===== *)
theory SafetySteps
  imports SafetyInv
begin

text \<open>
  Every kind of step of an orderly run keeps the invariant of \<open>SafetyInv\<close>: appending, sending,
  receiving, counting answers, the steps of one node alone, and elections.
\<close>

section \<open>A leader appends and sends\<close>

text \<open>A leader's message is backed by its log, or empty at a position behind its log.\<close>

lemma prepare_cases:
  assumes inv: "store_inv (store s)" and call: "prepare_AppendEntries i s = Inr m" and ne: "node_log s \<noteq> []"
  shows "backed m (node_log s) \<or> ae_entries m = [] \<and> ae_prevLogIndex m \<noteq> 0 \<and> ae_prevLogTerm m = 0"
proof -
  let ?l = "node_log s" and ?n = "nextIndex s ! i"
  have i: "i < length (peers s)" "i < length (nextIndex s)"
    using call by (auto simp: prepare_AppendEntries_def split: if_splits)
  have len: "Suc (length ?l) < 2 ^ 64" using inv by (simp add: store_inv_def log_ok_def)
  show ?thesis
  proof (cases "?n = 0")
    case True
    then have far: "length ?l < unat (?n - 1)" "?n - 1 \<noteq> 0" using len by (simp_all add: unsigned_minus_1_eq_mask mask_eq_exp_minus_1)
    then show ?thesis
      using call i True by (auto simp: prepare_AppendEntries_def Let_def getTermAt_eq [OF inv]
          readFrom_eq [OF inv] entry_term_def)
  next
    case False
    from prepare_AppendEntries_eq [OF inv i False] call have m: "ae_prevLogIndex m = ?n - 1"
      "ae_prevLogTerm m = entry_term ?l (unat (?n - 1))" "ae_entries m = drop (unat (?n - 1)) ?l" by auto
    then show ?thesis using ne by (cases "unat (?n - 1) \<le> length ?l") (auto simp: backed_def entry_term_def)
  qed
qed

lemma safety_append:
  assumes inv: "safety_inv M cl A G" and c: "c \<in> M" and s: "s = nodes cl c" and lead: "state s = LEADER"
    and s': "state s' = LEADER" "cur_term s' = cur_term s" "matchIndex s' = matchIndex s" "peers s' = peers s"
    and e: "le_term e = cur_term s" and log: "node_log s' = node_log s @ [e]"
    and com: "getCommit (store s') = getCommit (store s)" "committed_ok s'"
    and logs: "log_inv M (set_node c s' cl) (insert (node_log s') (logs G))"
  shows "\<exists>G'. grows G G' \<and> safety_inv M (set_node c s' cl) A G'"
proof (intro exI conjI safety_invI)
  note D = safety_invD [OF inv]
  let ?t = "cur_term s"
  let ?L = "G\<lparr>logs := insert (node_log s') (logs G)\<rparr>"
  let ?G = "?L\<lparr>acks := insert (c, ?t, node_log s') (acks ?L)\<rparr>"
  have gl: "grows G ?L" and g: "grows G ?G" by (auto simp: grows_def)
  show "grows G ?G" by (rule g)
  have l: "node_log s \<in> logs G" and m: "member_safe M G c s" "leads G c s"
    using D(5,11) [OF c] s lead by (simp_all add: log_member_def member_safe_def)
  then obtain L where L: "elected G ?t = Some L" "led_by (node_log s) ?t L"
    using terms_invD(4) [OF D(2) l] by (auto simp: leads_def)
  from terms_inv_snoc [OF D(2) L(1) led_by_snoc [OF L(2) e] e] show "terms_inv ?G" by (simp add: log)
  have "u \<le> ?t" if "(c, u, v) \<in> voters_logs ?L" for u v
    using election_invD(5) [OF D(9)] that s by simp
  then show "votes_inv M ?G" using votes_inv_ack votes_inv_logs D(3) by blast
  show "acks_inv ?G (set_node c s' cl)"
  proof (rule acks_inv_insert)
    show "acks_inv ?L cl" by (rule acks_inv_grow [OF D(8) gl]) simp
    fix t x assume "acked ?L c t x"
    then have "acked G c t x" by (simp add: acked_def)
    then have "ack_safe G t x s" using acks_invD(2) [OF D(8)] s by simp
    from ack_safe_later [OF grows_ack_safe [OF gl this]] show "ack_safe ?L t x s'" by (simp add: s' log)
  qed (simp_all add: s')
  have "commits s' = commits s" using m(1) log com(1) by (simp add: member_safe_def committed_ok_def)
  then have "settled M ?G (cur_term s') (commits s')"
    using m(1) s'(2) by (intro grows_settled [OF g, of M ?t]) (simp_all add: member_safe_def)
  moreover have "match_ok G s'" using m(2) s' by (simp add: leads_def match_ok_def)
  then have "leads ?G c s'" using grows_match_ok [OF g] e s' log by (simp add: leads_def)
  ultimately have "member_safe M ?G c s'" using e com(2) s' log by (simp add: member_safe_def)
  then show "member_safe M ?G d (nodes (set_node c s' cl) d)" if "d \<in> M" for d
    using that D(5) grows_member_safe [OF g] by (cases "d = c") simp_all
  have "election_inv G (set_node c s' cl)"
    by (rule election_inv_node [OF D(9) s]) (simp_all add: s')
  then show "election_inv ?G (set_node c s' cl)" by simp
  show "elected ?G t = None \<longleftrightarrow> t \<notin> fst ` won (set_node c s' cl)" for t using D(4) by simp
  show "msg_safe M ?G m" if "m \<in> appends (set_node c s' cl)" for m
    using that grows_msg_safe [OF g] D(6) by simp
  show "answer_safe ?G p m r" if "(p, m, r) \<in> A" for p m r
    using that grows_answer_safe [OF g] D(7) by simp
qed (use logs in simp)

lemma safety_send:
  assumes inv: "safety_inv M cl A G" and c: "c \<in> M" and s: "s = nodes cl c" and lead: "state s = LEADER"
    and call: "prepare_AppendEntries i s = Inr m"
  shows "safety_inv M (cl\<lparr>appends := insert m (appends cl)\<rparr>) A G"
proof (rule safety_invI)
  note D = safety_invD [OF inv]
  have st: "store_inv (store s)" "node_log s \<in> logs G" and mem: "member_safe M G c s" "leads G c s"
    using D(5,11) [OF c] s lead by (simp_all add: log_member_def member_safe_def)
  have f: "ae_term m = cur_term s" "ae_leaderCommit m = getCommit (store s)"
    using call by (auto simp: prepare_AppendEntries_def Let_def split: if_splits elim!: bind_result_InrE)
  have "backed m (node_log s) \<or> ae_entries m = [] \<and> ae_prevLogIndex m \<noteq> 0 \<and> ae_prevLogTerm m = 0"
    using prepare_cases [OF st(1) call] mem by (simp add: leads_def)
  then have "msg_safe M G m"
    using mem st(2) f unfolding msg_safe_def member_safe_def leads_def committed_ok_def
    by (intro bexI [of _ "node_log s"]) simp_all
  then show "msg_safe M G x" if "x \<in> appends (cl\<lparr>appends := insert m (appends cl)\<rparr>)" for x
    using that D(6) by auto
  show "log_inv M (cl\<lparr>appends := insert m (appends cl)\<rparr>) (logs G)"
    by (rule log_inv_send [OF D(1) c]) (use call s in simp)
qed (use safety_invD [OF inv] in simp_all)

section \<open>A message arrives\<close>

lemma term_elected:
  assumes terms: "terms_inv G" and H: "history_ok cl (logs G)" and l: "l \<in> logs G" and e: "e \<in> set l"
  shows "elected G (le_term e) \<noteq> None"
proof -
  from e obtain a b where "l = (a @ [e]) @ b" by (metis append.assoc append_Cons append_Nil split_list)
  then have "a @ [e] \<in> logs G" using prefix_logs [OF H l, of "a @ [e]"] by (auto simp: prefix_def)
  from terms_invD(4) [OF terms this] show ?thesis by auto
qed

lemma term_nonzero:
  assumes "terms_inv G" and "history_ok cl (logs G)" and "l \<in> logs G" and "e \<in> set l"
  shows "le_term e \<noteq> 0"
  using term_elected [OF assms] terms_invD(1) [OF assms(1)] by auto

lemma merge_backed:
  assumes b: "backed m l" and match: "log_match l f" and p: "unat (ae_prevLogIndex m) \<le> length f"
    and t: "unat (ae_prevLogIndex m) = 0 \<or> entry_term f (unat (ae_prevLogIndex m)) = ae_prevLogTerm m"
  shows "merge_log f (unat (ae_prevLogIndex m)) (ae_entries m) = (if prefix l f then f else l)"
proof -
  let ?p = "unat (ae_prevLogIndex m)"
  have "take ?p l = take ?p f"
    using log_match_term [OF match _ p] b t by (auto simp: backed_def)
  from merge_log_match [OF match this p] b have "merge_log f ?p (ae_entries m) = (if take (length l) f = l then f else l)"
    by (simp add: backed_def)
  moreover have "take (length l) f = l \<longleftrightarrow> prefix l f" using prefix_take take_is_prefix by metis
  ultimately show ?thesis by simp
qed

text \<open>An accepted message is backed, and its log is in the receiver's afterwards.\<close>

lemma accepted_log:
  assumes inv: "safety_inv M cl A G" and p: "p \<in> M" and s: "s = nodes cl p" and acc: "accepts m s"
    and m: "msg_safe M G m" and call: "handleAppendEntries ev m s = Inr (r, s')"
  obtains l where "l \<in> logs G" and "l \<noteq> []" and "last_term l = ae_term m" and "backed m l" and "append_wf m"
    and "unat (ae_leaderCommit m) \<le> length l"
    and "settled M G (ae_term m) (take (unat (ae_leaderCommit m)) l)"
    and "node_log s' = (if prefix l (node_log s) then node_log s else l)"
proof -
  note D = safety_invD [OF inv]
  have st: "store_inv (store s)" "node_log s \<in> logs G" using D(11) [OF p] s by (simp_all add: log_member_def)
  obtain l where l: "l \<in> logs G" "l \<noteq> []" "last_term l = ae_term m" "unat (ae_leaderCommit m) \<le> length l"
      "settled M G (ae_term m) (take (unat (ae_leaderCommit m)) l)"
    and cases: "backed m l \<or> ae_entries m = [] \<and> ae_prevLogIndex m \<noteq> 0 \<and> ae_prevLogTerm m = 0"
    using m unfolding msg_safe_def by blast
  let ?p = "unat (ae_prevLogIndex m)"
  have "entry_term (node_log s) ?p \<noteq> 0" if "ae_prevLogIndex m \<noteq> 0" "?p \<le> length (node_log s)"
  proof -
    have "0 < ?p" using that(1) by (simp add: unat_gt_0)
    then have "node_log s ! (?p - 1) \<in> set (node_log s)" using that(2) by simp
    from term_nonzero [OF D(2,10) st(2) this] \<open>0 < ?p\<close> that(2) show ?thesis by (simp add: entry_term_def)
  qed
  with cases acc have b: "backed m l" by (auto simp: accepts_def)
  have ok: "log_ok l" "log_match l (node_log s)"
    using history_okD(1,3) [OF D(10) l(1)] st(2) by simp_all
  have wf: "append_wf m" by (rule backed_wf [OF ok(1) b])
  have "node_log s' = (if prefix l (node_log s) then node_log s else l)"
    using handleAppendEntries_acceptD(3) [OF st(1) wf acc call] merge_backed [OF b ok(2)] acc
    by (auto simp: accepts_def)
  with that l b wf show ?thesis by blast
qed

lemma accepted_safe:
  assumes inv: "safety_inv M cl A G" and p: "p \<in> M" and s: "s = nodes cl p" and acc: "accepts m s"
    and call: "handleAppendEntries ev m s = Inr (r, s')" and wf: "append_wf m"
    and l: "l \<in> logs G" "l \<noteq> []" "last_term l = ae_term m"
      "unat (ae_leaderCommit m) \<le> length l" "settled M G (ae_term m) (take (unat (ae_leaderCommit m)) l)"
    and log: "node_log s' = (if prefix l (node_log s) then node_log s else l)"
    and s': "cur_term s' = ae_term m" "state s' = FOLLOWER"
  shows "member_safe M G p s'"
proof -
  note D = safety_invD [OF inv]
  have st: "store_inv (store s)" using D(11) [OF p] s by (simp add: log_member_def)
  have mem: "member_safe M G p s" using D(5) [OF p] s by simp
  then have ok: "committed_ok s" and x: "settled M G (cur_term s) (commits s)" by (simp_all add: member_safe_def)
  let ?c = "getCommit (store s)" and ?c' = "getCommit (store s')"
  have t: "cur_term s \<le> ae_term m" using acc by (simp add: accepts_def)
  note a = handleAppendEntries_acceptD [OF st wf acc call]
  have lp: "prefix l (node_log s')" using log by auto
  have keep: "prefix (commits s) (node_log s')"
  proof (cases "prefix l (node_log s)")
    case False
    then have "\<not> prefix l (commits s)" using take_is_prefix prefix_order.trans by metis
    with settled_log [OF D(2,10,3) x _ l(1,2)] t l(3) log False show ?thesis by simp
  qed (simp add: log take_is_prefix)
  have len: "length (commits s) = unat ?c" using ok by (simp add: committed_ok_def)
  have n: "unat ?c \<le> length (node_log s')" "take (unat ?c) (node_log s') = commits s"
    using prefix_length_le [OF keep] prefix_take [OF keep] len by simp_all
  define n :: u64 where "n = of_nat (length (node_log s'))"
  have un: "unat n = length (node_log s')"
    using a(2) by (simp add: n_def store_inv_def log_ok_def unat_of_nat_u64)
  have c': "?c' = (if ae_leaderCommit m > ?c then min (ae_leaderCommit m) n else ?c)"
    using a(4) by (simp only: n_def)
  have "?c \<le> n" using n(1) un by (simp add: word_le_nat_alt)
  from raise_within [OF this c'] un have r: "?c \<le> ?c'" "unat ?c' \<le> length (node_log s')"
    by (simp_all add: word_le_nat_alt)
  have "committed_ok s'" by (rule committed_ok_advance [OF ok r n(2) a(5,6)])
  moreover have "settled M G (ae_term m) (commits s')"
  proof (cases "?c' = ?c")
    case True
    with n(2) x grows_settled [OF grows_refl x t] show ?thesis by simp
  next
    case False
    with c' have "?c' \<le> ae_leaderCommit m" by (auto split: if_splits)
    then have "commits s' = take (unat ?c') l" "unat ?c' \<le> unat (ae_leaderCommit m)"
      using lp l(4) by (auto simp: prefix_def word_le_nat_alt)
    then have "prefix (commits s') (take (unat (ae_leaderCommit m)) l)"
      by (metis min.absorb1 take_is_prefix take_take)
    with l(5) show ?thesis by (rule settled_prefix)
  qed
  moreover have "last_term (node_log s') \<le> ae_term m"
    using log l(3) mem t by (auto simp: member_safe_def)
  ultimately show ?thesis using s' by (simp add: member_safe_def)
qed

text \<open>Older acknowledgements of the receiver stay good.\<close>

lemma accepted_acks:
  assumes inv: "safety_inv M cl A G" and s: "s = nodes cl p" and le: "cur_term s \<le> last_term l"
    and l: "l \<in> logs G" "l \<noteq> []" and x: "acked G p t x"
    and s': "cur_term s' = last_term l" "node_log s' = (if prefix l (node_log s) then node_log s else l)"
  shows "ack_safe G t x s'"
proof -
  note D = safety_invD [OF inv]
  have a: "ack_safe G t x s" using acks_invD(2) [OF D(8) x] s by simp
  note xl = acked_log [OF D(8,10) x]
  show ?thesis
  proof (cases "prefix l (node_log s) \<or> \<not> prefix x (node_log s)")
    case True
    then show ?thesis using a s' le unfolding ack_safe_def by (auto intro: order_trans)
  next
    case False
    have t: "t \<le> last_term l" using a le by (auto simp: ack_safe_def)
    obtain L where L: "elected G (last_term l) = Some L" "prefix L l"
      using terms_invD(4) [OF D(2) l] led_by_prefix by blast
    have "prefix x l" if "t = last_term l"
    proof -
      have "prefix x l \<or> prefix l x"
        using same_leader_prefix [OF D(2,10)] xl l that nat_le_linear by metis
      with False show ?thesis using prefix_order.trans by blast
    qed
    moreover have "prefix x l \<or> \<not> prefix x L" using L(2) prefix_order.trans by blast
    ultimately show ?thesis using False t s' L(1) by (auto simp: ack_safe_def order_less_le)
  qed
qed

lemma safety_receive:
  assumes inv: "safety_inv M cl A G" and p: "p \<in> M" and m: "m \<in> appends cl"
    and call: "handleAppendEntries ev m (nodes cl p) = Inr (r, s')"
  shows "\<exists>G'. grows G G' \<and> safety_inv M (set_node p s' cl) (insert (p, m, r) A) G'"
proof -
  note D = safety_invD [OF inv]
  let ?s = "nodes cl p" and ?cl = "set_node p s' cl"
  have st: "store_inv (store ?s)" using D(11) [OF p] by (simp add: log_member_def)
  have logs: "log_inv M ?cl (logs G)" by (rule log_inv_receive [OF D(1) p m call])
  show ?thesis
  proof (cases "accepts m ?s")
    case False
    from handleAppendEntries_reject [OF st False, of ev] call
    have r: "\<not> ar_success r" and cases: "s' = ?s \<or> cur_term ?s \<le> ae_term m \<and> s' = follow ev m ?s"
      by (auto split: if_splits)
    have same: "node_log s' = node_log ?s" "cur_term ?s \<le> cur_term s'"
      "getCommit (store s') = getCommit (store ?s)" "s' = ?s \<or> state s' = FOLLOWER"
      using cases follow_store_inv [OF st] follow_sel [of ?s m ev] by auto
    have mem: "member_safe M G p ?s" by (rule D(5) [OF p])
    then have "committed_ok s'"
      using cases committed_ok_follow [OF st] by (auto simp: member_safe_def)
    with mem same have safe: "member_safe M G p s'" by (cases "s' = ?s") (auto intro: member_safe_same)
    have "safety_inv M ?cl A G"
      by (rule safety_node [OF inv refl logs same(1,2) safe]) (use same(4) in auto)
    moreover have "answer_safe G p m r" using r by (simp add: answer_safe_def)
    ultimately have "safety_inv M ?cl (insert (p, m, r) A) G" by (auto simp: safety_inv_def)
    then show ?thesis using grows_refl by blast
  next
    case True
    obtain l where l: "l \<in> logs G" "l \<noteq> []" "last_term l = ae_term m" "backed m l" "append_wf m"
        "unat (ae_leaderCommit m) \<le> length l" "settled M G (ae_term m) (take (unat (ae_leaderCommit m)) l)"
      and log: "node_log s' = (if prefix l (node_log ?s) then node_log ?s else l)"
      by (rule accepted_log [OF inv p refl True D(6) [OF m] call])
    have s': "cur_term s' = ae_term m" "state s' = FOLLOWER"
      using handleAppendEntries_accept [OF st l(5) True, of ev] call by auto
    have t: "cur_term ?s \<le> ae_term m" using True by (simp add: accepts_def)
    let ?G = "G\<lparr>acks := insert (p, ae_term m, l) (acks G)\<rparr>"
    note g = grows_ack [of G "(p, ae_term m, l)"]
    have "safety_inv M ?cl (insert (p, m, r) A) ?G"
    proof (rule safety_invI)
      have "u \<le> ae_term m" if "(p, u, v) \<in> voters_logs G" for u v
        using election_invD(5) [OF D(9) that] t by (rule order_trans)
      then show "votes_inv M ?G" by (rule votes_inv_ack [OF D(3)])
      have "member_safe M G p s'"
        by (rule accepted_safe [OF inv p refl True call l(5,1,2,3,6,7) log s'])
      then show "member_safe M ?G d (nodes ?cl d)" if "d \<in> M" for d
        using that D(5) grows_member_safe [OF g] by (cases "d = p") simp_all
      show "acks_inv ?G ?cl"
      proof (rule acks_inv_insert [OF D(8) l(1)])
        show "prefix l (node_log s')" using log by auto
        show "ack_safe G u x s'" if "acked G p u x" for u x
          by (rule accepted_acks [OF inv refl _ l(1,2) that]) (use t l(3) s'(1) log in simp_all)
      qed (simp add: s')
      have "election_inv G ?cl" by (rule election_inv_node [OF D(9) refl]) (simp_all add: s' t)
      then show "election_inv ?G ?cl" by simp
      show "answer_safe ?G q n x" if "(q, n, x) \<in> insert (p, m, r) A" for q n x
      proof (cases "(q, n, x) \<in> A")
        case True
        from grows_answer_safe [OF g D(7) [OF True]] show ?thesis .
      next
        case False
        with that have "q = p" "n = m" by auto
        with l(2-4) show ?thesis by (auto simp: answer_safe_def acked_def)
      qed
      show "msg_safe M ?G n" if "n \<in> appends ?cl" for n
        using that D(6) grows_msg_safe [OF g] by simp
    qed (use logs D(2,4) in simp_all)
    with g show ?thesis by blast
  qed
qed

section \<open>A leader counts\<close>

lemma holders_card:
  assumes d: "distinct (map peer_id (peers s))" and c: "c \<notin> set (map peer_id (peers s))"
    and sub: "\<And>j. j < length (peers s) \<Longrightarrow> idx \<le> matchIndex s ! j \<Longrightarrow> peer_id (peers s ! j) \<in> Q"
    and "c \<in> Q"
  shows "holders idx s \<le> card Q"
proof -
  let ?js = "filter (\<lambda>j. connected (peers s ! j) \<and> matchIndex s ! j \<ge> idx) [0..<length (peers s)]"
  let ?ids = "map (\<lambda>j. peer_id (peers s ! j)) ?js"
  have "inj_on (\<lambda>j. peer_id (peers s ! j)) (set ?js)"
    using d by (auto simp: inj_on_def distinct_conv_nth)
  then have "distinct (c # ?ids)" using c by (auto simp: distinct_map)
  then have "holders idx s = card (set (c # ?ids))"
    by (simp only: distinct_card holders_def) simp
  also have "\<dots> \<le> card Q" using assms(3,4) by (intro card_mono) auto
  finally show ?thesis .
qed

lemma committable_settled:
  assumes terms: "terms_inv G" and H: "history_ok cl (logs G)" and acks: "acks_inv G cl"
    and l: "node_log s \<in> logs G" and lead: "leads G c s" and idx: "committable s idx" and c: "c \<in> M"
    and d: "distinct (map peer_id (peers s))" and ids: "set (map peer_id (peers s)) = M - {c}"
    and n: "length (peers s) + 1 = card M"
  shows "settled M G (cur_term s) (take (unat idx) (node_log s))"
proof -
  let ?t = "cur_term s" and ?l = "node_log s"
  have lead': "?l \<noteq> []" "last_term ?l = ?t" "(c, ?t, ?l) \<in> acks G" "match_ok G s"
    using lead by (simp_all add: leads_def)
  have e: "entry_term ?l (unat idx) = ?t" using idx by (simp add: committable_def)
  have "?t \<noteq> 0" using terms_invD(1,4) [OF terms] l lead'(1,2) by metis
  with e have i: "0 < unat idx" "unat idx \<le> length ?l" and nth: "le_term (?l ! (unat idx - 1)) = ?t"
    by (auto simp: entry_term_def split: if_splits)
  define x where "x = take (unat idx) ?l"
  have xl: "prefix x ?l" by (simp add: x_def take_is_prefix)
  have x: "x \<in> logs G" "x \<noteq> []" "last_term x = ?t" "length x = unat idx"
    using prefix_logs [OF H l xl] i nth by (auto simp: x_def last_term_def last_conv_nth)
  have "acked G (peer_id (peers s ! j)) ?t x" if j: "j < length (peers s)" "idx \<le> matchIndex s ! j" for j
  proof -
    have "matchIndex s ! j \<noteq> 0" using j(2) i(1) by (auto simp: word_le_nat_alt)
    then obtain y where y: "acked G (peer_id (peers s ! j)) ?t y" "length y = unat (matchIndex s ! j)"
      using lead'(4) j(1) by (auto simp: match_ok_def)
    note y' = acked_log [OF acks H y(1)]
    have "prefix x y"
      by (rule same_leader_prefix [OF terms H x(1,2) y'(1,2)]) (use x y' y(2) j(2) in \<open>simp_all add: word_le_nat_alt\<close>)
    with y(1) x show ?thesis unfolding acked_def by (blast intro: prefix_order.trans)
  qed
  then have peers: "peer_id (peers s ! j) \<in> {p \<in> M. acked G p ?t x}" if "j < length (peers s)" "idx \<le> matchIndex s ! j" for j
    using that ids nth_mem [of j "map peer_id (peers s)"] by auto
  have self: "c \<in> {p \<in> M. acked G p ?t x}" using c lead'(3) x xl by (auto simp: acked_def)
  have "holders idx s \<le> card {p \<in> M. acked G p ?t x}"
    by (rule holders_card [OF d _ peers self]) (use ids in simp_all)
  then have "majority_of M {p \<in> M. acked G p ?t x}"
    using idx n by (auto simp: majority_of_def committable_def majority_def)
  with x have "chosen M G ?t x" by (simp add: chosen_def)
  then show ?thesis unfolding settled_def x_def by blast
qed

lemma advance_safe:
  assumes inv: "safety_inv M cl A G" and votes: "cluster_inv M cl" and c: "c \<in> M" and s: "s = nodes cl c"
    and lead: "state s = LEADER" and prog: "match_ok G (s\<lparr>matchIndex := ms, nextIndex := ns\<rparr>)"
    and call: "advanceCommitIndex (s\<lparr>matchIndex := ms, nextIndex := ns\<rparr>) = Inr s'"
  shows "member_safe M G c s' \<and> node_log s' = node_log s \<and> cur_term s' = cur_term s \<and> state s' = LEADER"
proof -
  let ?s = "s\<lparr>matchIndex := ms, nextIndex := ns\<rparr>"
  note D = safety_invD [OF inv]
  have st: "store_inv (store ?s)" "node_log ?s \<in> logs G" and mem: "member_safe M G c s"
    using D(5,11) [OF c] s by (simp_all add: log_member_def)
  have ok: "committed_ok ?s" using mem by (simp add: member_safe_def committed_ok_def)
  have len: "length (matchIndex ?s) = length (peers ?s)" using prog by (simp add: match_ok_def)
  obtain t where t: "advanceCommitIndex ?s = Inr t" "committed_ok t" "commit_target ?s (getCommit (store t))"
    by (rule advanceCommitIndex_committed [OF st(1) len ok])
  then have s': "committed_ok s'" "commit_target ?s (getCommit (store s'))" using call by simp_all
  note frame = advanceCommitIndex_frame [OF call]
  have lead': "leads G c ?s" using mem lead prog by (simp add: member_safe_def leads_def)
  have m: "member_ok M cl c" by (rule cluster_invD(1) [OF votes c])
  from s'(2) consider "getCommit (store s') = getCommit (store s)" | "committable ?s (getCommit (store s'))"
    by (auto simp: commit_target_def)
  then have "settled M G (cur_term s) (take (unat (getCommit (store s'))) (node_log s))"
  proof cases
    case 1
    with mem show ?thesis by (simp add: member_safe_def)
  next
    case 2
    from committable_settled [OF D(2,10,8) st(2) lead' 2 c] member_count [OF m c] m s
    show ?thesis by (simp add: member_ok_def)
  qed
  moreover have "match_ok G s'" using prog frame by (simp add: match_ok_def)
  ultimately show ?thesis
    using frame lead lead' s'(1) mem by (simp add: member_safe_def leads_def)
qed

lemma match_ok_update:
  assumes "match_ok G s" and "k \<noteq> 0 \<Longrightarrow> \<exists>l. acked G (peer_id (peers s ! i)) (cur_term s) l \<and> length l = unat k"
  shows "match_ok G (s\<lparr>matchIndex := (matchIndex s)[i := k]\<rparr>)"
proof (cases "i < length (matchIndex s)")
  case True
  with assms show ?thesis by (auto simp: match_ok_def nth_list_update)
next
  case False
  then have "(matchIndex s)[i := k] = matchIndex s" by (simp add: list_update_beyond not_less)
  with assms(1) show ?thesis by simp
qed

lemma match_ok_next [simp]: "match_ok G (s\<lparr>nextIndex := ns\<rparr>) = match_ok G s"
  by (simp add: match_ok_def)

lemma match_ok_zero: "match_ok G s \<Longrightarrow> match_ok G (s\<lparr>matchIndex := (matchIndex s)[i := 0]\<rparr>)"
  by (rule match_ok_update) simp_all

lemma match_ok_back_off [simp]: "match_ok G (back_off i m s) = match_ok G s"
  by (simp add: match_ok_def back_off_def)

lemma back_off_sel [simp]:
  "store (back_off i m s) = store s" "state (back_off i m s) = state s" "sm (back_off i m s) = sm s"
  by (simp_all add: back_off_def)

text \<open>An answer to a message of the leader's own term.\<close>

lemma sent_length:
  assumes "backed m l" and "log_ok l"
  shows "unat (ae_prevLogIndex m + of_nat (length (ae_entries m))) = length l"
proof -
  have "of_nat (unat (ae_prevLogIndex m)) + of_nat (length (ae_entries m)) = (of_nat (length l) :: u64)"
    using assms(1) by (simp add: backed_def flip: of_nat_add)
  then have "ae_prevLogIndex m + of_nat (length (ae_entries m)) = (of_nat (length l) :: u64)" by simp
  with assms(2) show ?thesis by (simp add: unat_of_nat_u64 log_ok_def)
qed

lemma match_ok_progress:
  assumes ok: "match_ok G s" and i: "i < length (peers s)"
    and a: "acked G (peer_id (peers s ! i)) (cur_term s) l" "unat k = length l"
  shows "match_ok G (s\<lparr>matchIndex := (matchIndex s)[i := max (matchIndex s ! i) k], nextIndex := ns\<rparr>)"
  unfolding match_ok_next
  by (rule match_ok_update [OF ok]) (use assms in \<open>auto simp: match_ok_def max_def\<close>)

lemma reply_safe:
  assumes inv: "safety_inv M cl A G" and votes: "cluster_inv M cl" and c: "c \<in> M" and s: "s = nodes cl c"
    and lead: "state s = LEADER" and m: "ae_term m = cur_term s" and i: "i < length (peers s)"
    and r: "r = [] \<or> (\<exists>resp. r = AppendEntriesResponse_serialize resp \<and> (peer_id (peers s ! i), m, resp) \<in> A)"
    and call: "handle_append_reply i m r s = Inr s'"
  shows "member_safe M G c s' \<and> node_log s' = node_log s \<and> cur_term s \<le> cur_term s' \<and> state s' \<noteq> CANDIDATE"
proof -
  note D = safety_invD [OF inv]
  have mem: "member_safe M G c s" using D(5) [OF c] s by simp
  then have match: "match_ok G s" and ok: "committed_ok s" using lead by (simp_all add: member_safe_def leads_def)
  have len: "i < length (matchIndex s)" using match i by (simp add: match_ok_def)
  have same: ?thesis if "node_log s' = node_log s" "cur_term s' = cur_term s" "state s' = LEADER"
    "store s' = store s" "sm s' = sm s" "match_ok G s'"
    using that mem lead by (auto simp: member_safe_def leads_def committed_ok_def)
  from r consider "r = []" | resp where "r = AppendEntriesResponse_serialize resp" "(peer_id (peers s ! i), m, resp) \<in> A"
    by blast
  then show ?thesis
  proof cases
    case 1
    with call len have "s' = back_off i m (s\<lparr>matchIndex := (matchIndex s)[i := 0]\<rparr>)"
      by (simp add: handle_append_reply_def Let_def)
    then show ?thesis using lead match_ok_zero [OF match] by (intro same) simp_all
  next
    case 2
    let ?m = "max (matchIndex s ! i) (ae_prevLogIndex m + of_nat (length (ae_entries m)))"
    have "AppendEntriesResponse_deserialize r = Inr resp"
      using AppendEntriesResponse_roundtrip_append [of resp "[]"] 2(1) by simp
    then have eq: "handle_append_reply i m r s =
        (if ar_term resp > cur_term s then
           Inr (on_store (setVoted []) ((on_store (setTerm (ar_term resp)) s)\<lparr>state := FOLLOWER\<rparr>))
         else if ar_success resp \<and> ae_entries m \<noteq> [] then
           advanceCommitIndex (s\<lparr>matchIndex := (matchIndex s)[i := ?m], nextIndex := (nextIndex s)[i := ?m + 1]\<rparr>)
         else Inr (back_off i m s))"
      using 2(1) len response_tags(3,4) [of resp] by (simp add: handle_append_reply_def Let_def)
    consider "ar_term resp > cur_term s" | "\<not> ar_term resp > cur_term s" "ar_success resp" "ae_entries m \<noteq> []"
      | "\<not> ar_term resp > cur_term s" "\<not> (ar_success resp \<and> ae_entries m \<noteq> [])" by blast
    then show ?thesis
    proof cases
      case newer: 1
      then have s': "s' = on_store (setVoted []) ((on_store (setTerm (ar_term resp)) s)\<lparr>state := FOLLOWER\<rparr>)"
        using call eq by simp
      have "store_inv (store s)" using D(11) [OF c] s by (simp add: log_member_def)
      then have log: "node_log s' = node_log s" using store_inv_down s' by simp
      have "member_safe M G c s'"
        by (rule member_safe_same [OF mem log]) (use s' newer ok in \<open>simp_all add: committed_ok_def\<close>)
      with log s' newer show ?thesis by simp
    next
      case yes: 2
      then have adv: "advanceCommitIndex (s\<lparr>matchIndex := (matchIndex s)[i := ?m],
          nextIndex := (nextIndex s)[i := ?m + 1]\<rparr>) = Inr s'" using call eq by simp
      obtain l where l: "backed m l" "acked G (peer_id (peers s ! i)) (cur_term s) l"
        using D(7) [OF 2(2)] yes m by (auto simp: answer_safe_def)
      have "log_ok l" by (rule history_okD(1) [OF D(10) acked_log(1) [OF D(8,10) l(2)]])
      from match_ok_progress [OF match i l(2) sent_length [OF l(1) this]]
      have "match_ok G (s\<lparr>matchIndex := (matchIndex s)[i := ?m], nextIndex := (nextIndex s)[i := ?m + 1]\<rparr>)" .
      from advance_safe [OF inv votes c s lead this adv] show ?thesis by simp
    next
      case 3
      with call eq have "s' = back_off i m s" by simp
      then show ?thesis using lead match by (intro same) simp_all
    qed
  qed
qed

lemma safety_reply:
  assumes inv: "safety_inv M cl A G" and votes: "cluster_inv M cl" and c: "c \<in> M" and s: "s = nodes cl c"
    and "state s = LEADER" and "ae_term m = cur_term s" and "i < length (peers s)"
    and "r = [] \<or> (\<exists>resp. r = AppendEntriesResponse_serialize resp \<and> (peer_id (peers s ! i), m, resp) \<in> A)"
    and call: "handle_append_reply i m r s = Inr s'"
  shows "safety_inv M (set_node c s' cl) A G"
proof -
  note D = safety_invD [OF inv]
  note r = reply_safe [OF assms]
  have st: "store_inv (store s)" "node_log s \<in> logs G" using D(11) [OF c] s by (simp_all add: log_member_def)
  have "log_inv M (set_node c s' cl) (insert (node_log s') (logs G))"
    by (rule log_inv_local [OF D(1) votes c]) (use local_step.reply [OF call] s in simp)
  moreover have "insert (node_log s') (logs G) = logs G" using r st by auto
  ultimately have "log_inv M (set_node c s' cl) (logs G)" by simp
  with r s show ?thesis by (intro safety_node [OF inv s]) auto
qed

section \<open>Other steps of one node\<close>

lemma match_ok_cong:
  assumes "match_ok G s" and "map peer_id (peers s') = map peer_id (peers s)"
    and "matchIndex s' = matchIndex s" and "cur_term s' = cur_term s"
  shows "match_ok G s'"
proof -
  have "length (peers s') = length (peers s)" using assms(2) by (rule map_eq_imp_length_eq)
  moreover from this have "peer_id (peers s' ! i) = peer_id (peers s ! i)" if "i < length (peers s)" for i
    using assms(2) that by (metis nth_map)
  ultimately show ?thesis using assms(1,3,4) by (simp add: match_ok_def)
qed

text \<open>The log, the commit index and the state machine stay, and so does a leader.\<close>

definition idle_step :: "RaftNode \<Rightarrow> RaftNode \<Rightarrow> bool" where
  "idle_step s s' \<longleftrightarrow> node_log s' = node_log s \<and> cur_term s \<le> cur_term s'
     \<and> getCommit (store s') = getCommit (store s) \<and> committed_ok s'
     \<and> (state s' = LEADER \<longrightarrow> state s = LEADER \<and> cur_term s' = cur_term s
          \<and> matchIndex s' = matchIndex s \<and> map peer_id (peers s') = map peer_id (peers s))
     \<and> (state s' = CANDIDATE \<longrightarrow> cur_term s' = cur_term s \<longrightarrow> state s = CANDIDATE)"

lemma safety_idle:
  assumes inv: "safety_inv M cl A G" and c: "c \<in> M" and step: "idle_step (nodes cl c) s'"
    and logs: "log_inv M (set_node c s' cl) (logs G)"
  shows "safety_inv M (set_node c s' cl) A G"
proof (rule safety_node [OF inv refl logs])
  note step' = step [unfolded idle_step_def]
  have mem: "member_safe M G c (nodes cl c)" by (rule safety_invD(5) [OF inv c])
  have lead: "state (nodes cl c) = LEADER \<and> cur_term s' = cur_term (nodes cl c) \<and> match_ok G s'" if "state s' = LEADER"
    using step' that mem match_ok_cong [of G "nodes cl c" s'] by (simp add: member_safe_def leads_def)
  show "member_safe M G c s'"
    by (rule member_safe_same [OF mem _ _ _ _ lead]) (use step' in simp_all)
qed (use step in \<open>simp_all add: idle_step_def\<close>)

lemma committed_ok_cong:
  "committed_ok s \<Longrightarrow> node_log s' = node_log s \<Longrightarrow> getCommit (store s') = getCommit (store s) \<Longrightarrow>
    getApplied (store s') = getApplied (store s) \<Longrightarrow> sm s' = sm s \<Longrightarrow> committed_ok s'"
  by (simp add: committed_ok_def)

lemma committed_ok_longer:
  "committed_ok s \<Longrightarrow> node_log s' = node_log s @ es \<Longrightarrow> getCommit (store s') = getCommit (store s) \<Longrightarrow>
    getApplied (store s') = getApplied (store s) \<Longrightarrow> sm s' = sm s \<Longrightarrow> committed_ok s'"
  by (auto simp: committed_ok_def word_le_nat_alt)

lemma quiet_step_idle:
  assumes "quiet_step s s'" and st: "store_inv (store s)" and ok: "committed_ok s"
    and "node_log s' = node_log s"
  shows "idle_step s s'"
  using assms(1)
proof cases
  case (heartbeat now)
  with ok show ?thesis by (simp add: idle_step_def committed_ok_def)
next
  case (call io req i r p)
  with vote_step_rpc [OF call(2)] ok show ?thesis by (simp add: idle_step_def committed_ok_def vote_step_def)
next
  case commit
  with committed_ok_applyCommitted [OF st ok] applyCommitted_frame [OF commit] show ?thesis
    by (auto simp: idle_step_def)
next
  case (connect p fd rc i)
  then have "peer_id p = peer_id (peers s ! i)" by (simp add: backgroundConnect_step_def)
  with connect ok show ?thesis by (simp add: idle_step_def committed_ok_def map_update_same)
qed (use assms(4) store_inv_new_entry [OF st _ command_ok_noop] store_inv_new_entry [OF st] in
    \<open>auto simp: submit_append_eq get_append_eq\<close>)

lemma quiet_step_append:
  assumes "quiet_step s s'" and st: "store_inv (store s)" and new: "node_log s' \<noteq> node_log s"
  shows "\<exists>e. state s = LEADER \<and> le_term e = cur_term s \<and> node_log s' = node_log s @ [e]
    \<and> s' = on_store (append_entry e) s"
  using assms(1)
proof cases
  case (submit cmd idx)
  with store_inv_new_entry [OF st submit(3,2)] show ?thesis
    by (auto simp: submit_append_eq mk_LogEntry_def Let_def)
next
  case (get idx)
  with store_inv_new_entry [OF st get(2) command_ok_noop] show ?thesis
    by (auto simp: get_append_eq mk_LogEntry_def Let_def)
next
  case commit
  with applyCommitted_frame [OF commit] new show ?thesis by simp
qed (use new in simp_all)

lemma safety_quiet:
  assumes inv: "safety_inv M cl A G" and votes: "cluster_inv M cl" and c: "c \<in> M"
    and step: "quiet_step (nodes cl c) s'"
  shows "\<exists>G'. grows G G' \<and> safety_inv M (set_node c s' cl) A G'"
proof -
  note D = safety_invD [OF inv]
  let ?s = "nodes cl c"
  have st: "store_inv (store ?s)" "node_log ?s \<in> logs G" and mem: "member_safe M G c ?s"
    using D(5,11) [OF c] by (simp_all add: log_member_def)
  then have ok: "committed_ok ?s" by (simp add: member_safe_def)
  have logs: "log_inv M (set_node c s' cl) (insert (node_log s') (logs G))"
    by (rule log_inv_local [OF D(1) votes c local_step.quiet [OF step]])
  show ?thesis
  proof (cases "node_log s' = node_log ?s")
    case True
    with st(2) have "insert (node_log s') (logs G) = logs G" by auto
    with logs safety_idle [OF inv c quiet_step_idle [OF step st(1) ok True]] show ?thesis by (intro exI [of _ G]) simp
  next
    case False
    from quiet_step_append [OF step st(1) False] obtain e where e: "state ?s = LEADER" "le_term e = cur_term ?s"
      "node_log s' = node_log ?s @ [e]" "s' = on_store (append_entry e) ?s" by blast
    have "committed_ok s'" by (rule committed_ok_longer [OF ok e(3)]) (simp_all add: e(4))
    from safety_append [OF inv c refl e(1) _ _ _ _ e(2,3) _ this logs] e(1,4) show ?thesis by simp
  qed
qed

section \<open>Elections\<close>

lemma safety_request:
  assumes inv: "safety_inv M cl A G" and d: "rv_candidateId m = scast d" "rv_term m = cur_term (nodes cl d)"
    and "rv_term m \<noteq> 0" and "request_pos m = log_position (node_log (nodes cl d))"
  shows "safety_inv M (cl\<lparr>requests := insert m (requests cl)\<rparr>) A G" (is "safety_inv M ?cl A G")
proof (rule safety_invI)
  note D = safety_invD [OF inv]
  note E = election_invD [OF D(9)]
  have one: "e = d" if "rv_candidateId m = scast e" for e :: c_int
    using that d(1) candidate_id by metis
  show "election_inv G ?cl"
  proof (rule election_invI)
    fix n and e :: c_int assume n: "n \<in> requests ?cl" "rv_candidateId n = scast e"
    show "rv_term n \<le> cur_term (nodes ?cl e)"
      using n one d(2) E(1) by (cases "n = m") auto
    show "request_pos n = log_position (node_log (nodes ?cl e))" if "running_for (nodes ?cl e) (rv_term n)"
      using n that one assms(5) E(2) by (cases "n = m") auto
  qed (use E assms(4) in auto)
qed (use safety_invD [OF inv] in \<open>simp_all add: log_inv_other\<close>)

text \<open>A vote by node \<open>p\<close> in its term, for a candidate whose log is not behind.\<close>

lemma safety_grant:
  assumes inv: "safety_inv M cl A G" and p: "p \<in> M" and u: "u = cur_term (nodes cl p)" "u \<noteq> 0"
    and d: "u \<le> cur_term (nodes cl d)"
    and pos: "running_for (nodes cl d) u \<Longrightarrow> log_position (node_log (nodes cl p)) \<le> log_position (node_log (nodes cl d))"
  shows "\<exists>G'. grows G G' \<and> safety_inv M (cl\<lparr>granted := insert (p, u, d) (granted cl)\<rparr>) A G'"
proof -
  let ?cl = "cl\<lparr>granted := insert (p, u, d) (granted cl)\<rparr>"
  let ?v = "node_log (nodes cl p)"
  define G' where "G' = (if elected G u = None then G\<lparr>voters_logs := insert (p, u, ?v) (voters_logs G)\<rparr> else G)"
  note D = safety_invD [OF inv]
  note E = election_invD [OF D(9)]
  have f: "logs G' = logs G" "acks G' = acks G" "elected G' = elected G" "terms_inv G' = terms_inv G"
    by (simp_all add: G'_def)
  have g: "grows G G'" by (simp add: grows_def f)
  have V: "voters_logs G \<subseteq> voters_logs G'" "elected G u = None \<Longrightarrow> (p, u, ?v) \<in> voters_logs G'"
    "\<And>q w v. (q, w, v) \<in> voters_logs G' \<Longrightarrow> (q, w, v) \<in> voters_logs G \<or> q = p \<and> w = u \<and> v = ?v"
    by (auto simp: G'_def split: if_splits)
  have "safety_inv M ?cl A G'"
  proof (rule safety_invI)
    have "votes_inv M (G\<lparr>voters_logs := insert (p, u, ?v) (voters_logs G)\<rparr>)" if "elected G u = None"
    proof (rule votes_inv_vote [OF D(3) that])
      show "?v \<in> logs G" using D(11) [OF p] by (simp add: log_member_def)
      show "ack_safe G t l (nodes cl p)" if "acked G p t l" for t l by (rule acks_invD(2) [OF D(8) that])
    qed (simp_all add: u)
    with D(3) show "votes_inv M G'" by (simp add: G'_def)
    have "acks_inv G' cl" by (rule acks_inv_grow [OF D(8) g]) (simp add: f)
    then show "acks_inv G' ?cl" by simp
    show "election_inv G' ?cl"
    proof (rule election_invI)
      fix q w e assume a: "(q, w, e) \<in> granted ?cl"
      show "w \<le> cur_term (nodes ?cl e)" using a d E(3) by auto
      assume none: "elected G' w = None"
      show "\<exists>v. (q, w, v) \<in> voters_logs G'
        \<and> (running_for (nodes ?cl e) w \<longrightarrow> log_position v \<le> log_position (node_log (nodes ?cl e)))"
      proof (cases "(q, w, e) \<in> granted cl")
        case True
        from E(4) [OF this] none V(1) show ?thesis by (auto simp: f)
      next
        case False
        with a have "q = p" "w = u" "e = d" by auto
        with V(2) none pos show ?thesis by (auto simp: f)
      qed
    next
      fix q w v assume "(q, w, v) \<in> voters_logs G'"
      with V(3) E(5,7) u show "w \<le> cur_term (nodes ?cl q)" and "w \<noteq> 0" by fastforce+
    qed (use E(1,2,6) in simp_all)
    show "member_safe M G' c (nodes ?cl c)" if "c \<in> M" for c using grows_member_safe [OF g D(5) [OF that]] by simp
    show "msg_safe M G' m" if "m \<in> appends ?cl" for m using grows_msg_safe [OF g] D(6) that by simp
    show "answer_safe G' q m r" if "(q, m, r) \<in> A" for q m r using grows_answer_safe [OF g D(7) [OF that]] .
  qed (use D in \<open>simp_all add: log_inv_other f\<close>)
  with g show ?thesis by blast
qed

lemma election_begin_frame:
  "getCommit (store (election_begin ev s)) = getCommit (store s)"
  "getApplied (store (election_begin ev s)) = getApplied (store s)" "sm (election_begin ev s) = sm s"
  by (simp_all add: election_begin_def reset_timer_def)

lemma safety_timeout:
  assumes inv: "safety_inv M cl A G" and votes: "cluster_inv M cl" and c: "c \<in> M" and s: "s = nodes cl c"
    and room: "cur_term s + 1 \<noteq> 0" and s': "s' = election_begin ev s"
  shows "\<exists>G'. grows G G' \<and> safety_inv M ((set_node c s' cl)\<lparr>granted := insert (c, cur_term s', c) (granted cl),
    requests := insert (make_RequestVote s') (requests cl), ballots := b\<rparr>) A G'"
proof -
  note D = safety_invD [OF inv]
  let ?cl = "set_node c s' cl"
  have mem: "committed_ok s" using D(5) [OF c] s by (simp add: member_safe_def)
  have st: "store_inv (store s')" using D(11) [OF c] s s' election_begin_store by (simp add: log_member_def)
  have id: "node_id s = c" using cluster_invD(1) [OF votes c] s by (simp add: member_ok_def)
  have "cur_term s < cur_term s + 1"
    using room unatSuc [of "cur_term s"] by (simp add: word_less_nat_alt add.commute)
  then have "idle_step s s'"
    using s' mem unfolding idle_step_def by (simp add: election_begin_eq election_begin_frame committed_ok_def)
  with s have "safety_inv M ?cl A G"
    using log_inv_timeout [OF D(1) c s room, of ev] s' by (intro safety_idle [OF inv c]) simp_all
  from safety_grant [OF this c refl, of c] room s s' obtain G'
    where g: "grows G G'" and "safety_inv M (?cl\<lparr>granted := insert (c, cur_term s', c) (granted cl)\<rparr>) A G'"
    by (auto simp: election_begin_eq)
  from safety_request [OF this(2), of "make_RequestVote s'" c] room s' id store_pos_log [OF st]
    make_RequestVote_pos [of s']
  have "safety_inv M (?cl\<lparr>granted := insert (c, cur_term s', c) (granted cl),
      requests := insert (make_RequestVote s') (requests cl)\<rparr>) A G'"
    by (simp add: make_RequestVote_def election_begin_eq)
  with g show ?thesis by auto
qed

lemma safety_vote:
  assumes inv: "safety_inv M cl A G" and votes: "cluster_inv M cl" and p: "p \<in> M" and m: "m \<in> requests cl"
    and call: "handleRequestVote ev m (nodes cl p) = (r, s')"
  shows "\<exists>G'. grows G G' \<and> safety_inv M ((set_node p s' cl)\<lparr>
        granted := (if vr_voteGranted r then insert (p, rv_term m, ucast (rv_candidateId m)) (granted cl)
                    else granted cl),
        answers := a\<rparr>) A G'"
proof -
  note D = safety_invD [OF inv]
  let ?cl = "set_node p s' cl" and ?s = "nodes cl p"
  note eq = handleRequestVote_eq [OF call]
  have mem: "committed_ok ?s" and st: "store_inv (store ?s)"
    using D(5,11) [OF p] by (simp_all add: member_safe_def log_member_def)
  have "idle_step ?s s'"
    unfolding idle_step_def using eq committed_ok_cong [OF mem, of s']
    by (auto simp: max_def split: if_splits)
  then have step: "safety_inv M ?cl A G"
    by (rule safety_idle [OF inv p]) (rule log_inv_vote [OF D(1) p call])
  show ?thesis
  proof (cases "vr_voteGranted r")
    case False
    have "?cl\<lparr>granted := granted cl\<rparr> = ?cl" by simp
    with step False show ?thesis by (intro exI [of _ G]) simp
  next
    case True
    obtain d :: c_int where d: "rv_candidateId m = scast d" using cluster_invD(3) [OF votes m] by blast
    note E = election_invD [OF safety_invD(9) [OF step]]
    have g: "cur_term ?s \<le> rv_term m" "store_pos (store ?s) \<le> request_pos m"
      using True eq(1) by (simp_all add: grants_def)
    have "\<exists>G'. grows G G' \<and> safety_inv M (?cl\<lparr>granted := insert (p, rv_term m, d) (granted ?cl)\<rparr>) A G'"
    proof (rule safety_grant [OF step p])
      show "rv_term m = cur_term (nodes ?cl p)" using eq(3) g(1) by (simp add: max_def)
      show "rv_term m \<noteq> 0" by (rule E(6)) (simp add: m)
      show "rv_term m \<le> cur_term (nodes ?cl d)" by (rule E(1) [OF _ d]) (simp add: m)
      assume "running_for (nodes ?cl d) (rv_term m)"
      from E(2) [OF _ d this] m g(2) eq(11) store_pos_log [OF st]
      show "log_position (node_log (nodes ?cl p)) \<le> log_position (node_log (nodes ?cl d))" by simp
    qed
    with True d show ?thesis by auto
  qed
qed

lemma election_reply_frame:
  assumes "election_reply ev r n s = Inr (v, s')"
  shows "getCommit (store s') = getCommit (store s) \<and> getApplied (store s') = getApplied (store s)
    \<and> sm s' = sm s \<and> matchIndex s' = matchIndex s"
  using assms by (auto simp: election_reply_def reset_timer_def split: if_splits elim!: bind_result_InrE)

lemma safety_answer:
  assumes inv: "safety_inv M cl A G" and c: "c \<in> M" and s: "s = nodes cl c"
    and rpc: "sendRPC io req (peers s ! i) = (r, p)"
    and call: "election_reply ev r n (s\<lparr>peers := (peers s)[i := p]\<rparr>) = Inr (v, s')"
  shows "safety_inv M (set_node c s' cl) A G"
proof (rule safety_idle [OF inv c])
  note D = safety_invD [OF inv]
  have mem: "committed_ok s" and st: "store_inv (store s)"
    using D(5,11) [OF c] s by (simp_all add: member_safe_def log_member_def)
  have v: "vote_step s s'"
    using vote_step_rpc [OF rpc] vote_step_election_reply [OF call] by (blast intro: vote_step_trans)
  have "node_log s' = node_log s" using election_reply_store [OF call] st by simp
  moreover from this election_reply_frame [OF call] have "committed_ok s'"
    by (intro committed_ok_cong [OF mem]) simp_all
  ultimately have "idle_step s s'"
    using v election_reply_frame [OF call] by (cases "state s'") (simp_all add: idle_step_def vote_step_def)
  with s show "idle_step (nodes cl c) s'" by simp
  show "log_inv M (set_node c s' cl) (logs G)" by (rule log_inv_answer [OF D(1) c s rpc call])
qed

lemma election_inv_elect:
  "election_inv G cl \<Longrightarrow> elected G u = None \<Longrightarrow> election_inv (G\<lparr>elected := (elected G)(u \<mapsto> L)\<rparr>) cl"
  unfolding election_inv_def by simp

lemma terms_inv_elect:
  assumes "terms_inv G" and "elected G u = None" and "u \<noteq> 0" and "L \<in> logs G" and "\<And>e. e \<in> set L \<Longrightarrow> le_term e < u"
  shows "terms_inv (G\<lparr>elected := (elected G)(u \<mapsto> L)\<rparr>)"
proof -
  have "last_term l \<noteq> u" if "l \<in> logs G" "l \<noteq> []" for l
    using terms_invD(4) [OF assms(1) that] assms(2) by auto
  with assms show ?thesis unfolding terms_inv_def by auto
qed

text \<open>A term is won for the first time.\<close>

lemma fresh_term:
  assumes inv: "safety_inv M cl A G" and votes: "cluster_inv M cl" and c: "c \<in> M" and s: "s = nodes cl c"
    and b: "ballots cl c = Some b" and maj: "bl_votes b \<ge> majority s" and cand: "state s = CANDIDATE"
  shows "elected G (cur_term s) = None"
proof (rule ccontr)
  note D = safety_invD [OF inv]
  assume "elected G (cur_term s) \<noteq> None"
  then have "cur_term s \<in> fst ` won cl" unfolding D(4) by (rule notnotD)
  then obtain d where d: "(cur_term s, d) \<in> won cl" by auto
  have "d = c" by (rule won_unique [OF inv_elected [OF votes c s b maj cand], of "cur_term s"]) (simp_all add: d)
  with d have "(cur_term (nodes cl c), c) \<in> won cl" by (simp add: s)
  moreover have "past_wins cl" using D(1) by (simp add: log_inv_def)
  ultimately have "state (nodes cl c) \<noteq> CANDIDATE" unfolding past_wins_def by blast
  with cand s show False by simp
qed

lemma winner_votes:
  assumes inv: "safety_inv M cl A G" and votes: "cluster_inv M cl" and c: "c \<in> M" and s: "s = nodes cl c"
    and b: "ballots cl c = Some b" and maj: "bl_votes b \<ge> majority s" and cand: "state s = CANDIDATE"
  shows "majority_of M {p \<in> M. \<exists>v. (p, cur_term s, v) \<in> voters_logs G
      \<and> log_position v \<le> log_position (node_log s)}" (is "majority_of M ?Q") and "cur_term s \<noteq> 0"
proof -
  note D = safety_invD [OF inv]
  note E = election_invD [OF D(9)]
  have t: "cur_term s = rv_term (bl_msg b)"
    using cluster_invD(5) [OF votes c b] cand s by (simp add: ballot_ok_def)
  let ?S = "supporters cl (cur_term s) c"
  have S: "majority_of M ?S" using ballot_majority [OF votes c b] maj s t by simp
  have "p \<in> ?Q" if "p \<in> ?S" for p
  proof -
    have g: "(p, cur_term s, c) \<in> granted cl" using that by (simp add: supporters_def)
    have "p \<in> M" using S that by (auto simp: majority_of_def)
    with E(4) [OF g fresh_term [OF assms]] cand s show ?thesis by (auto simp: running_for_def)
  qed
  then have sub: "?S \<subseteq> ?Q" by blast
  from card_mono [OF _ this] S show "majority_of M ?Q" by (auto simp: majority_of_def)
  then obtain p v where "(p, cur_term s, v) \<in> voters_logs G"
    using mq.meet [of M ?Q ?Q] by blast
  then show "cur_term s \<noteq> 0" by (rule E(7))
qed

lemma take_office_safe:
  assumes "committed_ok s" and "store_inv (store s)" and "log_room s"
  shows "committed_ok (take_office s)" and "commits (take_office s) = commits s"
    and "node_log (take_office s) = node_log s @ [noop_entry s]" and "match_ok G (take_office s)"
proof -
  show log: "node_log (take_office s) = node_log s @ [noop_entry s]"
    using store_inv_new_entry [OF assms(2,3) command_ok_noop] by simp
  have sm: "sm (take_office s) = sm s" by (simp add: take_office_def Let_def)
  show "committed_ok (take_office s)"
    by (rule committed_ok_longer [OF assms(1) log]) (simp_all add: sm)
  show "commits (take_office s) = commits s" unfolding log using assms(1) by (simp add: committed_ok_def)
  show "match_ok G (take_office s)" by (simp add: match_ok_def)
qed

lemma safety_win:
  assumes inv: "safety_inv M cl A G" and votes: "cluster_inv M cl" and c: "c \<in> M" and s: "s = nodes cl c"
    and b: "ballots cl c = Some b" and maj: "bl_votes b \<ge> majority s" and cand: "state s = CANDIDATE"
    and room: "log_room s"
  shows "\<exists>G'. grows G G' \<and> safety_inv M ((set_node c (take_office s) cl)\<lparr>
    ballots := (ballots cl)(c := None), won := insert (cur_term s, c) (won cl)\<rparr>) A G'"
proof (intro exI conjI safety_invI)
  note D = safety_invD [OF inv]
  let ?u = "cur_term s" and ?l = "node_log s @ [noop_entry s]"
  let ?E = "G\<lparr>elected := (elected G)(?u \<mapsto> node_log s)\<rparr>"
  let ?L = "?E\<lparr>logs := insert ?l (logs ?E)\<rparr>"
  let ?G = "?L\<lparr>acks := insert (c, ?u, ?l) (acks ?L)\<rparr>"
  let ?cl = "(set_node c (take_office s) cl)\<lparr>
    ballots := (ballots cl)(c := None), won := insert (cur_term s, c) (won cl)\<rparr>"
  note new = fresh_term [OF inv votes c s b maj cand]
  note quorum = winner_votes [OF inv votes c s b maj cand]
  have st: "store_inv (store s)" "node_log s \<in> logs G" and mem: "member_safe M G c s"
    using D(5,11) [OF c] s by (simp_all add: log_member_def)
  then have ok: "committed_ok s" by (simp add: member_safe_def)
  note office = take_office_safe [OF ok st(1) room]
  have e: "le_term (noop_entry s) = ?u" by (simp add: mk_LogEntry_def Let_def)
  have gl: "grows G ?L" and g: "grows G ?G" using new by (auto simp: grows_def map_le_def)
  show "grows G ?G" by (rule g)
  show "log_inv M ?cl (logs ?G)" using log_inv_win [OF D(1) votes c s b maj cand room] by simp
  have old: "le_term x < ?u" if x: "x \<in> set (node_log s)" for x
  proof -
    have "le_term x \<le> ?u" using terms_le [OF D(2) st(2) x] mem by (auto simp: member_safe_def)
    moreover have "le_term x \<noteq> ?u" using term_elected [OF D(2,10) st(2) x] new by auto
    ultimately show ?thesis by simp
  qed
  have "terms_inv ?E" by (rule terms_inv_elect [OF D(2) new quorum(2) st(2) old])
  moreover have "led_by ?l ?u (node_log s)" using e by (simp add: led_by_def strict_prefix_def)
  ultimately show "terms_inv ?G" using terms_inv_snoc [of ?E ?u] e by simp
  have "u \<le> ?u" if "(c, u, v) \<in> voters_logs ?L" for u v
    using election_invD(5) [OF D(9)] that s by simp
  then show "votes_inv M ?G"
    using votes_inv_ack votes_inv_logs votes_inv_elect [OF D(3) new quorum(1)] by blast
  have "acks_inv ?G (set_node c (take_office s) cl)"
  proof (rule acks_inv_insert)
    show "acks_inv ?L cl" by (rule acks_inv_grow [OF D(8) gl]) simp
    fix t x assume "acked ?L c t x"
    then have "acked G c t x" by (simp add: acked_def)
    then have "ack_safe G t x s" using acks_invD(2) [OF D(8)] s by simp
    from ack_safe_later [OF grows_ack_safe [OF gl this]] show "ack_safe ?L t x (take_office s)"
      using office(3) by simp
  qed (use office(3) in simp_all)
  then show "acks_inv ?G ?cl" by simp
  have "election_inv G (set_node c (take_office s) cl)"
    by (rule election_inv_node [OF D(9) s]) simp_all
  from election_inv_elect [OF this new] show "election_inv ?G ?cl" by simp
  have "settled M ?G ?u (commits (take_office s))"
    using mem grows_settled [OF g _ order_refl] office(2) by (simp add: member_safe_def)
  moreover have "leads ?G c (take_office s)" using office(3,4) e by (simp add: leads_def)
  ultimately have "member_safe M ?G c (take_office s)"
    using office e by (simp add: member_safe_def)
  then show "member_safe M ?G d (nodes ?cl d)" if "d \<in> M" for d
    using that D(5) grows_member_safe [OF g] by (cases "d = c") simp_all
  show "elected ?G t = None \<longleftrightarrow> t \<notin> fst ` won ?cl" for t using D(4) [of t] by auto
  show "msg_safe M ?G m" if "m \<in> appends ?cl" for m
    using that grows_msg_safe [OF g] D(6) by simp
  show "answer_safe ?G p m r" if "(p, m, r) \<in> A" for p m r
    using that grows_answer_safe [OF g] D(7) by simp
qed

lemma safety_election:
  assumes "election_step M cl cl'" and "cluster_inv M cl" and "safety_inv M cl A G"
  shows "\<exists>G'. grows G G' \<and> safety_inv M cl' A G'"
  using assms
proof (induction rule: election_step.induct)
  case (timeout c s cl ev s')
  from safety_timeout [OF timeout(9,8,1,2,6,7)] show ?case by simp
next
  case (vote p m cl ev r s')
  from safety_vote [OF vote(5,4,1-3)] show ?case by simp
next
  case (answer c s cl b i js io r p ev v s')
  from safety_answer [OF answer(9,1,2,5,7)] show ?case by (intro exI [of _ G]) simp
next
  case (win c s cl b)
  from safety_win [OF win(9,8,1-3,5,6,7)] show ?case .
next
  case (lose c s cl b)
  then show ?case by (intro exI [of _ G]) simp
qed

end
