(* ===== verification/Safety.thy ===== *)
theory Safety
  imports SafetySteps
begin

text \<open>
  State machine safety and leader completeness of orderly runs: what a node has committed is what
  every other node has at the same places once it has committed as far, and every leader of the
  same or a later term has all of it.
\<close>

section \<open>Orderly runs are safe\<close>

lemma safety_restart:
  assumes inv: "safety_inv M cl A G" and votes: "cluster_inv M cl" and c: "c \<in> M"
    and all: "unat (getCommit (store (nodes cl c))) = length (node_log (nodes cl c))"
    and init: "RaftNode_init ev c ps (st_disk (store (nodes cl c))) = Inr s'"
    and ps: "map peer_id ps = map peer_id (peers (nodes cl c))"
  shows "safety_inv M (set_node c s' cl) A G"
proof (rule safety_idle [OF inv c])
  note D = safety_invD [OF inv]
  let ?st = "store (nodes cl c)"
  have st: "store_inv ?st" using D(11) [OF c] by (simp add: log_member_def)
  from restart_recovers [OF st, of ev c ps] init
  have "committed_ok s'" "state s' = FOLLOWER" "cur_term s' = getTerm ?st" "node_log s' = log_of ?st"
    "getCommit (store s') = of_nat (unat (getCommit ?st))" by (auto simp: all)
  then show "idle_step (nodes cl c) s'" by (simp add: idle_step_def)
  have "crash_image ?st ?st" by (rule crash_image.clean [of "getLastLogIndex ?st"]) (simp add: truncate_log_def)
  then show "log_inv M (set_node c s' cl) (logs G)" by (rule log_inv_crash [OF D(1) votes c _ init ps])
qed

lemma safety_step:
  assumes "orderly_step M cl A cl' A'" and "cluster_inv M cl" and "safety_inv M cl A G"
  shows "\<exists>G'. grows G G' \<and> safety_inv M cl' A' G'"
  using assms
proof (induction rule: orderly_step.induct)
  case (quiet c cl s' A)
  from safety_quiet [OF quiet(4,3,1,2)] show ?case .
next
  case (send c cl i ae A)
  from safety_send [OF send(5,1) refl send(2,3)] show ?case using grows_refl by blast
next
  case (receive p ae cl ev resp s' A)
  from safety_receive [OF receive(5,1-3)] show ?case .
next
  case (reply c s cl ae i r A s')
  from safety_reply [OF reply(10,9,1-3,5-8)] show ?case using grows_refl by blast
next
  case (election cl cl' A)
  from safety_election [OF election] show ?case .
next
  case (restart c cl ev ps s' A)
  from safety_restart [OF restart(6,5,1-4)] show ?case by (intro exI [of _ G]) simp
qed

lemma safety_start:
  assumes start: "cluster_start M cl"
  shows "safety_inv M cl {} \<lparr>logs = {[]}, elected = Map.empty, acks = {}, voters_logs = {}\<rparr>"
    (is "safety_inv M cl {} ?G")
proof (rule safety_invI)
  have none: "\<not> acked ?G p t l" for p t l by (simp add: acked_def)
  show "member_safe M ?G c (nodes cl c)" if c: "c \<in> M" for c
  proof -
    from start c obtain ev ps where "RaftNode_init ev c ps empty_disk = Inr (nodes cl c)"
      by (auto simp: cluster_start_def)
    then have "nodes cl c = reset_timer ev 0 (fresh_node c ps)" by (simp add: RaftNode_init_empty)
    then show ?thesis
      using log_of_fresh [of c ps]
      by (simp add: member_safe_def reset_timer_def committed_ok_def settled_def last_term_def)
        (simp add: fresh_node_def)
  qed
  show "log_inv M cl (logs ?G)" using log_inv_start [OF start] by simp
qed (use start in \<open>simp_all add: cluster_start_def terms_inv_def votes_inv_def acks_inv_def election_inv_def
    acked_def\<close>)

lemma safety_orderly: "orderly M cl A \<Longrightarrow> \<exists>G. safety_inv M cl A G"
proof (induction rule: orderly.induct)
  case (start cl)
  then show ?case using safety_start by blast
next
  case (step cl A cl' A')
  then show ?case using safety_step cluster_inv_reachable orderly_reachable by blast
qed

lemma safety_run:
  assumes "orderly_run M cl A cl' A'" and "orderly M cl A" and "safety_inv M cl A G"
  shows "\<exists>G'. grows G G' \<and> safety_inv M cl' A' G'"
  using assms
proof (induction rule: orderly_run.induct)
  case here
  then show ?case using grows_refl by blast
next
  case (onward cl1 A1 cl2 A2)
  then obtain G1 where G1: "grows G G1" "safety_inv M cl1 A1 G1" by blast
  have "cluster_inv M cl1"
    using cluster_inv_reachable orderly_reachable orderly_onward onward(1,4) by blast
  from safety_step [OF onward(2) this G1(2)] G1(1) show ?case using grows_trans by blast
qed

text \<open>What a node has committed stays settled.\<close>

lemma settled_later:
  assumes start: "orderly M cl A" and run: "orderly_run M cl A cl' A'" and d: "d \<in> M"
  obtains G where "safety_inv M cl' A' G" and "settled M G (cur_term (nodes cl d)) (commits (nodes cl d))"
    and "committed_ok (nodes cl d)"
proof -
  obtain G where G: "safety_inv M cl A G" using safety_orderly [OF start] by blast
  obtain G' where G': "grows G G'" "safety_inv M cl' A' G'" using safety_run [OF run start G] by blast
  have "member_safe M G d (nodes cl d)" by (rule safety_invD(5) [OF G d])
  with grows_settled [OF G'(1) _ order_refl] that [OF G'(2)] show ?thesis by (auto simp: member_safe_def)
qed

lemma shorter_prefix: "prefix x y \<or> prefix y x \<Longrightarrow> length x \<le> length y \<Longrightarrow> prefix x y"
  by (auto simp: prefix_def)

lemma commits_agree:
  assumes start: "orderly M cl A" and run: "orderly_run M cl A cl' A'" and c: "c \<in> M" and d: "d \<in> M"
  shows "prefix (commits (nodes cl c)) (commits (nodes cl' d)) \<or> prefix (commits (nodes cl' d)) (commits (nodes cl c))"
proof -
  obtain G where G: "safety_inv M cl' A' G" and x: "settled M G (cur_term (nodes cl c)) (commits (nodes cl c))"
    by (rule settled_later [OF start run c])
  note D = safety_invD [OF G]
  have "settled M G (cur_term (nodes cl' d)) (commits (nodes cl' d))" using D(5) [OF d] by (simp add: member_safe_def)
  with settled_agree [OF D(2,10,3) x] show ?thesis .
qed

lemma orderly_committed_ok: "orderly M cl A \<Longrightarrow> d \<in> M \<Longrightarrow> committed_ok (nodes cl d)"
  using safety_orderly safety_invD(5) by (fastforce simp: member_safe_def)

lemma length_commits: "committed_ok s \<Longrightarrow> length (commits s) = unat (getCommit (store s))"
  by (simp add: committed_ok_def)

text \<open>
  C5. State machine safety: at any two moments of an orderly run, of two nodes the one with the
  lower commit index has committed a prefix of what the other has in its log, entry by entry, and
  its state machine is the result of running the other's log up to the index it has applied.
\<close>

theorem state_machine_safety:
  assumes start: "orderly M cl A" and run: "orderly_run M cl A cl' A'" and c: "c \<in> M" and d: "d \<in> M"
    and le: "getCommit (store (nodes cl c)) \<le> getCommit (store (nodes cl' d))"
  shows "commits (nodes cl c) = take (unat (getCommit (store (nodes cl c)))) (node_log (nodes cl' d))
    \<and> sm (nodes cl c) = run_log (take (unat (getApplied (store (nodes cl c)))) (node_log (nodes cl' d))) StateMachine_init"
proof -
  let ?n = "unat (getCommit (store (nodes cl c)))"
  have ok: "committed_ok (nodes cl c)" "committed_ok (nodes cl' d)"
    using orderly_committed_ok [OF start c] orderly_committed_ok [OF orderly_onward [OF run start] d] .
  have "prefix (commits (nodes cl c)) (commits (nodes cl' d))"
    by (rule shorter_prefix [OF commits_agree [OF start run c d]])
      (use le in \<open>simp only: length_commits [OF ok(1)] length_commits [OF ok(2)] word_le_nat_alt\<close>)
  then have "prefix (commits (nodes cl c)) (node_log (nodes cl' d))"
    using take_is_prefix prefix_order.trans by blast
  from prefix_take [OF this] have 1: "commits (nodes cl c) = take ?n (node_log (nodes cl' d))"
    unfolding length_commits [OF ok(1)] .
  have "unat (getApplied (store (nodes cl c))) \<le> ?n" using ok(1) by (simp add: committed_ok_def word_le_nat_alt)
  from take_eq_shorter [OF 1 this] ok(1) 1 show ?thesis by (simp add: committed_ok_def)
qed

theorem state_machine_safety_witness:
  "\<exists>cl A cl' A'. orderly members3 cl A \<and> orderly_run members3 cl A cl' A'
    \<and> commits (nodes cl 1) = [noop1] \<and> take 1 (node_log (nodes cl' 2)) = [noop1]
    \<and> sm (nodes cl 1) = run_log (take (unat (getApplied (store (nodes cl 1)))) (node_log (nodes cl' 2))) StateMachine_init"
proof -
  obtain cl A cl' A' where cl: "orderly members3 cl A" "orderly_run members3 cl A cl' A'"
    "getCommit (store (nodes cl 1)) = 1" "node_log (nodes cl 1) = [noop1]"
    "ready cl' [noop1] []" "getCommit (store (nodes cl' 2)) = 1"
    by (rule committed_orderly)
  have "1 \<in> members3" "2 \<in> members3" by (simp_all add: members3_def)
  from state_machine_safety [OF cl(1,2) this] cl show ?thesis
    by (intro exI [of _ cl] exI [of _ A] exI [of _ cl'] exI [of _ A']) (simp add: ready_def)
qed

text \<open>
  C6. Leader completeness: what a node has committed at some moment of an orderly run is in the
  log of every leader of the same or a later term, then and at any later moment.
\<close>

theorem leader_completeness:
  assumes start: "orderly M cl A" and run: "orderly_run M cl A cl' A'" and d: "d \<in> M" and c: "c \<in> M"
    and lead: "state (nodes cl' c) = LEADER" and le: "cur_term (nodes cl d) \<le> cur_term (nodes cl' c)"
  shows "prefix (commits (nodes cl d)) (node_log (nodes cl' c))"
proof -
  obtain G where G: "safety_inv M cl' A' G" and x: "settled M G (cur_term (nodes cl d)) (commits (nodes cl d))"
    by (rule settled_later [OF start run d])
  note D = safety_invD [OF G]
  let ?l = "node_log (nodes cl' c)"
  have mem: "leads G c (nodes cl' c)" "log_member cl' (logs G) c"
    using D(5,11) [OF c] lead by (simp_all add: member_safe_def)
  then have l: "?l \<in> logs G" "?l \<noteq> []" "last_term ?l = cur_term (nodes cl' c)"
    by (simp_all add: leads_def log_member_def)
  show ?thesis
  proof (cases "commits (nodes cl d) = []")
    case False
    with x obtain t k where k: "t \<le> cur_term (nodes cl d)" "chosen M G t k" "prefix (commits (nodes cl d)) k"
      by (auto simp: settled_def)
    have k': "k \<in> logs G" "k \<noteq> []" "last_term k = t" using k(2) by (simp_all add: chosen_def)
    have "prefix k ?l"
    proof (cases "t < last_term ?l")
      case True
      from chosen_later [OF D(2,10,3) k(2) l(1,2) True] show ?thesis .
    next
      case False
      with k(1) le l(3) have t: "t = last_term ?l" by simp
      have "le_term (k ! (length k - 1)) = cur_term (nodes cl' c)"
        using k'(2,3) t l(3) by (simp add: last_term_def last_conv_nth)
      then have "length k - 1 < length ?l"
        using mem(2) lead k'(1,2) unfolding log_member_def by (metis diff_less length_greater_0_conv zero_less_one)
      then have "length k \<le> length ?l" by simp
      then show ?thesis using same_leader_prefix [OF D(2,10) k'(1,2) l(1,2)] k'(3) t by simp
    qed
    with k(3) show ?thesis by (rule prefix_order.trans)
  next
    case True
    show ?thesis unfolding True by simp
  qed
qed

theorem leader_completeness_witness:
  "\<exists>cl A. orderly members3 cl A \<and> state (nodes cl 1) = LEADER \<and> commits (nodes cl 2) = [noop1]
    \<and> prefix (commits (nodes cl 2)) (node_log (nodes cl 1))"
proof -
  obtain cl A cl' A' where cl: "orderly members3 cl A" "orderly_run members3 cl A cl' A'"
    "ready cl' [noop1] []" "getCommit (store (nodes cl' 2)) = 1"
    by (rule committed_orderly)
  have m: "2 \<in> members3" "1 \<in> members3" by (simp_all add: members3_def)
  have s: "state (nodes cl' 1) = LEADER" "cur_term (nodes cl' 2) \<le> cur_term (nodes cl' 1)"
    "node_log (nodes cl' 2) = [noop1]" using cl(3) by (simp_all add: ready_def)
  have "orderly members3 cl' A'" by (rule orderly_onward [OF cl(2,1)])
  from leader_completeness [OF this orderly_run.here m s(1,2)] this s cl(4) show ?thesis
    by (intro exI [of _ cl'] exI [of _ A']) simp
qed

end
