(* ===== verification/TcpServer.thy ===== *)
theory TcpServer
  imports Leadership
begin

text \<open>
  The two connection handlers of \<^verbatim>\<open>include/TCP_server.h\<close>. A connection is the list of chunks that
  successive \<^verbatim>\<open>read\<close> calls deliver, each with the state in which the shared node is when its
  handler runs (other connections and the background thread change it in between). The lemmas
  show what a request does from its bytes to the bytes of the answer: votes and AppendEntries
  messages that fit the 4095 byte buffer are decoded, handled and answered; an AppendEntries
  message that does not fit is read past its end.
\<close>

section \<open>The server object\<close>

text \<open>
  The two listening sockets and the flag all loops test. (The results of \<^verbatim>\<open>bind\<close> and \<^verbatim>\<open>listen\<close> are
  not looked at.) The descriptors the destructor closes are listed with the object.
\<close>

record TCPServer =
  srv_client_fd :: int
  srv_raft_fd :: int
  srv_running :: bool

definition TCPServer_init :: "int \<Rightarrow> int \<Rightarrow> TCPServer" where
  "TCPServer_init cfd rfd = \<lparr>srv_client_fd = cfd, srv_raft_fd = rfd, srv_running = True\<rparr>"

definition TCPServer_destroy :: "TCPServer \<Rightarrow> TCPServer \<times> int list" where
  "TCPServer_destroy srv = (srv\<lparr>srv_running := False\<rparr>, [srv_client_fd srv, srv_raft_fd srv])"

section \<open>Requests of other nodes\<close>

definition buffer_size :: nat where
  "buffer_size = 4095"

text \<open>One round of \<^verbatim>\<open>handleRaft\<close>: the answer to write, if any, and the node afterwards.\<close>

definition raft_request :: "readings \<Rightarrow> byte list \<Rightarrow> RaftNode \<Rightarrow> (byte list option \<times> RaftNode) result" where
  "raft_request ev data s =
     (let msg_type = hd data in
      if msg_type = of_char CHR ''V'' then
        bind_result (RequestVote_deserialize data) (\<lambda>rpc.
        let (voteResp, s) = handleRequestVote ev rpc s
        in Inr (Some (RequestVoteResponse_serialize voteResp), s))
      else if msg_type = of_char CHR ''A'' then
        bind_result (AppendEntries_deserialize data) (\<lambda>rpc.
        bind_result (handleAppendEntries ev rpc s) (\<lambda>(aeResp, s).
        Inr (Some (AppendEntriesResponse_serialize aeResp), s)))
      else Inr (None, s))"

text \<open>
  The loop: the answers written until the server stops or the connection ends. A failure that no
  handler catches ends the thread, and with it the program.
\<close>

fun handleRaft :: "(TCPServer \<times> readings \<times> byte list \<times> RaftNode) list \<Rightarrow> byte list list result" where
  "handleRaft [] = Inr []"
| "handleRaft ((srv, ev, stream, s) # rounds) =
     (let data = take buffer_size stream in
      if \<not> srv_running srv \<or> data = [] then Inr []
      else bind_result (raft_request ev data s) (\<lambda>(answer, s').
        bind_result (handleRaft rounds) (\<lambda>out.
        Inr (case answer of None \<Rightarrow> out | Some a \<Rightarrow> a # out))))"

section \<open>Requests of clients\<close>

text \<open>
  What becomes of a client's request: the connection ends, the text to write and the node
  afterwards, or a thread that is still in the wait loop of \<^verbatim>\<open>submit\<close> or \<^verbatim>\<open>get\<close>.
\<close>

datatype served = Quit | Reply string RaftNode | Blocked

definition exception_response :: "string \<Rightarrow> RaftNode \<Rightarrow> string" where
  "exception_response what s =
     (if what = ''NOT_LEADER'' then
        let leader_id = getLeaderId s in
        if leader_id \<noteq> 0 then ''NOT_LEADER leader_id='' @ to_string_cint leader_id @ newline
        else ''NOT_LEADER unknown'' @ newline
      else ''ERROR: '' @ what @ newline)"

text \<open>
  The \<^verbatim>\<open>catch (const std::runtime_error&)\<close>; other failures leave the handler. The node goes on in the
  state the throw left it in, and \<^verbatim>\<open>getLeaderId\<close> reads that state.
\<close>

definition catch_runtime_error :: "(RaftNode, served) call \<Rightarrow> served result" where
  "catch_runtime_error r =
     (case r of
        Inl (Runtime_error what, s) \<Rightarrow> Inr (Reply (exception_response what s) s)
      | _ \<Rightarrow> uncaught r)"

definition get_response :: "string \<Rightarrow> string" where
  "get_response val = (if val = [] then ''(null)'' @ newline else val @ newline)"

definition client_request ::
  "(nat \<Rightarrow> rpc_io) \<Rightarrow> (RaftNode \<Rightarrow> RaftNode list) \<Rightarrow> byte list \<Rightarrow> RaftNode \<Rightarrow> served result" where
  "client_request io polls data s =
     (let msg_type = hd data in
      if msg_type = of_char CHR ''Q'' then Inr Quit
      else if msg_type = of_char CHR ''S'' then Inr (Reply (getStatus s) s)
      else if msg_type = of_char CHR ''G'' then
        catch_runtime_error
          (bind_result (get_value io (string_of (tl data)) polls s) (\<lambda>r.
           case r of None \<Rightarrow> Inr Blocked | Some (val, s') \<Rightarrow> Inr (Reply (get_response val) s')))
      else if msg_type = of_char CHR ''C'' then
        catch_runtime_error
          (bind_result (throws_at s (Command_deserialize (tl data))) (\<lambda>cmd.
           bind_result (submit io cmd polls s) (\<lambda>r.
           case r of None \<Rightarrow> Inr Blocked | Some s' \<Rightarrow> Inr (Reply (''OK'' @ newline) s'))))
      else Inr (Reply (''ERROR: Unknown Protocol'' @ newline) s))"

fun handleClient ::
  "(TCPServer \<times> (nat \<Rightarrow> rpc_io) \<times> (RaftNode \<Rightarrow> RaftNode list) \<times> byte list \<times> RaftNode) list
   \<Rightarrow> string list result" where
  "handleClient [] = Inr []"
| "handleClient ((srv, io, polls, stream, s) # rounds) =
     (let data = take buffer_size stream in
      if \<not> srv_running srv \<or> data = [] then Inr []
      else bind_result (client_request io polls data s) (\<lambda>r.
        case r of
          Quit \<Rightarrow> Inr []
        | Blocked \<Rightarrow> Inr []
        | Reply response s' \<Rightarrow> bind_result (handleClient rounds) (\<lambda>out. Inr (response # out))))"

section \<open>Accepting connections\<close>

text \<open>
  The accept loops: each round has the server as the loop finds it and the descriptor \<^verbatim>\<open>accept\<close>
  returns; a handler thread is started for every descriptor that is not negative.
\<close>

fun RunClient :: "(TCPServer \<times> int) list \<Rightarrow> int list" where
  "RunClient [] = []"
| "RunClient ((srv, fd) # rounds) =
     (if \<not> srv_running srv then []
      else if fd \<ge> 0 then fd # RunClient rounds else RunClient rounds)"

fun RunRaft :: "(TCPServer \<times> int) list \<Rightarrow> int list" where
  "RunRaft [] = []"
| "RunRaft ((srv, fd) # rounds) =
     (if \<not> srv_running srv then []
      else if fd \<ge> 0 then fd # RunRaft rounds else RunRaft rounds)"

lemma accept_loops:
  "RunClient rounds = filter (\<lambda>fd. 0 \<le> fd) (map snd (takeWhile (srv_running \<circ> fst) rounds))"
  "RunRaft rounds = filter (\<lambda>fd. 0 \<le> fd) (map snd (takeWhile (srv_running \<circ> fst) rounds))"
  by (induction rounds) auto

section \<open>From bytes to bytes\<close>

lemma raft_request_vote:
  assumes "handleRequestVote ev m s = (r, s')"
  shows "raft_request ev (RequestVote_serialize m) s = Inr (Some (RequestVoteResponse_serialize r), s')"
  using assms RequestVote_roundtrip_append [of m "[]"] hd_RequestVote_serialize [of m]
  by (simp add: raft_request_def)

lemma hd_AppendEntries_serialize: "hd (AppendEntries_serialize m) = of_char CHR ''A''"
  by (simp add: AppendEntries_bytes append_header_def)

lemma raft_request_append:
  assumes "append_ok m" and "handleAppendEntries ev m s = Inr (r, s')"
  shows "raft_request ev (AppendEntries_serialize m) s = Inr (Some (AppendEntriesResponse_serialize r), s')"
  using assms(2) AppendEntries_roundtrip_append [OF assms(1), of "[]"] hd_AppendEntries_serialize [of m]
  by (simp add: raft_request_def)

text \<open>A message that does not fit the buffer is cut, and its decoder reads past the end.\<close>

lemma hd_take_Suc: "0 < n \<Longrightarrow> hd (take n xs) = hd xs"
  by (cases xs; cases n) simp_all

lemma raft_request_cut:
  assumes "append_ok m" and "buffer_size < length (AppendEntries_serialize m)"
  shows "raft_request ev (take buffer_size (AppendEntries_serialize m)) s = Inl Undefined"
  using AppendEntries_torn [OF assms] hd_AppendEntries_serialize [of m]
  by (simp add: raft_request_def hd_take_Suc buffer_size_def)

text \<open>The entries of a well-formed log can be encoded.\<close>

lemma append_ok_suffix:
  assumes "log_ok log" and "ae_entries m = drop n log" and "length (AppendEntries_serialize m) \<le> buffer_size"
  shows "append_ok m"
proof -
  have "length es \<le> length (concat (map put_sized_entry es))" for es
    by (induction es) (simp_all add: put_sized_entry_def Let_def)
  from this [of "ae_entries m"] assms(3) have "length (ae_entries m) < 2 ^ 32"
    by (simp add: AppendEntries_bytes buffer_size_def)
  moreover have "\<forall>e \<in> set (ae_entries m). entry_ok e"
    using log_ok_entries [OF assms(1)] unfolding assms(2) by (meson in_set_dropD)
  ultimately show ?thesis by (simp add: append_ok_def)
qed

text \<open>
  One round of replication: the leader's message for peer \<open>i\<close> reaches the follower \<open>f\<close>.
  \<open>same_prefix\<close> is what the follower's check of \<^verbatim>\<open>prevLogIndex\<close> establishes under log matching.
\<close>

lemma same_prefix:
  assumes "log_match l f" and "p \<le> length l" and "p \<le> length f" and "entry_term l p = entry_term f p"
  shows "take p l = take p f"
proof (cases p)
  case (Suc q)
  with assms show ?thesis by (auto simp: log_match_def entry_term_def)
qed simp

lemma replication_round:
  assumes l: "node_ok l" and i: "i < length (nextIndex l)" "unat (nextIndex l ! i) \<le> Suc (length (log_of (store l)))"
    and m: "prepare_AppendEntries i l = Inr m" and size: "length (AppendEntries_serialize m) \<le> buffer_size"
    and f: "store_inv (store f)" "accepts m f" and match: "log_match (log_of (store l)) (log_of (store f))"
  shows "\<exists>resp f'. raft_request ev (take buffer_size (AppendEntries_serialize m)) f =
        Inr (Some (AppendEntriesResponse_serialize resp), f')
      \<and> ar_success resp \<and> ar_term resp = cur_term l \<and> store_inv (store f') \<and> state f' = FOLLOWER \<and> cur_term f' = cur_term l
      \<and> log_of (store f') = (if take (length (log_of (store l))) (log_of (store f)) = log_of (store l)
          then log_of (store f) else log_of (store l))"
proof -
  let ?l = "log_of (store l)" and ?f = "log_of (store f)" and ?p = "unat (ae_prevLogIndex m)"
  have inv: "store_inv (store l)" and ip: "i < length (peers l)"
    using l i by (auto simp: node_ok_def)
  have nz: "nextIndex l ! i \<noteq> 0" using l i(1) by (metis node_ok_def nth_mem)
  have m': "ae_prevLogIndex m = nextIndex l ! i - 1" "ae_prevLogTerm m = entry_term ?l ?p"
    "ae_entries m = drop ?p ?l" "ae_term m = cur_term l"
    using prepare_AppendEntries_eq [OF inv ip i(1) nz] m by auto
  have ok: "log_ok ?l" using inv by (simp add: store_inv_def)
  have pl: "?p \<le> length ?l" using i(2) nz by (simp add: m'(1) unat_pred_u64)
  have "ae_prevLogIndex m + 1 \<noteq> 0" using m'(1) nz by simp
  with ok m'(3) have wf: "append_wf m" by (rule append_wf_suffix)
  have aok: "append_ok m" by (rule append_ok_suffix [OF ok m'(3) size])
  have pf: "?p \<le> length ?f" and "entry_term ?l ?p = entry_term ?f ?p"
    using f(2) m'(2) by (auto simp: accepts_def entry_term_def)
  with same_prefix [OF match pl] have pre: "take ?p ?l = take ?p ?f" by simp
  obtain f' where f': "handleAppendEntries ev m f = Inr (\<lparr>ar_term = ae_term m, ar_success = True\<rparr>, f')"
    "store_inv (store f')" "log_of (store f') = merge_log ?f ?p (ae_entries m)"
    "cur_term f' = ae_term m" "state f' = FOLLOWER"
    by (rule handleAppendEntries_accept [OF f(1) wf f(2)])
  have "log_of (store f') = (if take (length ?l) ?f = ?l then ?f else ?l)"
    using merge_log_match [OF match pre pf pl] f'(3) by (simp add: m'(3))
  moreover have "raft_request ev (take buffer_size (AppendEntries_serialize m)) f =
      Inr (Some (AppendEntriesResponse_serialize \<lparr>ar_term = ae_term m, ar_success = True\<rparr>), f')"
    using raft_request_append [OF aok f'(1)] size by simp
  moreover have "ar_success \<lparr>ar_term = ae_term m, ar_success = True\<rparr>"
    "ar_term \<lparr>ar_term = ae_term m, ar_success = True\<rparr> = cur_term l" using m'(4) by simp_all
  moreover have "cur_term f' = cur_term l" using f'(4) m'(4) by simp
  ultimately show ?thesis using f'(2,5) by blast
qed

text \<open>The bytes a peer sends back when its node is in state \<open>f\<close>.\<close>

definition answering :: "readings \<Rightarrow> RaftNode \<Rightarrow> byte list \<Rightarrow> byte list" where
  "answering ev f req =
     (case raft_request ev (take buffer_size req) f of Inr (Some a, f') \<Rightarrow> a | _ \<Rightarrow> [])"

lemma length_response: "length (AppendEntriesResponse_serialize r) = 10"
  by (simp add: AppendEntriesResponse_serialize_def push_uint64_def)

lemma sendRPC_delivers:
  assumes "connected p" and "0 \<le> io_send io" and "io_recv io req = a" and "a \<noteq> []" and "length a \<le> 65536"
  shows "sendRPC io req p = (a, p)"
  using assms by (simp add: sendRPC_def wait_connected_def Let_def)

lemma handle_success:
  assumes ok: "node_ok s" and i: "i < length (nextIndex s)" and "ar_success r" and "ar_term r \<le> cur_term s"
    and "ae_entries m \<noteq> []" and bound: "ae_prevLogIndex m + of_nat (length (ae_entries m)) + 1 \<noteq> 0"
  defines "k \<equiv> max (matchIndex s ! i) (ae_prevLogIndex m + of_nat (length (ae_entries m)))"
  shows "\<exists>s'. handle_append_reply i m (AppendEntriesResponse_serialize r) s = Inr s'
    \<and> matchIndex s' ! i = k \<and> nextIndex s' ! i = k + 1"
proof -
  have lens: "length (matchIndex s) = length (nextIndex s)" "length (nextIndex s) = length (peers s)"
    using ok i by (auto simp: node_ok_def)
  let ?t = "s\<lparr>matchIndex := (matchIndex s)[i := k], nextIndex := (nextIndex s)[i := k + 1]\<rparr>"
  obtain s' where s': "advanceCommitIndex ?t = Inr s'"
    using advanceCommitIndex_total [of ?t] node_ok_store [OF ok] lens by auto
  have "\<not> cur_term s < ar_term r" using assms(4) by simp
  then have "handle_append_reply i m (AppendEntriesResponse_serialize r) s = Inr s'"
    using assms(3,5) i lens s' AppendEntriesResponse_roundtrip_append [of r "[]"] response_tags(3,4) [of r]
    by (simp add: handle_append_reply_def Let_def k_def)
  with advanceCommitIndex_frame [OF s'] i lens show ?thesis by simp
qed

lemma leader_learns:
  assumes l: "node_ok l" and i: "i < length (nextIndex l)" "unat (nextIndex l ! i) \<le> Suc (length (log_of (store l)))"
    and m: "prepare_AppendEntries i l = Inr m" and size: "length (AppendEntries_serialize m) \<le> buffer_size"
    and f: "store_inv (store f)" "accepts m f" and match: "log_match (log_of (store l)) (log_of (store f))"
    and new: "ae_entries m \<noteq> []" and conn: "connected (peers l ! i)"
    and io: "0 \<le> io_send io" "io_recv io = answering ev f"
  shows "\<exists>l'. sendAppendEntries io i l = Inr l' \<and> matchIndex l' ! i = max (matchIndex l ! i) (logLen (store l))
    \<and> nextIndex l' ! i = max (matchIndex l ! i) (logLen (store l)) + 1"
proof -
  obtain resp f' where r: "raft_request ev (take buffer_size (AppendEntries_serialize m)) f =
      Inr (Some (AppendEntriesResponse_serialize resp), f')" "ar_success resp" "ar_term resp = cur_term l"
    using replication_round [OF l i m size f match] by blast
  have rpc: "sendRPC io (AppendEntries_serialize m) (peers l ! i) =
      (AppendEntriesResponse_serialize resp, peers l ! i)"
    by (rule sendRPC_delivers [OF conn io(1)])
      (simp_all add: io(2) answering_def r(1) response_tags length_response)
  have inv: "store_inv (store l)" and ip: "i < length (peers l)" using l i by (auto simp: node_ok_def)
  have nz: "nextIndex l ! i \<noteq> 0" using l i(1) by (metis node_ok_def nth_mem)
  have m': "ae_entries m = drop (unat (ae_prevLogIndex m)) (log_of (store l))"
    using prepare_AppendEntries_eq [OF inv ip i(1) nz] m by auto
  have bound: "ae_prevLogIndex m + of_nat (length (ae_entries m)) + 1 \<noteq> 0"
    unfolding m' by (rule sent_bound) (use inv new m' in \<open>simp_all add: store_inv_def\<close>)
  have sum: "ae_prevLogIndex m + of_nat (length (ae_entries m)) = logLen (store l)"
    unfolding m' using new m' inv by (simp add: store_inv_def of_nat_diff)
  from handle_success [OF l i(1) r(2) _ new bound] r(3)
  have "\<exists>l'. handle_append_reply i m (AppendEntriesResponse_serialize resp) l = Inr l'
      \<and> matchIndex l' ! i = max (matchIndex l ! i) (logLen (store l))
      \<and> nextIndex l' ! i = max (matchIndex l ! i) (logLen (store l)) + 1" unfolding sum by simp
  with m rpc show ?thesis by (simp add: sendAppendEntries_def)
qed

end
