(* ===== verification/Service.thy ===== *)
theory Service
  imports TcpServer Election
begin

text \<open>
  Client requests on the node: what \<^verbatim>\<open>submit\<close> and \<^verbatim>\<open>get\<close> promise when they return, what a node
  that is not the leader answers, and two behaviours of the leader that the source does not
  guard against.
\<close>

section \<open>Writes\<close>

text \<open>
  C18. When \<^verbatim>\<open>submit\<close> returns, the index it was given for the command is committed and applied,
  and the state machine is the result of the applied entries.
\<close>

theorem submit_returns_applied:
  assumes "submit_begin io cmd s = Inr (idx, s1)" and "wait_commit idx (s1 # polls s1) = Some s2"
    and "store_inv (store s2)" and "committed_ok s2"
  shows "\<exists>s'. submit io cmd polls s = Inr (Some s') \<and> idx \<le> getApplied (store s') \<and> committed_ok s'
    \<and> log_of (store s') = log_of (store s2)"
proof -
  have reached: "idx \<le> getCommit (store t)" if "wait_commit idx ts = Some t" for ts t
    using that by (induction ts) (auto split: if_splits)
  obtain s' where "applyCommitted s2 = Inr s'" "committed_ok s'"
    "getApplied (store s') = getCommit (store s2)" "log_of (store s') = log_of (store s2)"
    using committed_ok_applyCommitted [OF assms(3,4)] by blast
  with reached [OF assms(2)] assms(1,2) show ?thesis by (simp add: submit_def del: wait_commit.simps)
qed

text \<open>A leader without peers, for concrete inputs.\<close>

lemma sendAll_none: "peers s = [] \<Longrightarrow> sendAll io s = Inr s"
  by (simp add: sendAll_def)

definition lone_leader :: RaftNode where
  "lone_leader = (fresh_node 1 [])\<lparr>state := LEADER\<rparr>"

lemma lone_leader_ok:
  "node_ok lone_leader" "log_room lone_leader" "log_of (store lone_leader) = []" "committed_ok lone_leader"
  using node_ok_fresh [of 1 "[]"] log_of_fresh [of 1 "[]"]
  by (simp_all add: lone_leader_def node_ok_def log_room_def committed_ok_def)
    (simp_all add: fresh_node_def)

lemma lone_leader_sel [simp]:
  "peers lone_leader = []" "state lone_leader = LEADER" "logLen (store lone_leader) = 0"
  "cur_term lone_leader = 0" "getCommit (store lone_leader) = 0" "getApplied (store lone_leader) = 0"
  "sm lone_leader = StateMachine_init" "node_id lone_leader = 1"
  by (simp_all add: lone_leader_def fresh_node_def)

abbreviation "put_kv \<equiv> mk_Command PUT ''k'' ''v''"

lemma put_kv_ok: "command_ok put_kv"
  by (simp add: command_ok_def mk_Command_def)

lemma lone_submit:
  "submit_begin io put_kv lone_leader = Inr (1, on_store (append_entry (new_entry put_kv lone_leader)) lone_leader)"
  by (simp add: submit_begin_def submit_append_def Requestable_def sendAll_none)

theorem submit_returns_applied_witness:
  "\<exists>s'. submit (\<lambda>i. silent) put_kv (\<lambda>s. [on_store (setCommit 1) s]) lone_leader = Inr (Some s')
     \<and> 1 \<le> getApplied (store s')"
proof -
  let ?s1 = "on_store (append_entry (new_entry put_kv lone_leader)) lone_leader"
  note new = node_ok_new_entry [OF lone_leader_ok(1,2) put_kv_ok]
  have "wait_commit 1 (?s1 # [on_store (setCommit 1) ?s1]) = Some (on_store (setCommit 1) ?s1)" by simp
  moreover have "store_inv (store (on_store (setCommit 1) ?s1))" using node_ok_store [OF new(1)] by simp
  moreover have "committed_ok (on_store (setCommit 1) ?s1)"
    using new(2) by (simp add: committed_ok_def lone_leader_ok(3))
  ultimately show ?thesis
    using submit_returns_applied [OF lone_submit, where polls = "\<lambda>s. [on_store (setCommit 1) s]"] by fastforce
qed

section \<open>Reads\<close>

text \<open>
  C19. A read on the leader returns the value of the last write to the key among the applied
  entries of the log, the empty string when there is none or the last one is a deletion.
\<close>

theorem get_returns_last_write:
  assumes "committed_ok s" and "state s = LEADER"
  shows "get_end key s =
    Inr (case last_write key (map command_of (take (unat (getApplied (store s))) (log_of (store s)))) of
           Some v \<Rightarrow> v | None \<Rightarrow> [])"
  using assms by (simp add: get_end_def committed_ok_def kv.look_fold cong: option.case_cong)

theorem get_returns_last_write_witness: "get_end ''k'' lone_leader = Inr []"
  using get_returns_last_write [OF lone_leader_ok(4), of "''k''"] by (simp add: lone_leader_ok(3))

section \<open>Requests to other nodes than the leader\<close>

text \<open>
  C23. A node that is not the leader answers every write and read with \<^verbatim>\<open>NOT_LEADER\<close> and the id of
  the leader it knows of, and the state in which \<^verbatim>\<open>submit\<close> and \<^verbatim>\<open>get\<close> leave it when they throw, files
  included, is the one in which they were called.
\<close>

theorem follower_refuses:
  assumes "state s \<noteq> LEADER" and "command_ok cmd"
  shows "client_request io polls (of_char CHR ''C'' # Command_serialize cmd) s =
      Inr (Reply (if current_leader_id s \<noteq> 0
        then ''NOT_LEADER leader_id='' @ to_string_cint (current_leader_id s) @ newline
        else ''NOT_LEADER unknown'' @ newline) s)
    \<and> client_request io polls (of_char CHR ''G'' # key) s =
      Inr (Reply (if current_leader_id s \<noteq> 0
        then ''NOT_LEADER leader_id='' @ to_string_cint (current_leader_id s) @ newline
        else ''NOT_LEADER unknown'' @ newline) s)" (is "?put_part \<and> ?get_part")
proof
  have "submit io cmd polls s = Inl (Runtime_error ''NOT_LEADER'', s)"
    using assms(1) by (simp add: submit_def submit_begin_def submit_append_def)
  with Command_roundtrip_append [OF assms(2), of "[]"] show ?put_part
    by (simp add: client_request_def catch_runtime_error_def exception_response_def getLeaderId_def Let_def)
  have "get_value io k polls s = Inl (Runtime_error ''NOT_LEADER'', s)" for k
    using assms(1) by (simp add: get_value_def get_begin_def get_append_def)
  then show ?get_part
    by (simp add: client_request_def catch_runtime_error_def exception_response_def getLeaderId_def Let_def)
qed

theorem follower_refuses_witness:
  "client_request (\<lambda>i. silent) (\<lambda>s. []) (of_char CHR ''C'' # Command_serialize put_kv)
     ((fresh_node 2 [])\<lparr>current_leader_id := 3\<rparr>) =
   Inr (Reply (''NOT_LEADER leader_id='' @ to_string_cint 3 @ newline) ((fresh_node 2 [])\<lparr>current_leader_id := 3\<rparr>))"
proof -
  have "state ((fresh_node 2 [])\<lparr>current_leader_id := 3\<rparr>) \<noteq> LEADER" by (simp add: fresh_node_def)
  from follower_refuses [OF this put_kv_ok, of "\<lambda>i. silent" "\<lambda>s. []"] show ?thesis by simp
qed

section \<open>Unguarded behaviour\<close>

text \<open>
  What a node without peers can do between its start and its end: rounds of its background thread,
  and writes and reads up to their wait loops (the log has room for their entries), in any order, at
  any time.
\<close>

inductive lone_step :: "RaftNode \<Rightarrow> RaftNode \<Rightarrow> bool" where
  beat: "logLen (store s) + 1 \<noteq> 0 \<Longrightarrow> background_step ev io s = Inr s' \<Longrightarrow> lone_step s s'"
| put: "logLen (store s) + 1 \<noteq> 0 \<Longrightarrow> submit_begin io cmd s = Inr (idx, s') \<Longrightarrow> lone_step s s'"
| read: "logLen (store s) + 1 \<noteq> 0 \<Longrightarrow> get_begin io s = Inr (idx, s') \<Longrightarrow> lone_step s s'"
| catch_up: "applyCommitted s = Inr s' \<Longrightarrow> lone_step s s'"

lemma le_succ_u64: "x \<le> y \<Longrightarrow> y + 1 \<noteq> 0 \<Longrightarrow> x \<le> y + 1" for x y :: u64
  using unatSuc [of y] by (simp add: word_le_nat_alt add.commute)

lemma lone_step_keeps:
  assumes "lone_step s s'" and "peers s = []" and "getCommit (store s) \<le> logLen (store s)"
  shows "peers s' = [] \<and> getCommit (store s') = getCommit (store s) \<and> getCommit (store s') \<le> logLen (store s')"
  using assms
proof (induction rule: lone_step.induct)
  case (beat s ev io s')
  then show ?case
    by (auto simp: background_step_def startElection_def election_begin_def reset_timer_def election_end_def
        becomeLeader_def take_office_def sendAll_none Let_def le_succ_u64 split: if_splits)
next
  case (catch_up s s')
  from applyCommitted_frame [OF catch_up(1)] catch_up(2,3) show ?case by simp
qed (auto simp: submit_begin_def submit_append_def get_begin_def get_append_def sendAll_none Let_def
    le_succ_u64 split: if_splits)

lemma lone_run_keeps:
  assumes "lone_step\<^sup>*\<^sup>* s s'" and "peers s = []" and "getCommit (store s) \<le> logLen (store s)"
  shows "peers s' = [] \<and> getCommit (store s') = getCommit (store s) \<and> getCommit (store s') \<le> logLen (store s')"
  using assms by (induction rule: rtranclp_induct) (auto dest!: lone_step_keeps)

lemma wait_commit_none: "(\<And>s. s \<in> set ss \<Longrightarrow> getCommit (store s) < idx) \<Longrightarrow> wait_commit idx ss = None"
  by (induction ss) auto

text \<open>A request that has appended its entry waits for an index that is never reached.\<close>

lemma lone_wait:
  assumes s: "peers s = []" "getCommit (store s) \<le> logLen (store s)" "logLen (store s) + 1 \<noteq> 0"
    and t: "lone_step\<^sup>*\<^sup>* s t" and polls: "\<And>u. u \<in> set (polls t) \<Longrightarrow> lone_step\<^sup>*\<^sup>* t u"
  shows "wait_commit (logLen (store s) + 1) (t # polls t) = None"
proof (rule wait_commit_none)
  fix u assume "u \<in> set (t # polls t)"
  with t polls have "lone_step\<^sup>*\<^sup>* s u" by (auto intro: rtranclp_trans)
  from lone_run_keeps [OF this s(1,2)] s(2,3) show "getCommit (store u) < logLen (store s) + 1"
    using unatSuc [of "logLen (store s)"] by (simp add: word_le_nat_alt word_less_nat_alt add.commute)
qed

text \<open>
  C28. In a cluster of one node nothing is committed while the node runs: \<^verbatim>\<open>advanceCommitIndex\<close> is
  only reached from the answer of a peer. Whatever the node has done since it started, it elects
  itself and appends the entries of clients, but its commit index is the one of the start, and every
  write and read it accepts waits for ever, whatever the background thread and other requests do in
  the meantime. (Only the next start commits the entries: \<open>replay\<close> takes the whole log as committed.)
\<close>

theorem single_node_never_commits:
  assumes "peers s = []" and "getCommit (store s) \<le> logLen (store s)" and "lone_step\<^sup>*\<^sup>* s s1"
    and "state s1 = LEADER" and "logLen (store s1) + 1 \<noteq> 0"
    and "\<forall>t u. lone_step\<^sup>*\<^sup>* s1 t \<longrightarrow> u \<in> set (polls t) \<longrightarrow> lone_step\<^sup>*\<^sup>* t u"
  shows "getCommit (store s1) = getCommit (store s) \<and> submit io cmd polls s1 = Inr None
    \<and> get_value io key polls s1 = Inr None"
proof -
  note run = lone_run_keeps [OF assms(3,1,2)]
  have s1: "peers s1 = []" "getCommit (store s1) \<le> logLen (store s1)" using run by blast+
  have wait: "wait_commit (logLen (store s1) + 1) (t # polls t) = None" if "lone_step s1 t" for t
    by (rule lone_wait [OF s1 assms(5)]) (use that assms(6) in auto)
  have req: "Requestable s1" using s1(1) by (simp add: Requestable_def)
  let ?t = "\<lambda>cmd. on_store (append_entry (new_entry cmd s1)) s1"
  have put: "submit_begin io cmd s1 = Inr (logLen (store s1) + 1, ?t cmd)"
    using assms(4) req s1(1) by (simp add: submit_begin_def submit_append_def sendAll_none Let_def)
  have read: "get_begin io s1 = Inr (logLen (store s1) + 1, ?t (mk_Command NOOP [] []))"
    using assms(4) s1(1) by (simp add: get_begin_def get_append_def sendAll_none Let_def)
  have "submit io cmd polls s1 = Inr None"
    using wait [OF lone_step.put [OF assms(5) put]] by (simp add: submit_def put del: wait_commit.simps)
  moreover have "get_value io key polls s1 = Inr None"
    using wait [OF lone_step.read [OF assms(5) read]] by (simp add: get_value_def read del: wait_commit.simps)
  ultimately show ?thesis using run by simp
qed

text \<open>On an empty directory: the timeout passes, the node elects itself, and a write and a read block.\<close>

theorem single_node_never_commits_witness:
  "\<exists>s1. background_step (\<lambda>k. (5000, 0)) (\<lambda>k i. silent) (fresh_node 1 []) = Inr s1 \<and> state s1 = LEADER
    \<and> submit (\<lambda>i. silent) put_kv (\<lambda>s. [s]) s1 = Inr None \<and> get_value (\<lambda>i. silent) ''k'' (\<lambda>s. [s]) s1 = Inr None"
proof -
  have start: "peers (fresh_node 1 []) = []" "getCommit (store (fresh_node 1 [])) = 0" "logLen (store (fresh_node 1 [])) = 0"
    "state (fresh_node 1 []) = FOLLOWER" "last_heartbeat (fresh_node 1 []) = 0" "current_timeout (fresh_node 1 []) = 3000"
    by (simp_all add: fresh_node_def)
  then obtain s1 where s1: "background_step (\<lambda>k. (5000, 0)) (\<lambda>k i. silent) (fresh_node 1 []) = Inr s1"
    "state s1 = LEADER" "logLen (store s1) = 1"
    by (simp add: background_step_def startElection_def election_begin_def reset_timer_def election_end_def
        majority_def becomeLeader_def take_office_def sendAll_none Let_def)
  have "lone_step (fresh_node 1 []) s1" by (rule lone_step.beat [OF _ s1(1)]) (simp add: start)
  then show ?thesis
    using single_node_never_commits [of "fresh_node 1 []" s1 "\<lambda>s. [s]" "\<lambda>i. silent" put_kv "''k''"] start s1
    by (auto simp: r_into_rtranclp)
qed

lemma entry_term_take:
  assumes "take p l = take p f" and "p \<le> length l" and "p \<le> length f"
  shows "entry_term l p = entry_term f p"
proof (cases p)
  case (Suc q)
  then have "l ! q = f ! q" using assms(1) by (metis lessI nth_take)
  with Suc assms show ?thesis by (simp add: entry_term_def)
qed (simp add: entry_term_def)

text \<open>
  A leader that learns of a newer term steps down, but the send loop it is in goes on: the
  next message it builds carries the newer term together with its own id as leader, although
  it did not win that term. A follower that has an entry of another term committed behind the
  common part of the two logs accepts the message and replaces the committed entry.
\<close>

theorem stepped_down_leader_overwrites:
  assumes ok: "node_ok s" and i: "i < length (nextIndex s)" and j: "j < length (nextIndex s)"
    and newer: "ar_term r > cur_term s" and p: "p = unat (nextIndex s ! j) - 1"
    and f: "store_inv (store f)" "cur_term f \<le> ar_term r" and common: "take p (log_of (store s)) = take p (log_of (store f))"
    and len: "p < length (log_of (store s))" "p < length (log_of (store f))"
    and other: "le_term (log_of (store s) ! p) \<noteq> le_term (log_of (store f) ! p)"
    and committed: "p < unat (getCommit (store f))"
  shows "\<exists>s' m f'. handle_append_reply i ae (AppendEntriesResponse_serialize r) s = Inr s' \<and> state s' = FOLLOWER
    \<and> prepare_AppendEntries j s' = Inr m \<and> ae_term m = ar_term r \<and> ae_leaderId m = scast (node_id s)
    \<and> handleAppendEntries ev m f = Inr (\<lparr>ar_term = ar_term r, ar_success = True\<rparr>, f')
    \<and> log_of (store f') = log_of (store s) \<and> p < unat (getCommit (store f'))
    \<and> log_of (store f') ! p \<noteq> log_of (store f) ! p"
proof -
  have lens: "length (matchIndex s) = length (nextIndex s)" "length (nextIndex s) = length (peers s)"
    using ok i by (auto simp: node_ok_def)
  let ?s = "on_store (setVoted []) ((on_store (setTerm (ar_term r)) s)\<lparr>state := FOLLOWER\<rparr>)"
  let ?l = "log_of (store s)" and ?f = "log_of (store f)"
  have call: "handle_append_reply i ae (AppendEntriesResponse_serialize r) s = Inr ?s"
    using newer i lens AppendEntriesResponse_roundtrip_append [of r "[]"] response_tags(3,4) [of r]
    by (simp add: handle_append_reply_def Let_def)
  have inv: "store_inv (store ?s)" by (rule node_ok_store [OF node_ok_step_down [OF ok]])
  have nz: "nextIndex s ! j \<noteq> 0" using ok j by (metis node_ok_def nth_mem)
  have prev: "unat (nextIndex s ! j - 1) = p" using nz p by (simp add: unat_pred_u64)
  obtain m where m: "prepare_AppendEntries j ?s = Inr m" "ae_term m = ar_term r" "ae_leaderId m = scast (node_id s)"
    "unat (ae_prevLogIndex m) = p" "ae_prevLogTerm m = entry_term ?l p" "ae_entries m = drop p ?l"
    using prepare_AppendEntries_eq [OF inv, of j] j lens nz prev by simp
  have wf: "append_wf m"
    using node_ok_store [OF ok] m len(1)
    by (auto simp: append_wf_def store_inv_def log_ok_def intro: chain_drop [of 0, simplified])
  have "entry_term ?l p = entry_term ?f p" using common len by (intro entry_term_take) simp_all
  then have acc: "accepts m f" using f(2) m len(2) by (simp add: accepts_def)
  obtain f' where f': "handleAppendEntries ev m f = Inr (\<lparr>ar_term = ae_term m, ar_success = True\<rparr>, f')"
    by (rule handleAppendEntries_accept [OF f(1) wf acc, of ev]) blast
  have "merge_log ?f p (drop p ?l) = take p ?f @ drop p ?l"
    using len other by (simp add: Cons_nth_drop_Suc [symmetric])
  then have "merge_log ?f p (drop p ?l) = ?l" using common by (metis append_take_drop_id)
  then have log': "log_of (store f') = ?l"
    using handleAppendEntries_acceptD(3) [OF f(1) wf acc f'] m by simp
  moreover have "p < unat (getCommit (store f'))"
    using handleAppendEntries_acceptD(4) [OF f(1) wf acc f'] committed log' len(1) node_ok_store [OF ok]
    by (auto simp: min_def word_less_nat_alt store_inv_def log_ok_def unat_of_nat_u64 split: if_splits)
  ultimately show ?thesis using call m f' other by auto
qed

definition leader_of_two :: RaftNode where
  "leader_of_two = (fresh_node 1 [Peer_init 2 ''127.0.0.1'' 7002])
     \<lparr>state := LEADER, nextIndex := [1], matchIndex := [0]\<rparr>"

lemma leader_of_two_ok: "node_ok leader_of_two"
  using node_ok_fresh [of 1 "[Peer_init 2 ''127.0.0.1'' 7002]"]
  by (simp add: leader_of_two_def node_ok_def) (simp add: fresh_node_def)

definition old_leader :: RaftNode where
  "old_leader = on_store (append_entry (new_entry put_kv leader_of_two)) leader_of_two"

definition committed_follower :: RaftNode where
  "committed_follower = on_store (setCommit 1 \<circ> append_entry (mk_LogEntry 1 1 (mk_Command NOOP [] []))) (fresh_node 2 [])"

lemma old_leader_ok: "node_ok old_leader" "log_of (store old_leader) = [mk_LogEntry 0 1 put_kv]"
  "nextIndex old_leader = [1]" "cur_term old_leader = 0" "node_id old_leader = 1"
proof -
  have l: "log_of (store leader_of_two) = []" "cur_term leader_of_two = 0" "logLen (store leader_of_two) = 0"
    using log_of_fresh by (simp_all add: leader_of_two_def fresh_node_def)
  then have "log_room leader_of_two" by (simp add: log_room_def)
  from node_ok_new_entry [OF leader_of_two_ok this put_kv_ok] l
  show "node_ok old_leader" "log_of (store old_leader) = [mk_LogEntry 0 1 put_kv]"
    by (simp_all add: old_leader_def)
  show "nextIndex old_leader = [1]" "node_id old_leader = 1" by (simp_all add: old_leader_def leader_of_two_def fresh_node_def)
  show "cur_term old_leader = 0" using l(2) by (simp add: old_leader_def)
qed

lemma committed_follower_ok: "store_inv (store committed_follower)"
  "log_of (store committed_follower) = [mk_LogEntry 1 1 (mk_Command NOOP [] [])]"
  "getCommit (store committed_follower) = 1" "cur_term committed_follower = 0"
proof -
  let ?e = "mk_LogEntry 1 1 (mk_Command NOOP [] [])"
  have inv: "store_inv (store (fresh_node 2 []))" by (rule node_ok_store [OF node_ok_fresh])
  have "entry_good ?e" using getCommand_mk_LogEntry [OF command_ok_noop] command_ok_noop
    by (simp add: entry_good_def mk_LogEntry_ok)
  then have "log_ok (log_of (store (fresh_node 2 [])) @ [?e])" by (simp add: log_of_fresh log_ok_def mk_LogEntry_def Let_def)
  from store_inv_append [OF inv this]
  show "store_inv (store committed_follower)" "log_of (store committed_follower) = [?e]"
    by (simp_all add: committed_follower_def log_of_fresh)
  show "getCommit (store committed_follower) = 1" by (simp add: committed_follower_def)
  show "cur_term committed_follower = 0" by (simp add: committed_follower_def) (simp add: fresh_node_def)
qed

theorem stepped_down_leader_overwrites_witness:
  "\<exists>s' m f'. handle_append_reply 0 \<lparr>ae_term = 0, ae_leaderId = 1, ae_prevLogIndex = 0, ae_prevLogTerm = 0,
        ae_leaderCommit = 0, ae_entries = []\<rparr>
      (AppendEntriesResponse_serialize \<lparr>ar_term = 5, ar_success = False\<rparr>) old_leader = Inr s'
    \<and> prepare_AppendEntries 0 s' = Inr m \<and> ae_term m = 5
    \<and> handleAppendEntries (\<lambda>k. (0, 0)) m committed_follower = Inr (\<lparr>ar_term = 5, ar_success = True\<rparr>, f')
    \<and> log_of (store f') = [mk_LogEntry 0 1 put_kv] \<and> 0 < unat (getCommit (store f'))"
proof -
  have t: "le_term (mk_LogEntry t x c) = t" for t x c by (simp add: mk_LogEntry_def Let_def)
  show ?thesis
    using stepped_down_leader_overwrites [OF old_leader_ok(1), of 0 0 "\<lparr>ar_term = 5, ar_success = False\<rparr>" 0 committed_follower
      "\<lparr>ae_term = 0, ae_leaderId = 1, ae_prevLogIndex = 0, ae_prevLogTerm = 0, ae_leaderCommit = 0, ae_entries = []\<rparr>"
      "\<lambda>k. (0, 0)"] old_leader_ok committed_follower_ok t by auto
qed

text \<open>A leader of two nodes that sees its peer connected.\<close>

definition paired_leader :: RaftNode where
  "paired_leader = (fresh_node 1 [(Peer_init 2 ''127.0.0.1'' 7002)\<lparr>connected := True, sock_fd := 5\<rparr>])
     \<lparr>state := LEADER, nextIndex := [1], matchIndex := [0]\<rparr>"

lemma paired_leader_ok: "node_ok paired_leader" "log_room paired_leader"
  using node_ok_fresh [of 1 "[(Peer_init 2 ''127.0.0.1'' 7002)\<lparr>connected := True, sock_fd := 5\<rparr>]"]
    log_of_fresh [of 1 "[(Peer_init 2 ''127.0.0.1'' 7002)\<lparr>connected := True, sock_fd := 5\<rparr>]"]
  by (simp_all add: paired_leader_def node_ok_def log_room_def) (simp add: fresh_node_def)

lemma paired_leader_sel [simp]:
  "cur_term paired_leader = 0" "logLen (store paired_leader) = 0" "nextIndex paired_leader = [1]" "matchIndex paired_leader = [0]"
  "peers paired_leader = [(Peer_init 2 ''127.0.0.1'' 7002)\<lparr>connected := True, sock_fd := 5\<rparr>]"
  "getCommit (store paired_leader) = 0" "getApplied (store paired_leader) = 0" "sm paired_leader = StateMachine_init"
  "node_id paired_leader = 1" "log_of (store paired_leader) = []"
  using log_of_fresh [of 1 "[(Peer_init 2 ''127.0.0.1'' 7002)\<lparr>connected := True, sock_fd := 5\<rparr>]"]
  by (simp_all add: paired_leader_def) (simp_all add: fresh_node_def)

text \<open>Peers that cannot be reached leave the store and the state machine of the leader alone.\<close>

lemma sendAppendEntries_silent:
  assumes "sendAppendEntries silent i s = Inr s'"
  shows "store s' = store s \<and> sm s' = sm s"
proof -
  from assms obtain ae p where "handle_append_reply i ae [] (s\<lparr>peers := (peers s)[i := p]\<rparr>) = Inr s'"
    using sendRPC_silent by (auto simp: sendAppendEntries_def elim!: bind_result_InrE split: prod.splits) (metis fst_conv)
  then show ?thesis by (auto simp: handle_append_reply_def back_off_def Let_def split: if_splits)
qed

lemma sendAll_silent:
  assumes "sendAll (\<lambda>i. silent) s = Inr s'"
  shows "store s' = store s \<and> sm s' = sm s"
  using assms unfolding sendAll_def
  by (rule for_each_inv [where P = "\<lambda>t. store t = store s \<and> sm t = sm s"])
    (use sendAppendEntries_silent in auto)

definition takeover :: AppendEntries where
  "takeover = \<lparr>ae_term = 1, ae_leaderId = 2, ae_prevLogIndex = 0, ae_prevLogTerm = 0, ae_leaderCommit = 1,
     ae_entries = [mk_LogEntry 1 1 (mk_Command NOOP [] [])]\<rparr>"

text \<open>
  C26. \<^verbatim>\<open>submit\<close> waits for its index, not for its entry: when the peer becomes leader, replaces the
  entry and commits its own at that index, the client is told \<^verbatim>\<open>OK\<close> although its write is lost.
\<close>

theorem lost_write_acknowledged:
  "\<exists>s1 r s2 s'. submit_begin (\<lambda>i. silent) put_kv paired_leader = Inr (1, s1)
    \<and> handleAppendEntries (\<lambda>k. (0, 0)) takeover s1 = Inr (r, s2)
    \<and> submit (\<lambda>i. silent) put_kv (\<lambda>s. [s2]) paired_leader = Inr (Some s')
    \<and> sm_get ''k'' (sm s') = []"
proof -
  let ?noop = "mk_LogEntry 1 1 (mk_Command NOOP [] [])"
  have req: "state paired_leader = LEADER" "Requestable paired_leader"
    by (simp add: paired_leader_def, simp add: Requestable_def)
  obtain s1 where s1: "submit_begin (\<lambda>i. silent) put_kv paired_leader = Inr (1, s1)" "node_ok s1"
    "log_of (store s1) = [mk_LogEntry 0 1 put_kv]"
    using submit_begin_ok [where io = "\<lambda>i. silent", OF paired_leader_ok io_wf_silent put_kv_ok req] by auto
  have st1: "store s1 = append_entry (new_entry put_kv paired_leader) (store paired_leader) \<and> sm s1 = StateMachine_init"
    using s1(1) req sendAll_silent by (auto simp: submit_begin_def submit_append_eq elim!: bind_result_InrE)
  have noop: "getCommand ?noop = Inr (mk_Command NOOP [] [])" by (rule getCommand_mk_LogEntry [OF command_ok_noop])
  have wf: "append_wf takeover"
    using command_ok_noop noop by (simp add: append_wf_def takeover_def entry_good_def mk_LogEntry_ok)
  have acc: "accepts takeover s1" by (simp add: accepts_def takeover_def st1)
  obtain r s2 where s2: "handleAppendEntries (\<lambda>k. (0, 0)) takeover s1 = Inr (r, s2)"
    using handleAppendEntries_ok [OF s1(2) wf] by blast
  note a = handleAppendEntries_acceptD(3-6) [OF node_ok_store [OF s1(2)] wf acc s2]
  have log2: "log_of (store s2) = [?noop]" using a(1) s1(3) by (simp add: takeover_def)
  have commit: "getCommit (store s2) = 1" using a(2) log2 st1 by (simp add: takeover_def)
  have applied: "getApplied (store s2) = 1" using a(3) commit st1 by simp
  have "sm s2 = StateMachine_init"
    using a(4) commit log2 noop st1 by (simp add: command_of_def sm_apply_def mk_Command_def)
  moreover have "wait_commit 1 (s1 # [s2]) = Some s2" using commit st1 by simp
  moreover have "applyCommitted s2 = Inr s2" by (simp add: applyCommitted_def commit applied)
  ultimately have "submit (\<lambda>i. silent) put_kv (\<lambda>s. [s2]) paired_leader = Inr (Some s2) \<and> sm_get ''k'' (sm s2) = []"
    by (simp add: submit_def s1(1) del: wait_commit.simps)
  with s1(1) s2 show ?thesis by blast
qed

end
