(* ===== verification/Contract.thy ===== *)
theory Contract
  imports Safety Service
begin

text \<open>
  What clients can rely on, over orderly runs of the cluster: a write that \<^verbatim>\<open>submit\<close> reported as
  done by a node that stayed leader is at its place in what every node ever commits, and a \<^verbatim>\<open>get\<close>
  reads from a state that includes whatever any node had applied when the read began.
\<close>

section \<open>Applied and committed indices agree\<close>

definition caught_up :: "RaftNode \<Rightarrow> bool" where
  "caught_up s \<longleftrightarrow> getApplied (store s) = getCommit (store s)"

lemma applyCommitted_caught_up:
  "applyCommitted s = Inr s' \<Longrightarrow> getApplied (store s) \<le> getCommit (store s) \<Longrightarrow> caught_up s'"
  by (auto simp: applyCommitted_def caught_up_def Let_def split: if_splits elim!: bind_result_InrE)

lemma advanceCommitIndex_caught_up:
  assumes "advanceCommitIndex s = Inr s'" and "caught_up s"
  shows "caught_up s'"
proof -
  have "\<exists>x. s' = s \<or> getCommit (store s) < x \<and> applyCommitted (on_store (setCommit x) s) = Inr s'"
    using assms(1) by (auto simp: advanceCommitIndex_def Let_def split: if_splits elim!: bind_result_InrE)
  then obtain x where "s' = s \<or> getCommit (store s) < x \<and> applyCommitted (on_store (setCommit x) s) = Inr s'" ..
  with assms(2) applyCommitted_caught_up [of "on_store (setCommit x) s"] show ?thesis
    by (auto simp: caught_up_def)
qed

lemma handle_append_reply_caught_up:
  "handle_append_reply i m r s = Inr s' \<Longrightarrow> caught_up s \<Longrightarrow> caught_up s'"
  by (auto simp: handle_append_reply_def back_off_def Let_def caught_up_def split: if_splits
      elim!: bind_result_InrE dest!: advanceCommitIndex_caught_up)

lemma quiet_step_caught_up: "quiet_step s s' \<Longrightarrow> caught_up s \<Longrightarrow> caught_up s'"
proof (induction rule: quiet_step.induct)
  case (commit s s')
  then show ?case using applyCommitted_caught_up [OF commit(1)] by (simp add: caught_up_def)
qed (auto simp: caught_up_def submit_append_eq get_append_eq)

lemma handleAppendEntries_caught_up:
  assumes call: "handleAppendEntries ev m s = Inr (r, s')" and s: "caught_up s" and ok: "committed_ok s'"
  shows "caught_up s'"
proof (cases "cur_term s \<le> ae_term m")
  case False
  then have "ae_term m < cur_term s" by simp
  with call s show ?thesis by (simp add: handleAppendEntries_def)
next
  case True
  note f = follow_sel(3,4) [OF True, of ev]
  from call consider "s' = follow ev m s"
    | st where "resolve_conflicts (ae_prevLogIndex m + 1) (ae_entries m) (store (follow ev m s)) = Inr st"
      "applyCommitted ((follow ev m s)\<lparr>store := commit_after m (append_new (ae_entries m) st)\<rparr>) = Inr s'"
    unfolding handleAppendEntries_unfold [OF True] by (auto elim!: bind_result_InrE split: if_splits)
  then show ?thesis
  proof cases
    case 1
    with s f show ?thesis by (simp add: caught_up_def)
  next
    case 2
    let ?t = "(follow ev m s)\<lparr>store := commit_after m (append_new (ae_entries m) st)\<rparr>"
    show ?thesis
    proof (cases "getApplied (store ?t) \<le> getCommit (store ?t)")
      case True
      with 2(2) show ?thesis by (rule applyCommitted_caught_up)
    next
      case False
      then have "\<not> getCommit (store ?t) > getApplied (store ?t)" using less_imp_le by blast
      with 2(2) have "s' = ?t" by (simp add: applyCommitted_def Let_def)
      with False ok show ?thesis by (simp add: committed_ok_def)
    qed
  qed
qed

lemma caught_up_election:
  assumes "election_step M cl cl'" and "caught_up (nodes cl d)"
  shows "caught_up (nodes cl' d)"
  using assms
proof (induction rule: election_step.induct)
  case (timeout c s cl ev s')
  then show ?case by (auto simp: caught_up_def election_begin_frame)
next
  case (vote p m cl ev r s')
  then show ?case using handleRequestVote_eq(12,13) [OF vote(3)] by (auto simp: caught_up_def)
next
  case (answer c s cl b i js io r p ev v s')
  then show ?case using election_reply_frame [OF answer(7)] by (auto simp: caught_up_def)
qed (auto simp: caught_up_def)

lemma caught_up_step:
  assumes "orderly_step M cl A cl' A'" and "safety_inv M cl A G" and "safety_inv M cl' A' G'"
    and "caught_up (nodes cl d)"
  shows "caught_up (nodes cl' d)"
  using assms
proof (induction rule: orderly_step.induct)
  case (quiet c cl s' A)
  then show ?case using quiet_step_caught_up by auto
next
  case (receive p ae cl ev resp s' A)
  have "committed_ok s'" using safety_invD(5) [OF receive(5,1)] by (simp add: member_safe_def)
  with receive(3,6) handleAppendEntries_caught_up show ?case by auto
next
  case (reply c s cl ae i r A s')
  then show ?case using handle_append_reply_caught_up by auto
next
  case (election cl cl' A)
  then show ?case using caught_up_election by blast
next
  case (restart c cl ev ps s' A)
  have "store_inv (store (nodes cl c))" using safety_invD(11) [OF restart(5,1)] by (simp add: log_member_def)
  from restart_recovers [OF this, of ev c ps] restart(3,7) show ?case by (auto simp: caught_up_def)
qed simp

lemma caught_up_orderly:
  assumes "orderly M cl A" and "d \<in> M"
  shows "caught_up (nodes cl d)"
  using assms
proof (induction rule: orderly.induct)
  case (start cl)
  then obtain ev ps where "RaftNode_init ev d ps empty_disk = Inr (nodes cl d)"
    by (auto simp: cluster_start_def)
  then have "nodes cl d = reset_timer ev 0 (fresh_node d ps)" by (simp add: RaftNode_init_empty)
  then show ?case by (simp add: caught_up_def reset_timer_def fresh_node_def)
next
  case (step cl A cl' A')
  from safety_orderly [OF step(1)] safety_orderly [OF orderly.step [OF step(1,2)]]
  show ?case using caught_up_step [OF step(2)] step(3) [OF step(4)] by blast
qed

lemma applied_all:
  assumes "orderly M cl A" and "d \<in> M"
  shows "sm (nodes cl d) = run_log (commits (nodes cl d)) StateMachine_init"
  using caught_up_orderly [OF assms] orderly_committed_ok [OF assms] by (simp add: caught_up_def committed_ok_def)

section \<open>A leader only appends\<close>

lemma leader_append_only:
  assumes start: "orderly M cl A" and run: "orderly_run M cl A cl' A'" and c: "c \<in> M"
    and lead: "state (nodes cl c) = LEADER" "state (nodes cl' c) = LEADER"
    and same: "cur_term (nodes cl' c) = cur_term (nodes cl c)"
  shows "prefix (node_log (nodes cl c)) (node_log (nodes cl' c))"
proof -
  let ?l = "node_log (nodes cl c)" and ?l' = "node_log (nodes cl' c)"
  obtain G where G: "safety_inv M cl A G" using safety_orderly [OF start] by blast
  obtain G' where G': "grows G G'" "safety_inv M cl' A' G'" using safety_run [OF run start G] by blast
  note D = safety_invD [OF G] and D' = safety_invD [OF G'(2)]
  have l: "?l \<in> logs G'" "?l \<noteq> []" "last_term ?l = cur_term (nodes cl' c)"
    using D(5,11) [OF c] lead(1) G'(1) same by (auto simp: member_safe_def leads_def log_member_def grows_def)
  have l': "?l' \<in> logs G'" "?l' \<noteq> []" "last_term ?l' = cur_term (nodes cl' c)"
    using D'(5,11) [OF c] lead(2) by (simp_all add: member_safe_def leads_def log_member_def)
  have "le_term (?l ! (length ?l - 1)) = cur_term (nodes cl' c)"
    using l(2,3) by (simp add: last_term_def last_conv_nth)
  then have "length ?l - 1 < length ?l'"
    using D'(11) [OF c] lead(2) l(1,2) unfolding log_member_def
    by (metis diff_less length_greater_0_conv zero_less_one)
  then have "length ?l \<le> length ?l'" by simp
  then show ?thesis using same_leader_prefix [OF D'(2,10) l(1,2) l'(1,2)] l(3) l'(3) by simp
qed

text \<open>The entry a request appends, and how far a commit index that reaches it takes in.\<close>

lemma appended:
  assumes inv: "store_inv (store s)" and room: "log_room s" and cmd: "command_ok cmd"
    and idx: "idx = logLen (store s) + 1" and s': "s' = on_store (append_entry (new_entry cmd s)) s"
  shows "node_log s' = node_log s @ [new_entry cmd s]" and "unat idx = Suc (length (node_log s))"
proof -
  show "node_log s' = node_log s @ [new_entry cmd s]"
    using store_inv_new_entry [OF inv room cmd] s' by simp
  have "idx = of_nat (Suc (length (node_log s)))" using inv idx by (simp add: store_inv_def)
  then show "unat idx = Suc (length (node_log s))"
    using room by (simp add: log_room_def unat_of_nat_u64 del: of_nat_Suc)
qed

lemma committed_entry:
  assumes p: "prefix (l @ [e]) (node_log s)" and idx: "unat idx = Suc (length l)"
    and c: "idx \<le> getCommit (store s)" and ok: "committed_ok s"
  shows "prefix (l @ [e]) (commits s)"
proof -
  have "length (l @ [e]) \<le> length (commits s)"
    using ok c idx by (simp add: committed_ok_def word_le_nat_alt)
  with p show ?thesis by (metis prefix_length_prefix take_is_prefix)
qed

section \<open>Writes\<close>

text \<open>
  C7. An acknowledged write is never lost: a node that is leader appends a command for \<^verbatim>\<open>submit\<close>,
  still leads in the same term when its commit index reaches the index it was given, and from
  then on every node that has committed as far has the entry at that place and its effect in its
  state machine, in the order of the log.
\<close>

theorem acknowledged_write_survives:
  assumes start: "orderly M cl A" and c: "c \<in> M"
    and submit: "submit_append cmd (nodes cl c) = Inr (idx, s1)" "command_ok cmd" "log_room (nodes cl c)"
    and run: "orderly_run M (set_node c s1 cl) A cl2 A2"
    and lead: "state (nodes cl2 c) = LEADER" "cur_term (nodes cl2 c) = cur_term (nodes cl c)"
    and done1: "idx \<le> getCommit (store (nodes cl2 c))"
    and later: "orderly_run M cl2 A2 cl3 A3" and d: "d \<in> M" and reached: "idx \<le> getCommit (store (nodes cl3 d))"
  shows "\<exists>es1 es2. commits (nodes cl3 d) = es1 @ new_entry cmd (nodes cl c) # es2 \<and> unat idx = Suc (length es1)
    \<and> sm (nodes cl3 d) = run_log es2 (sm_apply cmd (run_log es1 StateMachine_init))"
proof -
  let ?s = "nodes cl c" and ?cl1 = "set_node c s1 cl"
  let ?es = "node_log ?s" and ?e = "new_entry cmd (nodes cl c)"
  have s1: "state ?s = LEADER" "idx = logLen (store ?s) + 1" "s1 = on_store (append_entry ?e) ?s"
    using submit(1) by (simp_all add: submit_append_eq)
  have o1: "orderly M ?cl1 A"
    by (rule orderly.step [OF start orderly_step.quiet [OF c quiet_step.submit [OF submit]]])
  have o2: "orderly M cl2 A2" and o3: "orderly M cl3 A3"
    using orderly_onward [OF run o1] orderly_onward [OF later] by blast+
  obtain G where "safety_inv M cl A G" using safety_orderly [OF start] by blast
  then have inv: "store_inv (store ?s)" using safety_invD(11) [OF _ c] by (simp add: log_member_def)
  note new = appended [OF inv submit(3,2) s1(2,3)]
  note ok = orderly_committed_ok [OF o2 c] orderly_committed_ok [OF o3 d]
  have "prefix (?es @ [?e]) (node_log (nodes cl2 c))"
    using leader_append_only [OF o1 run c] s1 lead new(1) by simp
  then have 2: "prefix (?es @ [?e]) (commits (nodes cl2 c))"
    by (rule committed_entry [OF _ new(2) done1 ok(1)])
  have "length (?es @ [?e]) \<le> length (commits (nodes cl3 d))"
    using reached new(2) length_commits [OF ok(2)] by (simp add: word_le_nat_alt)
  with commits_agree [OF o2 later c d] 2 have "prefix (?es @ [?e]) (commits (nodes cl3 d))"
    using prefix_order.trans prefix_length_prefix by blast
  then obtain es2 where es: "commits (nodes cl3 d) = ?es @ ?e # es2" by (auto simp: prefix_def)
  have "sm (nodes cl3 d) = run_log (commits (nodes cl3 d)) StateMachine_init" by (rule applied_all [OF o3 d])
  moreover have "command_of ?e = cmd" using getCommand_mk_LogEntry submit(2) by (simp add: command_of_def)
  ultimately show ?thesis using es new(2) by (intro exI [of _ ?es] exI [of _ es2]) simp
qed

text \<open>The leader of \<open>committed_orderly\<close> takes a write; one round commits it on both nodes.\<close>

abbreviation "put_entry s \<equiv> new_entry put_kv s"

lemma put_round:
  obtains cl A s1 cl2 A2 cl3 A3 where "orderly members3 cl A"
    and "submit_append put_kv (nodes cl 1) = Inr (2, s1)" and "log_room (nodes cl 1)"
    and "orderly_run members3 (set_node 1 s1 cl) A cl2 A2" and "state (nodes cl2 1) = LEADER"
    and "cur_term (nodes cl2 1) = cur_term (nodes cl 1)" and "getCommit (store (nodes cl2 1)) = 2"
    and "orderly_run members3 cl2 A2 cl3 A3" and "getCommit (store (nodes cl3 2)) = 2"
proof -
  obtain cl0 A0 cl A where cl: "orderly members3 cl0 A0" "orderly_run members3 cl0 A0 cl A" "ready cl [noop1] []"
    by (rule committed_orderly)
  let ?s = "nodes cl 1"
  let ?s1 = "on_store (append_entry (put_entry ?s)) ?s"
  have s: "state ?s = LEADER" "node_log ?s = [noop1]" "store_inv (store ?s)" "length (peers ?s) = 2"
    "connected (peers ?s ! 0)" "cur_term ?s = 1"
    using cl(3) node_ok_store by (auto simp: ready_def)
  have room: "log_room ?s" using s(2) by (simp add: log_room_def)
  obtain p q where "peers ?s = [p, q]" using s(4) by (auto simp: length_Suc_conv numeral_2_eq_2)
  then have "Requestable ?s" using s(5) by (simp add: Requestable_def)
  moreover have "logLen (store ?s) = 1" using s(2,3) by (simp add: store_inv_def)
  ultimately have sub: "submit_append put_kv ?s = Inr (2, ?s1)" using s(1) by (simp add: submit_append_eq)
  have "last_term [put_entry ?s] = 1" using s(6) by (simp add: last_term_def mk_LogEntry_def Let_def)
  note ready = round [OF ready_append [OF cl(3) room put_kv_ok refl] list.distinct(2) this, of A]
  obtain cl2 A2 cl3 A3 where r: "orderly_run members3 (set_node 1 ?s1 cl) A cl2 A2"
    "state (nodes cl2 1) = LEADER" "cur_term (nodes cl2 1) = 1"
    "getCommit (store (nodes cl2 1)) = of_nat (length ([noop1] @ [put_entry ?s]))"
    "orderly_run members3 cl2 A2 cl3 A3"
    "getCommit (store (nodes cl3 2)) = of_nat (length ([noop1] @ [put_entry ?s]))"
    by (rule ready) blast
  from that [OF orderly_onward [OF cl(2,1)] sub room r(1,2) _ _ r(5)] r(3,4,6) s(6) show ?thesis by simp
qed

theorem acknowledged_write_survives_witness:
  "\<exists>cl A es1 es2. orderly members3 cl A \<and> unat (2 :: u64) = Suc (length es1)
    \<and> sm (nodes cl 2) = run_log es2 (sm_apply put_kv (run_log es1 StateMachine_init))"
proof -
  obtain cl A s1 cl2 A2 cl3 A3 where r: "orderly members3 cl A"
    "submit_append put_kv (nodes cl 1) = Inr (2, s1)" "log_room (nodes cl 1)"
    "orderly_run members3 (set_node 1 s1 cl) A cl2 A2" "state (nodes cl2 1) = LEADER"
    "cur_term (nodes cl2 1) = cur_term (nodes cl 1)" "getCommit (store (nodes cl2 1)) = 2"
    "orderly_run members3 cl2 A2 cl3 A3" "getCommit (store (nodes cl3 2)) = 2"
    by (rule put_round)
  have m: "1 \<in> members3" "2 \<in> members3" by (simp_all add: members3_def)
  have "orderly members3 (set_node 1 s1 cl) A"
    by (rule orderly.step [OF r(1) orderly_step.quiet [OF m(1) quiet_step.submit [OF r(2) put_kv_ok r(3)]]])
  then have "orderly members3 cl3 A3" using orderly_onward r(4,8) by blast
  with acknowledged_write_survives [OF r(1) m(1) r(2) put_kv_ok r(3,4,5,6) _ r(8) m(2)] r(7,9)
  show ?thesis by auto
qed

section \<open>Reads\<close>

lemma orderly_run_trans:
  "orderly_run M cl1 A1 cl2 A2 \<Longrightarrow> orderly_run M cl A cl1 A1 \<Longrightarrow> orderly_run M cl A cl2 A2"
  by (induction rule: orderly_run.induct) (auto intro: orderly_run.onward)

text \<open>A place that a leader's log does not reach yet holds no entry of its term anywhere, or at any time before.\<close>

lemma unused_place:
  assumes start: "orderly M cl A" and run: "orderly_run M cl A cl1 A1" and c: "c \<in> M" and d: "d \<in> M"
    and lead: "state (nodes cl1 c) = LEADER" and e: "le_term e = cur_term (nodes cl1 c)"
  shows "\<not> prefix (node_log (nodes cl1 c) @ [e]) (node_log (nodes cl d))"
proof
  let ?l = "node_log (nodes cl1 c)" and ?k = "node_log (nodes cl d)"
  assume p: "prefix (?l @ [e]) ?k"
  obtain G where G: "safety_inv M cl A G" using safety_orderly [OF start] by blast
  obtain G' where G': "grows G G'" "safety_inv M cl1 A1 G'" using safety_run [OF run start G] by blast
  have k: "?k \<in> logs G'" using safety_invD(11) [OF G d] G'(1) by (auto simp: log_member_def grows_def)
  from p have "length ?l < length ?k" "le_term (?k ! length ?l) = cur_term (nodes cl1 c)"
    using e by (auto simp: prefix_def nth_append)
  with safety_invD(11) [OF G'(2) c] lead k have "length ?l < length ?l" unfolding log_member_def by blast
  then show False by simp
qed

text \<open>
  C8. Reads see the past: a node that is leader appends the entry of a \<^verbatim>\<open>get\<close>, still leads in the
  same term when its commit index reaches that entry, and then returns the value of the key in a
  state that continues the state any node had at any moment before the read began.
\<close>

theorem reads_see_the_past:
  assumes start: "orderly M cl A" and d: "d \<in> M" and run1: "orderly_run M cl A cl1 A1" and c: "c \<in> M"
    and read: "get_append (nodes cl1 c) = Inr (idx, s1)" "log_room (nodes cl1 c)"
    and run2: "orderly_run M (set_node c s1 cl1) A1 cl2 A2"
    and lead: "state (nodes cl2 c) = LEADER" "cur_term (nodes cl2 c) = cur_term (nodes cl1 c)"
    and reached: "idx \<le> getCommit (store (nodes cl2 c))"
  shows "\<exists>es. commits (nodes cl2 c) = commits (nodes cl d) @ es
    \<and> get_end key (nodes cl2 c) = Inr (sm_get key (run_log es (sm (nodes cl d))))"
proof -
  let ?s = "nodes cl1 c" and ?cl1 = "set_node c s1 cl1"
  let ?e = "noop_entry ?s"
  have s1: "state ?s = LEADER" "idx = logLen (store ?s) + 1" "s1 = on_store (append_entry ?e) ?s"
    using read(1) by (simp_all add: get_append_eq)
  have step: "orderly_step M cl1 A1 ?cl1 A1"
    by (rule orderly_step.quiet [OF c quiet_step.get [OF read]])
  have o1: "orderly M cl1 A1" by (rule orderly_onward [OF run1 start])
  have o2: "orderly M ?cl1 A1" by (rule orderly.step [OF o1 step])
  have o3: "orderly M cl2 A2" by (rule orderly_onward [OF run2 o2])
  obtain G where "safety_inv M cl1 A1 G" using safety_orderly [OF o1] by blast
  then have inv: "store_inv (store ?s)" using safety_invD(11) [OF _ c] by (simp add: log_member_def)
  note new = appended [OF inv read(2) command_ok_noop s1(2,3)]
  have "prefix (node_log ?s @ [?e]) (node_log (nodes cl2 c))"
    using leader_append_only [OF o2 run2 c] s1 lead new(1) by simp
  then have 2: "prefix (node_log ?s @ [?e]) (commits (nodes cl2 c))"
    by (rule committed_entry [OF _ new(2) reached orderly_committed_ok [OF o3 c]])
  have "orderly_run M cl A cl2 A2"
    by (rule orderly_run_trans [OF run2 orderly_run.onward [OF run1 step]])
  note agree = commits_agree [OF start this d c]
  have "le_term ?e = cur_term ?s" by (simp add: mk_LogEntry_def Let_def)
  from unused_place [OF start run1 c d s1(1) this] have "\<not> prefix (node_log ?s @ [?e]) (commits (nodes cl d))"
    using take_is_prefix prefix_order.trans by blast
  with agree 2 have "prefix (commits (nodes cl d)) (commits (nodes cl2 c))"
    using prefix_order.trans by blast
  then obtain es where es: "commits (nodes cl2 c) = commits (nodes cl d) @ es" by (rule prefixE)
  have "sm (nodes cl2 c) = run_log es (sm (nodes cl d))"
    unfolding applied_all [OF o3 c] applied_all [OF start d] es by simp
  with es lead(1) show ?thesis by (auto simp: get_end_def)
qed

theorem reads_see_the_past_witness:
  "\<exists>(cl :: Cluster) (cl2 :: Cluster) es. commits (nodes cl 2) = [noop1] \<and> commits (nodes cl2 1) = commits (nodes cl 2) @ es
    \<and> get_end ''k'' (nodes cl2 1) = Inr (sm_get ''k'' (run_log es (sm (nodes cl 2))))"
proof -
  obtain cl0 A0 cl A where cl: "orderly members3 cl0 A0" "orderly_run members3 cl0 A0 cl A" "ready cl [noop1] []"
    "getCommit (store (nodes cl 2)) = 1"
    by (rule committed_orderly)
  let ?s = "nodes cl 1"
  let ?s1 = "on_store (append_entry (noop_entry ?s)) ?s"
  have s: "state ?s = LEADER" "node_log ?s = [noop1]" "store_inv (store ?s)" "cur_term ?s = 1"
    "node_log (nodes cl 2) = [noop1]"
    using cl(3) node_ok_store by (auto simp: ready_def)
  have room: "log_room ?s" using s(2) by (simp add: log_room_def)
  have "logLen (store ?s) = 1" using s(2,3) by (simp add: store_inv_def)
  then have get: "get_append ?s = Inr (2, ?s1)" using s(1) by (simp add: get_append_eq)
  have "last_term [noop_entry ?s] = 1" using s(4) by (simp add: last_term_def mk_LogEntry_def Let_def)
  note ready = round [OF ready_append [OF cl(3) room command_ok_noop refl] list.distinct(2) this, of A]
  obtain cl2 A2 where r: "orderly_run members3 (set_node 1 ?s1 cl) A cl2 A2"
    "state (nodes cl2 1) = LEADER" "cur_term (nodes cl2 1) = 1"
    "getCommit (store (nodes cl2 1)) = of_nat (length ([noop1] @ [noop_entry ?s]))"
    by (rule ready) blast
  have m: "2 \<in> members3" "1 \<in> members3" by (simp_all add: members3_def)
  have "cur_term (nodes cl2 1) = cur_term ?s" "2 \<le> getCommit (store (nodes cl2 1))" using r(3,4) s(4) by simp_all
  from reads_see_the_past [OF orderly_onward [OF cl(2,1)] m(1) orderly_run.here m(2) get room r(1,2) this]
  have "\<exists>es. commits (nodes cl2 1) = commits (nodes cl 2) @ es
    \<and> get_end ''k'' (nodes cl2 1) = Inr (sm_get ''k'' (run_log es (sm (nodes cl 2))))" .
  moreover have "commits (nodes cl 2) = [noop1]" using s(5) cl(4) by simp
  ultimately show ?thesis by blast
qed

end
