(* ===== verification/Rounds.thy ===== *)
theory Rounds
  imports Contract
begin

text \<open>
  Orderly rounds of replication from a leader to one of its two peers, also to one whose log
  holds other entries: the lemmas from which \<open>Restarts\<close> and \<open>StepDown\<close> build their runs, and the
  state both start from, in which the leader of term 1 is cut off and the other two nodes have
  elected a leader of term 2.
\<close>

section \<open>A round that replaces entries\<close>

text \<open>
  A leader whose peer \<open>i\<close> holds \<open>n\<close> entries, all of them committed, and of which the rest of the
  log \<open>L\<close> is to be sent.
\<close>

definition leads_with :: "RaftNode \<Rightarrow> nat \<Rightarrow> u64 \<Rightarrow> LogEntry list \<Rightarrow> nat \<Rightarrow> bool" where
  "leads_with s i t L n \<longleftrightarrow>
     i < 2 \<and> state s = LEADER \<and> cur_term s = t \<and> node_ok s \<and> node_log s = L
     \<and> length (peers s) = 2 \<and> connected (peers s ! i)
     \<and> nextIndex s ! i = of_nat (Suc n) \<and> matchIndex s ! i \<le> of_nat n
     \<and> getCommit (store s) = of_nat n \<and> committed_ok s \<and> caught_up s"

text \<open>A follower that has committed at least as much keeps its indices and its state machine.\<close>

definition stands :: "RaftNode \<Rightarrow> u64 \<Rightarrow> u64 \<Rightarrow> LogEntry list \<Rightarrow> StateMachine \<Rightarrow> bool" where
  "stands s t c log m \<longleftrightarrow>
     node_ok s \<and> cur_term s \<le> t \<and> node_log s = log \<and> getCommit (store s) = c \<and> caught_up s \<and> sm s = m"

lemma leads_with_message:
  assumes s: "leads_with s i t L n" and n: "n \<le> length L"
  obtains m where "prepare_AppendEntries i s = Inr m" and "ae_term m = t" and "ae_prevLogIndex m = of_nat n"
    and "unat (ae_prevLogIndex m) = n" and "ae_prevLogTerm m = entry_term L n" and "ae_entries m = drop n L"
    and "ae_leaderCommit m = of_nat n" and "append_wf m"
proof -
  have inv: "store_inv (store s)" "node_log s = L" and len: "i < length (peers s)" "i < length (nextIndex s)"
    using s node_ok_store [of s] by (auto simp: leads_with_def node_ok_def)
  have ok: "log_ok L" using inv by (simp add: store_inv_def)
  then have un: "unat (of_nat n :: u64) = n" and us: "unat (of_nat (Suc n) :: u64) = Suc n"
    using n by (intro unat_of_nat_u64; simp add: log_ok_def)+
  have nz: "nextIndex s ! i \<noteq> 0" using s us by (auto simp: leads_with_def simp del: of_nat_Suc)
  have nx: "nextIndex s ! i - 1 = of_nat n" using s by (simp add: leads_with_def)
  let ?m = "\<lparr>ae_term = t, ae_leaderId = scast (node_id s), ae_prevLogIndex = of_nat n,
     ae_prevLogTerm = entry_term L n, ae_leaderCommit = of_nat n, ae_entries = drop n L\<rparr>"
  have m: "prepare_AppendEntries i s = Inr ?m"
    using prepare_AppendEntries_eq [OF inv(1) len nz] s un unfolding nx leads_with_def by simp
  have "append_wf ?m"
    by (rule append_wf_suffix [OF ok]) (use un nz nx s in \<open>simp_all add: leads_with_def add.commute\<close>)
  with m un that show ?thesis by simp
qed

lemma stands_receive:
  assumes s: "stands s t c log x" and m: "ae_term m = t" "unat (ae_prevLogIndex m) = n" "append_wf m"
      "ae_leaderCommit m \<le> c"
    and prev: "n = 0 \<or> n \<le> length log \<and> entry_term log n = ae_prevLogTerm m"
  obtains s' where "handleAppendEntries (\<lambda>k. (0, 0)) m s = Inr (stored t, s')"
    and "stands s' t c (merge_log log n (ae_entries m)) x"
proof -
  have st: "node_ok s" "store_inv (store s)" using s node_ok_store by (auto simp: stands_def)
  have "ae_prevLogIndex m = 0" if "n = 0" using m(2) that by (simp add: unat_eq_zero)
  then have "accepts m s" using s m prev by (auto simp: accepts_def stands_def)
  then obtain s' where s': "handleAppendEntries (\<lambda>k. (0, 0)) m s = Inr (stored (ae_term m), s')"
    "cur_term s' = ae_term m"
    by (rule handleAppendEntries_accept [OF st(2) m(3)])
  note a = handleAppendEntries_acceptD(3-6) [OF st(2) m(3) \<open>accepts m s\<close> s'(1)]
  have c: "getCommit (store s') = c" using a(2) s leD [OF m(4)] by (simp add: stands_def)
  have "node_ok s'" using handleAppendEntries_ok [OF st(1) m(3), of "\<lambda>k. (0, 0)"] s'(1) by auto
  with s' a(1,3,4) c s m show ?thesis
    by (intro that [of s']) (auto simp: stands_def caught_up_def)
qed

lemma exchange:
  assumes l: "l \<in> M" "leads_with (nodes cl l) i t L n"
    and f: "f \<in> M" "f \<noteq> l" "peer_id (peers (nodes cl l) ! i) = f" "stands (nodes cl f) t c log x" "of_nat n \<le> c"
    and L: "last_term L = t" "n < length L"
    and prev: "n = 0 \<or> n \<le> length log \<and> entry_term log n = entry_term L n"
  obtains cl' A' where "orderly_run M cl A cl' A'" and "leads_with (nodes cl' l) i t L (length L)"
    and "stands (nodes cl' f) t c (merge_log log n (drop n L)) x" and "peers (nodes cl' l) = peers (nodes cl l)"
    and "\<And>d. d \<noteq> l \<Longrightarrow> d \<noteq> f \<Longrightarrow> nodes cl' d = nodes cl d"
proof -
  obtain m where m: "prepare_AppendEntries i (nodes cl l) = Inr m" "ae_term m = t" "ae_prevLogIndex m = of_nat n"
    "unat (ae_prevLogIndex m) = n" "ae_prevLogTerm m = entry_term L n" "ae_entries m = drop n L"
    "ae_leaderCommit m = of_nat n" "append_wf m"
    by (rule leads_with_message [OF l(2) less_imp_le [OF L(2)]])
  obtain s' where s': "handleAppendEntries (\<lambda>k. (0, 0)) m (nodes cl f) = Inr (stored t, s')"
    "stands s' t c (merge_log log n (ae_entries m)) x"
    by (rule stands_receive [OF f(4) m(2,4,8)]) (use m(5,7) f(5) prev in auto)
  let ?cl1 = "cl\<lparr>appends := insert m (appends cl)\<rparr>" and ?A = "insert (f, m, stored t) A"
  have "orderly_step M cl A ?cl1 A"
    by (rule orderly_step.send [OF l(1) _ m(1)]) (use l(2) in \<open>simp add: leads_with_def\<close>)
  moreover have "orderly_step M ?cl1 A (set_node f s' ?cl1) ?A"
    by (rule orderly_step.receive [OF f(1), where ev = "\<lambda>k. (0, 0)"]) (use s' in simp_all)
  ultimately have r: "orderly_run M cl A (set_node f s' ?cl1) ?A"
    by (rule orderly_run.onward [OF orderly_step_run])
  have st: "store_inv (store (nodes cl l))" "node_log (nodes cl l) = L" and i: "i < 2"
    using l(2) node_ok_store by (auto simp: leads_with_def)
  then have "Suc (length L) < 2 ^ 64" by (simp add: store_inv_def log_ok_def)
  then have un: "unat (of_nat n :: u64) = n" "unat (of_nat (length L) :: u64) = length L"
    using L(2) by (intro unat_of_nat_u64; simp)+
  then have le: "x \<le> of_nat (length L)" if "x \<le> of_nat n" for x :: u64
    using that L(2) by (simp add: word_le_nat_alt)
  have mp: "ae_prevLogIndex m + of_nat (length (ae_entries m)) = of_nat (length L)" "ae_entries m \<noteq> []"
    using m(3,6) L(2) by (simp_all add: of_nat_diff)
  have Ln: "L \<noteq> []" using L(2) by auto
  obtain s where s: "handle_append_reply i m (AppendEntriesResponse_serialize (stored t)) (nodes cl l) = Inr s"
    "node_ok s" "state s = LEADER" "cur_term s = t" "log_of (store s) = L" "peers s = peers (nodes cl l)"
    "nextIndex s ! i = of_nat (Suc (length L))" "matchIndex s ! i = of_nat (length L)"
    "getCommit (store s) = of_nat (length L)" "committed_ok (nodes cl l) \<Longrightarrow> committed_ok s"
    by (rule counted [of "nodes cl l" t L i m, OF _ _ _ _ _ _ _ _ i Ln L(1) mp])
      (use l(2) le in \<open>auto simp: leads_with_def\<close>)
  have "caught_up s" using handle_append_reply_caught_up [OF s(1)] l(2) by (simp add: leads_with_def)
  with s l(2) have led: "leads_with s i t L (length L)" by (simp add: leads_with_def)
  have "orderly_step M (set_node f s' ?cl1) ?A (set_node l s (set_node f s' ?cl1)) ?A"
    by (rule orderly_step.reply [OF l(1) refl, where i = i and ae = m])
      (use s(1) f(2,3) l(2) m(2) in \<open>auto simp: leads_with_def\<close>)
  from orderly_run.onward [OF r this] show ?thesis
    by (rule that) (use led s'(2) m(6) f(2) s(6) in simp_all)
qed

text \<open>A heartbeat tells a peer that has all entries how far they are committed.\<close>

lemma told:
  assumes l: "l \<in> M" "leads_with (nodes cl l) i t L (length L)"
    and f: "f \<in> M" "f \<noteq> l" "stands (nodes cl f) t 0 L x" and L: "L \<noteq> []"
  obtains cl' A' where "orderly_run M cl A cl' A'" and "nodes cl' l = nodes cl l"
    and "node_ok (nodes cl' f)" and "cur_term (nodes cl' f) = t" and "node_log (nodes cl' f) = L"
    and "getCommit (store (nodes cl' f)) = of_nat (length L)"
    and "\<And>d. d \<noteq> f \<Longrightarrow> nodes cl' d = nodes cl d"
proof -
  obtain m where m: "prepare_AppendEntries i (nodes cl l) = Inr m" "ae_term m = t" "unat (ae_prevLogIndex m) = length L"
    "ae_prevLogTerm m = entry_term L (length L)" "ae_entries m = drop (length L) L"
    "ae_leaderCommit m = of_nat (length L)" "append_wf m"
    by (rule leads_with_message [OF l(2) order_refl])
  have st: "node_ok (nodes cl f)" "store_inv (store (nodes cl f))" "node_log (nodes cl f) = L"
    using f(3) node_ok_store by (auto simp: stands_def)
  have "accepts m (nodes cl f)" using f(3) m(2-4) by (auto simp: accepts_def stands_def)
  then obtain s' where s': "handleAppendEntries (\<lambda>k. (0, 0)) m (nodes cl f) = Inr (stored (ae_term m), s')"
    "cur_term s' = ae_term m"
    by (rule handleAppendEntries_accept [OF st(2) m(7)])
  note a = handleAppendEntries_acceptD(3,4) [OF st(2) m(7) \<open>accepts m (nodes cl f)\<close> s'(1)]
  have "Suc (length L) < 2 ^ 64" using st(2,3) by (simp add: store_inv_def log_ok_def)
  then have "unat (of_nat (length L) :: u64) = length L" by (intro unat_of_nat_u64) simp
  then have pos: "(0 :: u64) < of_nat (length L)" using L by (simp add: word_less_nat_alt)
  have log: "node_log s' = L" using a(1) st(3) m(5) by simp
  then have c: "getCommit (store s') = of_nat (length L)" using a(2) f(3) m(6) pos by (simp add: stands_def)
  have ok: "node_ok s'" using handleAppendEntries_ok [OF st(1) m(7), of "\<lambda>k. (0, 0)"] s'(1) by auto
  let ?cl1 = "cl\<lparr>appends := insert m (appends cl)\<rparr>"
  have "orderly_step M cl A ?cl1 A"
    by (rule orderly_step.send [OF l(1) _ m(1)]) (use l(2) in \<open>simp add: leads_with_def\<close>)
  moreover have "orderly_step M ?cl1 A (set_node f s' ?cl1) (insert (f, m, stored t) A)"
    by (rule orderly_step.receive [OF f(1), where ev = "\<lambda>k. (0, 0)"]) (use s' m(2) in simp_all)
  ultimately have "orderly_run M cl A (set_node f s' ?cl1) (insert (f, m, stored t) A)"
    by (rule orderly_run.onward [OF orderly_step_run])
  then show ?thesis by (rule that) (use ok s'(2) m(2) log c f(2) in simp_all)
qed

text \<open>The leader takes a write.\<close>

lemma leads_with_submit:
  assumes s: "leads_with s i t L n" and room: "log_room s" and cmd: "command_ok cmd"
  shows "\<exists>idx. submit_append cmd s = Inr (idx, on_store (append_entry (new_entry cmd s)) s)"
    and "leads_with (on_store (append_entry (new_entry cmd s)) s) i t (L @ [new_entry cmd s]) n"
proof -
  obtain p q where ps: "peers s = [p, q]" using s by (auto simp: leads_with_def length_Suc_conv numeral_2_eq_2)
  have "connected p \<or> connected q" using s unfolding ps leads_with_def by (auto simp: less_2_cases_iff)
  then have "Requestable s" by (auto simp: Requestable_def ps)
  then show "\<exists>idx. submit_append cmd s = Inr (idx, on_store (append_entry (new_entry cmd s)) s)"
    using s by (simp add: submit_append_eq leads_with_def)
  have ok: "node_ok s" using s by (simp add: leads_with_def)
  note new = node_ok_new_entry [OF ok room cmd]
  show "leads_with (on_store (append_entry (new_entry cmd s)) s) i t (L @ [new_entry cmd s]) n"
    using s new committed_ok_longer [of s "on_store (append_entry (new_entry cmd s)) s" "[new_entry cmd s]"]
    by (simp add: leads_with_def caught_up_def)
qed

section \<open>Two leaders\<close>

text \<open>
  Node 1 leads in term 1 and is cut off; node 2 is elected in term 2 by node 3. Both have a NOOP
  entry of their own at index 1.
\<close>

definition noop2 :: LogEntry where
  "noop2 = mk_LogEntry 2 1 (mk_Command NOOP [] [])"

lemma leader2_orderly:
  obtains cl where "orderly members3 cl {}" and "leads_with (nodes cl 2) 0 2 [noop2] 0" and "leads_with (nodes cl 2) 1 2 [noop2] 0"
    and "map peer_id (peers (nodes cl 2)) = [1, 3]" and "stands (nodes cl 3) 2 0 [] StateMachine_init"
    and "state (nodes cl 1) = LEADER" and "cur_term (nodes cl 1) = 1" and "node_ok (nodes cl 1)"
    and "node_log (nodes cl 1) = [noop1]" and "Requestable (nodes cl 1)"
    and "nextIndex (nodes cl 1) = [1, 1]" and "map peer_id (peers (nodes cl 1)) = [2, 3]"
proof -
  obtain cl where cl: "orderly members3 cl {}" "state (nodes cl 1) = LEADER" "cur_term (nodes cl 1) = 1"
    "log_of (store (nodes cl 1)) = [noop1]" "node_ok (nodes cl 1)" "map peer_id (peers (nodes cl 1)) = [2, 3]"
    "node_ok (nodes cl 2)" "log_of (store (nodes cl 2)) = []" "cur_term (nodes cl 2) = 1"
    "getCommit (store (nodes cl 2)) = 0" "connected (peers (nodes cl 1) ! 0)"
    "state (nodes cl 2) = FOLLOWER" "map peer_id (peers (nodes cl 2)) = [1, 3]"
    "nodes cl 3 = fresh_node 3 (peers3 3)" "ballots cl 2 = None" "nextIndex (nodes cl 1) = [1, 1]"
    by (rule leader1_orderly)
  have m: "1 \<in> members3" "2 \<in> members3" "3 \<in> members3" by (simp_all add: members3_def)
  let ?n = "nodes cl 2" and ?p = "nodes cl 3"
  have inv: "store_inv (store ?n)" by (rule node_ok_store [OF cl(7)])
  have id: "node_id ?n = 2"
    using cluster_invD(1) [OF cluster_inv_reachable [OF orderly_reachable [OF cl(1)]] m(2)] by (simp add: member_ok_def)
  have room: "log_room ?n" and len: "logLen (store ?n) = 0" "getLastLogIndex (store ?n) = 0"
    using cl(8) inv by (simp_all add: log_room_def store_inv_def)
  have ps: "length (peers ?n) = 2" "peer_id (peers ?n ! 1) = 3" using cl(13) by (auto simp: map_eq_Cons_conv)
  have p: "node_ok ?p" "cur_term ?p < 2" "store_pos (store ?p) \<le> store_pos (store ?n)"
    using cl(8,14) node_ok_fresh node_ok_store [OF node_ok_fresh, of 3 "peers3 3"]
    by (simp_all add: store_pos_log inv log_of_fresh) (simp add: fresh_node_def)
  obtain cl1 where cl1: "orderly members3 cl1 {}" "state (nodes cl1 2) = LEADER" "cur_term (nodes cl1 2) = 2"
    "node_ok (nodes cl1 2)"
    "log_of (store (nodes cl1 2)) = log_of (store ?n) @ [mk_LogEntry 2 (logLen (store ?n) + 1) (mk_Command NOOP [] [])]"
    "map peer_id (peers (nodes cl1 2)) = map peer_id (peers ?n)"
    "nextIndex (nodes cl1 2) = replicate 2 (getLastLogIndex (store ?n) + 1)" "matchIndex (nodes cl1 2) = [0, 0]"
    "getCommit (store (nodes cl1 2)) = getCommit (store ?n)"
    "\<And>d. d \<noteq> 2 \<Longrightarrow> d \<noteq> 3 \<Longrightarrow> nodes cl1 d = nodes cl d"
    "connected (peers (nodes cl1 2) ! 1)" "node_ok (nodes cl1 3)" "node_log (nodes cl1 3) = node_log ?p"
    "cur_term (nodes cl1 3) = 2" "getCommit (store (nodes cl1 3)) = getCommit (store ?p)"
    by (rule elected [OF cl(1) m(2) id cl(15) _ _ _ cl(7) room ps(1) m(3) _ p, of 1])
      (use cl(9,12) ps(2) in simp_all)
  let ?s = "nodes cl1 2"
  obtain r q where q: "sendRPC (voting 2) [] (peers ?s ! 0) = (r, q)" by fastforce
  then have live: "connected q" using sendRPC_voting(2) [of 2 "[]" "peers ?s ! 0"] by simp
  let ?s1 = "?s\<lparr>peers := (peers ?s)[0 := q]\<rparr>"
  have o: "orderly members3 (set_node 2 ?s1 cl1) {}"
    by (rule orderly.step [OF cl1(1) orderly_step.quiet [OF m(2) quiet_step.call [OF q]]])
  have ok: "committed_ok ?s1" "caught_up ?s1"
    using orderly_committed_ok [OF o m(2)] caught_up_orderly [OF o m(2)] by simp_all
  have two: "length (peers ?s) = 2" using cl1(6) ps(1) by (metis length_map)
  have at: "connected ((peers ?s)[0 := q] ! i)" "nextIndex ?s ! i = 1" "matchIndex ?s ! i = 0" if "i < 2" for i
    using that live two cl1(7,8,11) len by (cases "i = 0"; simp add: less_2_cases_iff)+
  have "node_log ?s = [noop2]" using cl1(5) cl(8) len by (simp add: noop2_def)
  moreover have "node_ok ?s1" using cl1(4) by (simp add: node_ok_def)
  ultimately have led: "leads_with ?s1 i 2 [noop2] 0" if "i < 2" for i
    using that two at [OF that] ok cl1(2,3,9) cl(10) by (simp add: leads_with_def)
  have p0: "node_log ?p = []" "getCommit (store ?p) = 0"
    using cl(14) log_of_fresh by (simp_all, simp add: fresh_node_def)
  then have "stands (nodes (set_node 2 ?s1 cl1) 3) 2 0 [] StateMachine_init"
    using caught_up_orderly [OF o m(3)] applied_all [OF o m(3)] cl1(12-15) by (simp add: stands_def)
  moreover have "map peer_id (peers ?s1) = [1, 3]"
    using cl1(6) cl(13) arg_cong [OF q, of "\<lambda>x. peer_id (snd x)"] by (simp add: map_update_same)
  moreover have "length (map peer_id (peers (nodes cl 1))) = 2" by (simp add: cl(6))
  then obtain a b where "peers (nodes cl 1) = [a, b]" by (auto simp: length_Suc_conv numeral_2_eq_2)
  with cl(11) have "Requestable (nodes cl 1)" by (simp add: Requestable_def)
  ultimately show ?thesis using that [OF o] led cl cl1(10) by simp
qed

end
