(* ===== verification/Restarts.thy ===== *)
theory Restarts
  imports Rounds
begin

text \<open>
  Why orderly runs restart a node only when all of its log is committed: a run of three nodes that
  is orderly but for one restart, and in which two nodes end with the same log, the same commit
  index and the same applied index, and different values for a key.
\<close>

text \<open>Node 1 takes a write, which no other node ever sees, and restarts with it applied.\<close>

abbreviation restart_node :: "c_int \<Rightarrow> RaftNode \<Rightarrow> Cluster \<Rightarrow> Cluster" where
  "restart_node c s cl \<equiv> (set_node c s cl)\<lparr>ballots := (ballots cl)(c := None)\<rparr>"

abbreviation restarts :: "Cluster \<Rightarrow> c_int \<Rightarrow> RaftNode \<Rightarrow> bool" where
  "restarts cl c s \<equiv>
     RaftNode_init (\<lambda>k. (0, 0)) c (peers (nodes cl c)) (st_disk (store (nodes cl c))) = Inr s"

lemma restarted_uncommitted:
  obtains cl s e where "orderly members3 cl {}" and "restarts cl 1 s"
    and "leads_with (nodes cl 2) 0 2 [noop2] 0" and "map peer_id (peers (nodes cl 2)) = [1, 3]"
    and "stands s 2 2 [noop1, e] (sm_apply put_kv StateMachine_init)"
proof -
  obtain cl where cl: "orderly members3 cl {}" "leads_with (nodes cl 2) 0 2 [noop2] 0"
    "map peer_id (peers (nodes cl 2)) = [1, 3]" "state (nodes cl 1) = LEADER"
    "cur_term (nodes cl 1) = 1" "node_ok (nodes cl 1)" "node_log (nodes cl 1) = [noop1]" "Requestable (nodes cl 1)"
    by (rule leader2_orderly)
  have m: "1 \<in> members3" by (simp add: members3_def)
  let ?s = "nodes cl 1"
  let ?s1 = "on_store (append_entry (put_entry ?s)) ?s"
  have room: "log_room ?s" using cl(7) by (simp add: log_room_def)
  have "submit_append put_kv ?s = Inr (logLen (store ?s) + 1, ?s1)" using cl(4,8) by (simp add: submit_append_eq)
  from orderly.step [OF cl(1) orderly_step.quiet [OF m quiet_step.submit [OF this put_kv_ok room]]]
  have o: "orderly members3 (set_node 1 ?s1 cl) {}" .
  note new = node_ok_new_entry [OF cl(6) room put_kv_ok]
  have log: "node_log ?s1 = [noop1, put_entry ?s]" using new(2) cl(7) by simp
  obtain s' where s': "RaftNode_init (\<lambda>k. (0, 0)) 1 (peers ?s) (st_disk (store ?s1)) = Inr s'" "node_ok s'"
    "cur_term s' = cur_term ?s1" "node_log s' = node_log ?s1"
    "getCommit (store s') = of_nat (length (node_log ?s1))" "getApplied (store s') = getCommit (store s')"
    "sm s' = run_log (node_log ?s1) StateMachine_init"
    using restart_recovers [OF node_ok_store [OF new(1)], of "\<lambda>k. (0, 0)" 1 "peers ?s"] by blast
  have "run_log [noop1, put_entry ?s] StateMachine_init = sm_apply put_kv StateMachine_init"
    using getCommand_mk_LogEntry [OF put_kv_ok] getCommand_mk_LogEntry [OF command_ok_noop]
    by (simp add: command_of_def noop1_def) (simp add: sm_apply_def mk_Command_def)
  then have "stands s' 2 2 [noop1, put_entry ?s] (sm_apply put_kv StateMachine_init)"
    using s' log cl(5) by (simp add: stands_def caught_up_def)
  with that [OF o] s'(1) cl(2,3) show ?thesis by simp
qed

text \<open>
  C24. A restart with uncommitted entries breaks the agreement of the nodes: from a state of an
  orderly run a node restarts, and another orderly run leads to a state in which two nodes have
  the same log and have committed and applied all of it, and a key has one value on the first and
  another on the second. The write behind the value on the first, which \<^verbatim>\<open>replay\<close> applied when
  that node restarted, is in neither log.
\<close>

theorem restart_diverges:
  "\<exists>cl A s cl' A'. orderly members3 cl A \<and> restarts cl 1 s
    \<and> orderly_run members3 (restart_node 1 s cl) A cl' A'
    \<and> node_log (nodes cl' 1) = node_log (nodes cl' 2) \<and> length (node_log (nodes cl' 2)) = 2
    \<and> getCommit (store (nodes cl' 1)) = 2 \<and> getApplied (store (nodes cl' 1)) = 2
    \<and> getCommit (store (nodes cl' 2)) = 2 \<and> getApplied (store (nodes cl' 2)) = 2
    \<and> put_kv \<notin> set (map command_of (node_log (nodes cl' 1)))
    \<and> sm_get ''k'' (sm (nodes cl' 1)) = ''v'' \<and> sm_get ''k'' (sm (nodes cl' 2)) = ''w''"
proof -
  have m: "2 \<in> members3" "1 \<in> members3" "(1 :: c_int) \<noteq> 2" by (simp_all add: members3_def)
  have t: "le_term (mk_LogEntry x i cmd) = x" for x i cmd by (simp add: mk_LogEntry_def Let_def)
  obtain cl s e where cl: "orderly members3 cl {}" "restarts cl 1 s" "leads_with (nodes cl 2) 0 2 [noop2] 0"
    "map peer_id (peers (nodes cl 2)) = [1, 3]" "stands s 2 2 [noop1, e] (sm_apply put_kv StateMachine_init)"
    by (rule restarted_uncommitted)
  let ?cl = "restart_node 1 s cl"
  have p: "peer_id (peers (nodes ?cl 2) ! 0) = 1" using cl(4) by (auto simp: map_eq_Cons_conv)
  have r: "leads_with (nodes ?cl 2) 0 2 [noop2] 0"
    "stands (nodes ?cl 1) 2 2 [noop1, e] (sm_apply put_kv StateMachine_init)" using cl(3,5) by simp_all
  obtain cl1 A1 where cl1: "orderly_run members3 ?cl {} cl1 A1" "leads_with (nodes cl1 2) 0 2 [noop2] (length [noop2])"
    "stands (nodes cl1 1) 2 2 (merge_log [noop1, e] 0 (drop 0 [noop2])) (sm_apply put_kv StateMachine_init)"
    "peers (nodes cl1 2) = peers (nodes ?cl 2)"
    by (rule exchange [OF m(1) r(1) m(2,3) p r(2)]) (simp_all add: noop2_def t last_term_def)
  let ?w = "mk_Command PUT ''k'' ''w''" and ?s = "nodes cl1 2"
  let ?e = "new_entry ?w ?s" and ?s1 = "on_store (append_entry (new_entry ?w ?s)) ?s"
  have w: "command_ok ?w" by (simp add: command_ok_def mk_Command_def)
  have room: "log_room ?s" and term2: "cur_term ?s = 2" using cl1(2) by (simp_all add: log_room_def leads_with_def)
  note sub = leads_with_submit [OF cl1(2) room w]
  from sub(1) obtain idx where "submit_append ?w ?s = Inr (idx, ?s1)" ..
  from orderly_run.onward [OF cl1(1) orderly_step.quiet [OF m(1) quiet_step.submit [OF this w room]]]
  have run: "orderly_run members3 ?cl {} (set_node 2 ?s1 cl1) A1" .
  have "merge_log [noop1, e] 0 (drop 0 [noop2]) = [noop2]" by (simp add: noop1_def noop2_def t)
  with cl1(3) sub(2) p cl1(4)
  have q: "leads_with (nodes (set_node 2 ?s1 cl1) 2) 0 2 [noop2, ?e] 1"
    "stands (nodes (set_node 2 ?s1 cl1) 1) 2 2 [noop2] (sm_apply put_kv StateMachine_init)"
    "peer_id (peers (nodes (set_node 2 ?s1 cl1) 2) ! 0) = 1" by simp_all
  obtain cl2 A2 where cl2: "orderly_run members3 (set_node 2 ?s1 cl1) A1 cl2 A2"
    "leads_with (nodes cl2 2) 0 2 [noop2, ?e] (length [noop2, ?e])"
    "stands (nodes cl2 1) 2 2 (merge_log [noop2] 1 (drop 1 [noop2, ?e])) (sm_apply put_kv StateMachine_init)"
    by (rule exchange [OF m(1) q(1) m(2,3) q(3,2)])
      (use term2 in \<open>simp_all add: t last_term_def entry_term_def\<close>)
  have cmds: "map command_of [noop2, ?e] = [mk_Command NOOP [] [], ?w]"
    using getCommand_mk_LogEntry [OF w] getCommand_mk_LogEntry [OF command_ok_noop]
    by (simp add: command_of_def noop2_def)
  then have "run_log [noop2, ?e] StateMachine_init = sm_apply ?w StateMachine_init"
    by simp (simp add: sm_apply_def mk_Command_def)
  with cl2(2) have "sm (nodes cl2 2) = sm_apply ?w StateMachine_init"
    by (simp add: leads_with_def caught_up_def committed_ok_def)
  moreover have "put_kv \<notin> set (map command_of [noop2, ?e])" unfolding cmds by (simp add: mk_Command_def)
  ultimately show ?thesis using cl(1,2) orderly_run_trans [OF cl2(1) run] cl2(2,3)
    by (intro exI [of _ cl] exI [of _ "{}"] exI [of _ s] exI [of _ cl2] exI [of _ A2])
      (simp add: leads_with_def stands_def caught_up_def kv.look_put isPut_def mk_Command_def)
qed

end
