(* ===== verification/StepDown.thy ===== *)
theory StepDown
  imports Rounds
begin

text \<open>
  Why orderly runs let only leaders send: a leader that was cut off is refused by the leader of a
  newer term, steps down, and sends its next message all the same, now with the newer term. The
  node that reads it gives up a write that a majority holds and two nodes have committed.
\<close>

lemma append_refused:
  "ae_term m < cur_term s \<Longrightarrow> handleAppendEntries ev m s = Inr (\<lparr>ar_term = cur_term s, ar_success = False\<rparr>, s)"
  by (simp add: handleAppendEntries_def)

abbreviation "refusal t \<equiv> \<lparr>ar_term = t, ar_success = False\<rparr>"

text \<open>A write of the new leader is committed on nodes 2 and 3; node 1 knows nothing of it.\<close>

lemma committed_beside:
  obtains cl A e where "orderly members3 cl A" and "state (nodes cl 2) = LEADER" and "cur_term (nodes cl 2) = 2"
    and "node_log (nodes cl 2) = [noop2, e]" and "getCommit (store (nodes cl 2)) = 2" and "command_of e = put_kv"
    and "node_ok (nodes cl 3)" and "cur_term (nodes cl 3) = 2" and "node_log (nodes cl 3) = [noop2, e]"
    and "getCommit (store (nodes cl 3)) = 2"
    and "state (nodes cl 1) = LEADER" and "cur_term (nodes cl 1) = 1" and "node_ok (nodes cl 1)"
    and "node_log (nodes cl 1) = [noop1]" and "nextIndex (nodes cl 1) = [1, 1]"
    and "map peer_id (peers (nodes cl 1)) = [2, 3]"
proof -
  obtain cl where cl: "orderly members3 cl {}" "leads_with (nodes cl 2) 1 2 [noop2] 0"
    "map peer_id (peers (nodes cl 2)) = [1, 3]" "stands (nodes cl 3) 2 0 [] StateMachine_init"
    "state (nodes cl 1) = LEADER" "cur_term (nodes cl 1) = 1" "node_ok (nodes cl 1)" "node_log (nodes cl 1) = [noop1]"
    "nextIndex (nodes cl 1) = [1, 1]" "map peer_id (peers (nodes cl 1)) = [2, 3]"
    by (rule leader2_orderly)
  have m: "2 \<in> members3" "3 \<in> members3" "(3 :: c_int) \<noteq> 2" by (simp_all add: members3_def)
  let ?s = "nodes cl 2"
  let ?e = "put_entry ?s" and ?s1 = "on_store (append_entry (put_entry ?s)) ?s"
  have room: "log_room ?s" and term2: "cur_term ?s = 2" using cl(2) by (simp_all add: log_room_def leads_with_def)
  note sub = leads_with_submit [OF cl(2) room put_kv_ok]
  from sub(1) obtain idx where "submit_append put_kv ?s = Inr (idx, ?s1)" ..
  from orderly.step [OF cl(1) orderly_step.quiet [OF m(1) quiet_step.submit [OF this put_kv_ok room]]]
  have o: "orderly members3 (set_node 2 ?s1 cl) {}" .
  let ?cl = "set_node 2 ?s1 cl"
  have q: "leads_with (nodes ?cl 2) 1 2 [noop2, ?e] 0" "peer_id (peers (nodes ?cl 2) ! 1) = 3"
    "stands (nodes ?cl 3) 2 0 [] StateMachine_init" using sub(2) cl(3,4) by (auto simp: map_eq_Cons_conv)
  have t: "last_term [noop2, ?e] = 2" using term2 by (simp add: last_term_def mk_LogEntry_def Let_def)
  obtain cl1 A1 where cl1: "orderly_run members3 ?cl {} cl1 A1"
    "leads_with (nodes cl1 2) 1 2 [noop2, ?e] (length [noop2, ?e])"
    "stands (nodes cl1 3) 2 0 (merge_log [] 0 (drop 0 [noop2, ?e])) StateMachine_init"
    "\<And>d. d \<noteq> 2 \<Longrightarrow> d \<noteq> 3 \<Longrightarrow> nodes cl1 d = nodes ?cl d"
    by (rule exchange [OF m(1) q(1) m(2,3) q(2,3) _ t, of "{}"]) simp_all
  have f: "stands (nodes cl1 3) 2 0 [noop2, ?e] StateMachine_init" using cl1(3) by simp
  obtain cl2 A2 where cl2: "orderly_run members3 cl1 A1 cl2 A2" "nodes cl2 2 = nodes cl1 2" "node_ok (nodes cl2 3)"
    "cur_term (nodes cl2 3) = 2" "node_log (nodes cl2 3) = [noop2, ?e]"
    "getCommit (store (nodes cl2 3)) = of_nat (length [noop2, ?e])" "\<And>d. d \<noteq> 3 \<Longrightarrow> nodes cl2 d = nodes cl1 d"
    by (rule told [OF m(1) cl1(2) m(2,3) f list.distinct(2), of A1]) simp_all
  have "command_of ?e = put_kv" using getCommand_mk_LogEntry [OF put_kv_ok] by (simp add: command_of_def)
  moreover have "nodes cl2 1 = nodes cl 1" using cl1(4) [of 1] cl2(7) [of 1] by simp
  ultimately show ?thesis
    using that [OF orderly_onward [OF cl2(1) orderly_onward [OF cl1(1) o]]] cl1(2) cl2(2-6) cl(5-)
    by (simp add: leads_with_def)
qed

text \<open>
  C25. A leader that steps down goes on sending: in a state of an orderly run node 1, leader of an
  old term, reads the refusal of the leader of the newer term and becomes a follower; the next
  message of its send loop carries the newer term, and node 3 accepts it. A write that the leader
  and node 3 have both committed is then no longer in the log of node 3.
\<close>

theorem stepped_down_leader_breaks_agreement:
  "\<exists>cl A ae s m f. orderly members3 cl A \<and> map peer_id (peers (nodes cl 1)) = [2, 3]
    \<and> state (nodes cl 1) = LEADER \<and> ae \<in> appends cl \<and> ae_term ae = cur_term (nodes cl 1) \<and> (2, ae, refusal 2) \<in> A
    \<and> handle_append_reply 0 ae (AppendEntriesResponse_serialize (refusal 2)) (nodes cl 1) = Inr s
    \<and> state s = FOLLOWER \<and> prepare_AppendEntries 1 s = Inr m
    \<and> handleAppendEntries (\<lambda>k. (0, 0)) m (nodes cl 3) = Inr (stored 2, f)
    \<and> state (nodes cl 2) = LEADER \<and> commits (nodes cl 3) = commits (nodes cl 2)
    \<and> put_kv \<in> set (map command_of (commits (nodes cl 3))) \<and> put_kv \<notin> set (map command_of (node_log f))"
proof -
  obtain cl A e where cl: "orderly members3 cl A" "state (nodes cl 2) = LEADER" "cur_term (nodes cl 2) = 2"
    "node_log (nodes cl 2) = [noop2, e]" "getCommit (store (nodes cl 2)) = 2" "command_of e = put_kv"
    "node_ok (nodes cl 3)" "cur_term (nodes cl 3) = 2" "node_log (nodes cl 3) = [noop2, e]"
    "getCommit (store (nodes cl 3)) = 2"
    "state (nodes cl 1) = LEADER" "cur_term (nodes cl 1) = 1" "node_ok (nodes cl 1)"
    "node_log (nodes cl 1) = [noop1]" "nextIndex (nodes cl 1) = [1, 1]" "map peer_id (peers (nodes cl 1)) = [2, 3]"
    by (rule committed_beside)
  have m: "1 \<in> members3" "2 \<in> members3" by (simp_all add: members3_def)
  let ?s = "nodes cl 1"
  have "length (map peer_id (peers ?s)) = 2" by (simp add: cl(16))
  then have len: "0 < length (peers ?s)" "0 < length (nextIndex ?s)" "1 < length (nextIndex ?s)" "nextIndex ?s ! 0 \<noteq> 0"
    by (simp_all add: cl(15))
  obtain ae where ae: "prepare_AppendEntries 0 ?s = Inr ae" "ae_term ae = 1"
    using prepare_AppendEntries_eq [OF node_ok_store [OF cl(13)] len(1,2,4)] cl(12) by simp
  let ?cl1 = "cl\<lparr>appends := insert ae (appends cl)\<rparr>"
  let ?cl2 = "set_node 2 (nodes ?cl1 2) ?cl1" and ?A = "insert (2, ae, refusal 2) A"
  have "orderly members3 ?cl1 A"
    by (rule orderly_send [OF cl(1) m(1) cl(11) ae(1)])
  then have o: "orderly members3 ?cl2 ?A"
    by (rule orderly_receive [OF _ m(2), where ev = "\<lambda>k. (0, 0)"]) (use append_refused ae(2) cl(3) in simp_all)
  have t: "le_term noop1 = 1" "le_term noop2 = 2" by (simp_all add: noop1_def noop2_def mk_LogEntry_def Let_def)
  obtain s n f where n: "handle_append_reply 0 ae (AppendEntriesResponse_serialize (refusal 2)) ?s = Inr s"
    "state s = FOLLOWER" "prepare_AppendEntries 1 s = Inr n"
    "handleAppendEntries (\<lambda>k. (0, 0)) n (nodes cl 3) = Inr (stored 2, f)" "log_of (store f) = log_of (store ?s)"
    using stepped_down_leader_overwrites [OF cl(13) len(2,3), where r = "refusal 2" and p = 0 and f = "nodes cl 3"
        and ae = ae and ev = "\<lambda>k. (0, 0)"] node_ok_store [OF cl(7)] cl(8-10,12,14,15) t
    by auto
  have "command_of noop1 = mk_Command NOOP [] []"
    using getCommand_mk_LogEntry [OF command_ok_noop] by (simp add: command_of_def noop1_def)
  then have "put_kv \<notin> set (map command_of (node_log f))" using n(5) cl(14) by (simp add: mk_Command_def)
  moreover have "commits (nodes cl 3) = [noop2, e]" "commits (nodes cl 2) = [noop2, e]"
    using cl(4,5,9,10) by simp_all
  ultimately show ?thesis using o n cl ae(2)
    by (intro exI [of _ ?cl2] exI [of _ ?A] exI [of _ ae] exI [of _ s] exI [of _ n] exI [of _ f]) simp
qed

end
