(* ===== verification/Stall.thy ===== *)
theory Stall
  imports Service
begin

text \<open>
  What a leader's heartbeats do once it has sent its whole log, and the copies it forgets: an
  answer that is lost sets the entry of \<^verbatim>\<open>matchIndex\<close> to zero, and heartbeats, which carry no
  entries, never raise it again.
\<close>

section \<open>Heartbeats\<close>

text \<open>Peer \<open>i\<close> has been sent the whole log.\<close>

definition all_sent :: "RaftNode \<Rightarrow> nat \<Rightarrow> bool" where
  "all_sent s i \<longleftrightarrow> nextIndex s ! i = getLastLogIndex (store s) + 1"

text \<open>What rounds of heartbeats leave of a leader: store and role, and no copy is counted anew.\<close>

definition idles :: "RaftNode \<Rightarrow> RaftNode \<Rightarrow> bool" where
  "idles s t \<longleftrightarrow> store t = store s \<and> state t = state s \<and> running t = running s \<and> sm t = sm s
     \<and> length (peers t) = length (peers s) \<and> length (nextIndex t) = length (nextIndex s)
     \<and> length (matchIndex t) = length (matchIndex s) \<and> 0 \<notin> set (nextIndex t)
     \<and> (\<forall>j. all_sent s j \<longrightarrow> all_sent t j) \<and> (\<forall>j. matchIndex t ! j \<le> matchIndex s ! j)"

lemma idles_refl: "0 \<notin> set (nextIndex s) \<Longrightarrow> idles s s"
  by (simp add: idles_def)

lemma idles_call: "idles s t \<Longrightarrow> idles s (t\<lparr>peers := (peers t)[i := p]\<rparr>)"
  by (simp add: idles_def all_sent_def)

lemma idles_beat: "idles s t \<Longrightarrow> idles s (t\<lparr>last_heartbeat := now\<rparr>)"
  by (simp add: idles_def all_sent_def)

text \<open>The answer of a peer to which everything was sent, or no answer.\<close>

definition nothing_new :: "RaftNode \<Rightarrow> rpc_io \<Rightarrow> nat \<Rightarrow> bool" where
  "nothing_new s io i \<longleftrightarrow>
     (\<forall>req p. fst (sendRPC io req p) = []) \<or>
     all_sent s i \<and> (\<forall>req p. append_calm (cur_term s) (fst (sendRPC io req p)))"

lemma idles_forget: "idles s t \<Longrightarrow> idles s (t\<lparr>matchIndex := (matchIndex t)[i := 0]\<rparr>)"
  unfolding idles_def all_sent_def by (cases "i < length (matchIndex t)") (auto simp: nth_list_update list_update_beyond)

lemma notin_set_update: "y \<notin> set xs \<Longrightarrow> x \<noteq> y \<Longrightarrow> y \<notin> set (xs[i := x])"
  using set_update_subset_insert [of xs i x] by auto

lemma idles_back_off:
  assumes t: "idles s t" and "all_sent t i \<Longrightarrow> ae_entries m = []" and "i < length (nextIndex t)"
  shows "idles s (back_off i m t)"
proof (cases "ae_entries m \<noteq> [] \<and> nextIndex t ! i > 1")
  case True
  then have "nextIndex t ! i - 1 \<noteq> 0" by auto
  moreover have "0 \<notin> set (nextIndex t)" using t by (simp add: idles_def)
  ultimately have nz: "0 \<notin> set ((nextIndex t)[i := nextIndex t ! i - 1])" by (intro notin_set_update)
  have "\<not> all_sent s i" using True assms by (auto simp: idles_def)
  have other: "(nextIndex t)[i := nextIndex t ! i - 1] ! j = nextIndex t ! j" if "all_sent s j" for j
    using that \<open>\<not> all_sent s i\<close> by (cases "i = j") auto
  have "idles s (t\<lparr>nextIndex := (nextIndex t)[i := nextIndex t ! i - 1]\<rparr>)"
    using t nz other by (simp add: idles_def all_sent_def)
  with True show ?thesis by (simp add: back_off_def)
next
  case False
  with t show ?thesis by (auto simp: back_off_def)
qed

lemma send_idles:
  assumes t: "idles s t" and inv: "store_inv (store s)" and i: "i < length (peers s)"
    and len: "length (nextIndex s) = length (peers s)" "length (matchIndex s) = length (peers s)"
    and new: "nothing_new s io i"
  shows "\<exists>u. sendAppendEntries io i t = Inr u \<and> idles s u"
proof -
  have st: "store_inv (store t)" "i < length (peers t)" "i < length (nextIndex t)" "i < length (matchIndex t)"
    "cur_term t = cur_term s" "0 \<notin> set (nextIndex t)"
    using t inv i len by (simp_all add: idles_def)
  have nz: "nextIndex t ! i \<noteq> 0" using st(6) nth_mem [OF st(3)] by metis
  obtain m where m: "prepare_AppendEntries i t = Inr m"
    "ae_entries m = drop (unat (nextIndex t ! i - 1)) (log_of (store t))"
    using prepare_AppendEntries_eq [OF st(1-3) nz] by simp
  obtain r p where rp: "sendRPC io (AppendEntries_serialize m) (peers t ! i) = (r, p)" by fastforce
  then have r: "r = [] \<or> all_sent s i \<and> append_calm (cur_term s) r"
    using new unfolding nothing_new_def by (metis fst_conv)
  have sent: "ae_entries m = []" if "all_sent t i"
    using that m(2) store_inv_length [OF st(1)] by (simp add: all_sent_def)
  let ?t = "t\<lparr>peers := (peers t)[i := p]\<rparr>"
  have t1: "idles s ?t" using t by (rule idles_call)
  have "\<exists>u. handle_append_reply i m r ?t = Inr u \<and> idles s u"
  proof (cases "r = []")
    case True
    have "idles s (back_off i m (?t\<lparr>matchIndex := (matchIndex ?t)[i := 0]\<rparr>))"
      by (rule idles_back_off [OF idles_forget [OF t1]]) (use st(3) sent in \<open>simp_all add: all_sent_def\<close>)
    with True st(4) show ?thesis by (simp add: handle_append_reply_def Let_def)
  next
    case False
    with r t have "all_sent t i" and calm: "append_calm (cur_term t) r"
      using st(5) by (auto simp: idles_def)
    then have "ae_entries m = []" using sent by simp
    with False calm st(4) t1 show ?thesis
      by (auto simp: handle_append_reply_def append_calm_def back_off_def Let_def not_less split: sum.splits)
  qed
  with m(1) rp show ?thesis by (simp add: sendAppendEntries_def)
qed

lemma sendAll_idles:
  assumes t: "idles s t" and inv: "store_inv (store s)"
    and len: "length (nextIndex s) = length (peers s)" "length (matchIndex s) = length (peers s)"
    and new: "\<And>i. i < length (peers s) \<Longrightarrow> nothing_new s (io i) i"
  shows "\<exists>u. sendAll io t = Inr u \<and> idles s u"
  unfolding sendAll_def
proof (rule for_each_total [where P = "idles s"])
  fix i u assume "i \<in> set [0..<length (peers t)]" and u: "idles s u"
  then have "i < length (peers s)" using t by (simp add: idles_def)
  then show "\<exists>u'. sendAppendEntries (io i) i u = Inr u' \<and> idles s u'"
    using send_idles [OF u inv _ len] new by blast
qed (rule t)

lemma backgroundLoop_idles:
  assumes "idles s t" and lead: "state s = LEADER" and inv: "store_inv (store s)"
    and len: "length (nextIndex s) = length (peers s)" "length (matchIndex s) = length (peers s)"
    and "\<And>ev io i. (ev, io) \<in> set rounds \<Longrightarrow> i < length (peers s) \<Longrightarrow> nothing_new s (io 0 i) i"
  shows "\<exists>u. backgroundLoop rounds t = Inr u \<and> idles s u"
  using assms(1,6)
proof (induction rounds arbitrary: t)
  case (Cons r rounds)
  obtain ev io where r: "r = (ev, io)" by fastforce
  have "\<exists>u. background_step ev io t = Inr u \<and> idles s u"
    using sendAll_idles [OF idles_beat [OF Cons.prems(1)] inv len, of "io 0" "fst (ev 2)"] Cons.prems r lead
    by (auto simp: background_step_def Let_def idles_def)
  then obtain u where u: "background_step ev io t = Inr u" "idles s u" by blast
  have "\<exists>v. backgroundLoop rounds u = Inr v \<and> idles s v"
    by (rule Cons.IH [OF u(2)]) (use Cons.prems(2) in auto)
  with u(1) r Cons.prems(1) show ?case by simp
qed simp

section \<open>A write that is never committed\<close>

text \<open>A peer that answers every message with success.\<close>

definition confirming :: "u64 \<Rightarrow> rpc_io" where
  "confirming t = \<lparr>io_connect = Some 5, io_send = 0,
     io_recv = (\<lambda>req. AppendEntriesResponse_serialize \<lparr>ar_term = t, ar_success = True\<rparr>)\<rparr>"

lemma sendRPC_confirming:
  "fst (sendRPC (confirming t) req p) = AppendEntriesResponse_serialize \<lparr>ar_term = t, ar_success = True\<rparr>"
  "connected (snd (sendRPC (confirming t) req p))"
  by (simp_all add: sendRPC_def confirming_def Let_def wait_connected_def backgroundConnect_step_def
      AppendEntriesResponse_serialize_def push_uint64_def)

lemma append_calm_confirming: "append_calm t (AppendEntriesResponse_serialize \<lparr>ar_term = t, ar_success = True\<rparr>)"
  using AppendEntriesResponse_roundtrip_append [of "\<lparr>ar_term = t, ar_success = True\<rparr>" "[]"] by (simp add: append_calm_def)

lemma confirmed:
  assumes ok: "node_ok s" and s: "state s = LEADER" "cur_term s = t" "length (peers s) = 3"
    and i: "i < 3" "nextIndex s ! i = 1" "matchIndex s ! i = 0"
    and L: "length (log_of (store s)) = n" "0 < n"
  obtains p where "connected p" and "sendAppendEntries (confirming t) i s = advanceCommitIndex (s\<lparr>peers := (peers s)[i := p],
      matchIndex := (matchIndex s)[i := of_nat n], nextIndex := (nextIndex s)[i := of_nat n + 1]\<rparr>)"
proof -
  have inv: "store_inv (store s)" and len: "length (nextIndex s) = 3" "length (matchIndex s) = 3"
    using ok s(1,3) by (auto simp: node_ok_def)
  obtain m where m: "prepare_AppendEntries i s = Inr m" "ae_prevLogIndex m = 0" "ae_entries m = log_of (store s)"
    using prepare_AppendEntries_eq [OF inv, of i] i s(3) len by simp
  obtain r p where rp: "sendRPC (confirming t) (AppendEntries_serialize m) (peers s ! i) = (r, p)" by fastforce
  then have r: "r = AppendEntriesResponse_serialize \<lparr>ar_term = t, ar_success = True\<rparr>" "connected p"
    using sendRPC_confirming by (metis fst_conv, metis snd_conv)
  have "handle_append_reply i m r (s\<lparr>peers := (peers s)[i := p]\<rparr>) = advanceCommitIndex (s\<lparr>peers := (peers s)[i := p],
      matchIndex := (matchIndex s)[i := of_nat n], nextIndex := (nextIndex s)[i := of_nat n + 1]\<rparr>)"
    using AppendEntriesResponse_roundtrip_append [of "\<lparr>ar_term = t, ar_success = True\<rparr>" "[]"] r m(2,3) L s(2) i len
      response_tags(3,4) [of "\<lparr>ar_term = t, ar_success = True\<rparr>"]
    by (cases "log_of (store s) = []") (simp_all add: handle_append_reply_def Let_def max_def)
  with m(1) rp r(2) that show ?thesis by (simp add: sendAppendEntries_def)
qed

text \<open>Of four nodes the leader and one peer are no majority, the leader and two peers are.\<close>

lemma advance_none:
  assumes inv: "store_inv (store s)" "length (matchIndex s) = length (peers s)" and zero: "getCommit (store s) = 0"
    and few: "\<And>x. 0 < x \<Longrightarrow> \<not> committable s x"
  shows "advanceCommitIndex s = Inr s"
proof -
  obtain c where c: "commit_target s c" "advanceCommitIndex s = Inr (if c > getCommit (store s)
      then let s = on_store (setCommit c) s in
        if c > getApplied (store s)
        then on_store (setApplied c) (s\<lparr>sm := run_log (newly_applied (store s)) (sm s)\<rparr>) else s
      else s)" by (rule advanceCommitIndex_eq [OF inv])
  have "c = 0" using c(1) few zero by (auto simp: commit_target_def)
  with c(2) show ?thesis by simp
qed

lemma advance_all:
  assumes inv: "store_inv (store s)" "length (matchIndex s) = length (peers s)" and ok: "committed_ok s"
    and "committable s (getLastLogIndex (store s))"
  obtains s' where "advanceCommitIndex s = Inr s'" and "getLastLogIndex (store s) \<le> getCommit (store s')"
proof -
  obtain s' where s': "advanceCommitIndex s = Inr s'" "commit_target s (getCommit (store s'))"
    by (rule advanceCommitIndex_committed [OF inv ok])
  have "getLastLogIndex (store s) \<le> getCommit (store s')"
    using s'(2) assms(4) by (cases "getCommit (store s) < getLastLogIndex (store s)") (auto simp: commit_target_def)
  with s'(1) that show ?thesis by blast
qed

lemma confirmed_alone:
  assumes ok: "node_ok s" and s: "state s = LEADER" "cur_term s = t" "length (peers s) = 3" "getCommit (store s) = 0"
    and i: "i < 3" "nextIndex s ! i = 1" and zero: "\<And>j. j < 3 \<Longrightarrow> matchIndex s ! j = 0"
    and L: "length (log_of (store s)) = n" "0 < n"
  obtains p where "connected p" and "sendAppendEntries (confirming t) i s = Inr (s\<lparr>peers := (peers s)[i := p],
      matchIndex := (matchIndex s)[i := of_nat n], nextIndex := (nextIndex s)[i := of_nat n + 1]\<rparr>)"
proof -
  have inv: "store_inv (store s)" and len: "length (matchIndex s) = 3"
    using ok s(1,3) by (auto simp: node_ok_def)
  obtain p where p: "connected p" "sendAppendEntries (confirming t) i s = advanceCommitIndex (s\<lparr>peers := (peers s)[i := p],
      matchIndex := (matchIndex s)[i := of_nat n], nextIndex := (nextIndex s)[i := of_nat n + 1]\<rparr>)"
      (is "_ = advanceCommitIndex ?u")
    by (rule confirmed [OF ok s(1-3) i zero [OF i(1)] L])
  have few: "\<not> committable ?u x" if "0 < x" for x
  proof -
    have "filter (\<lambda>j. connected (peers ?u ! j) \<and> matchIndex ?u ! j \<ge> x) [0..<3] =
        filter (\<lambda>j. j = i \<and> connected p \<and> of_nat n \<ge> x) [0..<3]"
      using that zero len i s(3) by (intro filter_cong) (auto simp: nth_list_update)
    then have "holders x ?u \<le> 2" using s(3) i(1) by (simp add: holders_def upt_rec)
    then show ?thesis using s(3) by (simp add: committable_def majority_def)
  qed
  have "advanceCommitIndex ?u = Inr ?u" by (rule advance_none) (use inv len s few in simp_all)
  with p that show ?thesis by simp
qed

text \<open>A heartbeat without an answer.\<close>

lemma unanswered:
  assumes ok: "node_ok s" and i: "i < length (peers s)" "state s = LEADER" and sent: "all_sent s i"
  obtains p where "sendAppendEntries silent i s = Inr (s\<lparr>peers := (peers s)[i := p], matchIndex := (matchIndex s)[i := 0]\<rparr>)"
proof -
  have inv: "store_inv (store s)" and len: "length (nextIndex s) = length (peers s)" "length (matchIndex s) = length (peers s)"
    and nz: "0 \<notin> set (nextIndex s)" using ok i(2) by (auto simp: node_ok_def)
  then have "nextIndex s ! i \<noteq> 0" using i(1) nth_mem by metis
  then obtain m where m: "prepare_AppendEntries i s = Inr m" "ae_entries m = []"
    using prepare_AppendEntries_eq [OF inv i(1)] i(1) len sent store_inv_length [OF inv] by (auto simp: all_sent_def)
  obtain r p where rp: "sendRPC silent (AppendEntries_serialize m) (peers s ! i) = (r, p)" by fastforce
  then have "r = []" using sendRPC_silent by (metis fst_conv)
  with m rp that i(1) len show ?thesis
    by (simp add: sendAppendEntries_def handle_append_reply_def back_off_def Let_def)
qed

text \<open>A node of four that has just won an election, connected to all others, and takes a write.\<close>

definition four_leader :: RaftNode where
  "four_leader = take_office (election_begin (\<lambda>k. (0, 0)) (fresh_node 1
     (map (\<lambda>p. (Peer_init p ''127.0.0.1'' (7000 + p))\<lparr>connected := True, sock_fd := 5\<rparr>) [2, 3, 4])))"

definition four_written :: RaftNode where
  "four_written = on_store (append_entry (new_entry put_kv four_leader)) four_leader"

lemma four_leader_sel:
  "state four_leader = LEADER" "cur_term four_leader = 1" "nextIndex four_leader = [1, 1, 1]"
  "matchIndex four_leader = [0, 0, 0]" "getCommit (store four_leader) = 0" "sm four_leader = StateMachine_init"
  "getApplied (store four_leader) = 0" "list_all connected (peers four_leader)" "length (peers four_leader) = 3"
  "logLen (store four_leader) = 1"
  by (simp_all add: four_leader_def take_office_def election_begin_def reset_timer_def fresh_node_def Let_def
      numeral_3_eq_3 mk_LogEntry_def)

lemma four_leader_ok:
  shows "node_ok four_leader" and "length (log_of (store four_leader)) = 1"
    and "last_term (log_of (store four_leader)) = 1"
proof -
  let ?c = "election_begin (\<lambda>k. (0, 0)) (fresh_node 1
     (map (\<lambda>p. (Peer_init p ''127.0.0.1'' (7000 + p))\<lparr>connected := True, sock_fd := 5\<rparr>) [2, 3, 4]))"
  have "log_room ?c" by (simp add: log_room_def election_begin_eq log_of_fresh)
  note office = node_ok_take_office [OF election_begin_node_ok [OF node_ok_fresh] this]
  show "node_ok four_leader" "length (log_of (store four_leader)) = 1"
    using office unfolding four_leader_def by (simp_all add: election_begin_eq log_of_fresh)
  show "last_term (log_of (store four_leader)) = 1"
    using office(2) unfolding four_leader_def last_term_def
    by (simp add: election_begin_eq log_of_fresh mk_LogEntry_def Let_def) (simp add: fresh_node_def)
qed

lemma four_written_ok:
  shows "node_ok four_written" and "length (log_of (store four_written)) = 2"
    and "last_term (log_of (store four_written)) = 1" and "committed_ok four_written"
    and "submit_append put_kv four_leader = Inr (2, four_written)"
proof -
  have room: "log_room four_leader" using four_leader_ok(2) by (simp add: log_room_def)
  note new = node_ok_new_entry [OF four_leader_ok(1) room put_kv_ok]
  show "node_ok four_written" "length (log_of (store four_written)) = 2"
    using new four_leader_ok(2) by (simp_all add: four_written_def)
  show "last_term (log_of (store four_written)) = 1" using new(2) four_leader_sel(2)
    by (simp add: four_written_def last_term_def mk_LogEntry_def Let_def)
  show "committed_ok four_written" using four_leader_sel(5-7) by (simp add: four_written_def committed_ok_def)
  have "Requestable four_leader"
    using four_leader_sel(8,9) by (simp add: Requestable_def list_all_iff filter_id_conv)
  with four_leader_sel(1,10) show "submit_append put_kv four_leader = Inr (2, four_written)"
    by (simp add: submit_append_eq four_written_def)
qed

text \<open>
  C27. One lost answer can block a write for good: in a cluster of four the leader takes a write;
  two peers confirm it, which makes it committed. But when the first of them, between the two
  answers, leaves one heartbeat unanswered, the write is not committed, and stays so in whatever
  rounds of the background thread follow, at whatever times \<open>evs\<close>, and after any number \<open>n\<close> of
  heartbeats sent to all peers, although both confirm every message: \<^verbatim>\<open>submit\<close> does not return.
\<close>

theorem lost_answer_blocks_write:
  "\<exists>s1 s2 s3 s4 s5 s. submit_append put_kv four_leader = Inr (2, four_written)
    \<and> sendAppendEntries (confirming 1) 0 four_written = Inr s1
    \<and> sendAppendEntries (confirming 1) 1 s1 = Inr s \<and> 2 \<le> getCommit (store s)
    \<and> sendAppendEntries silent 0 s1 = Inr s2
    \<and> sendAppendEntries (confirming 1) 1 s2 = Inr s3
    \<and> backgroundLoop (map (\<lambda>ev. (ev, \<lambda>k i. if i < 2 then confirming 1 else silent)) evs) s3 = Inr s4
    \<and> state s4 = LEADER \<and> cur_term s4 = 1 \<and> getCommit (store s4) < 2
    \<and> for_each (\<lambda>k. sendAll (\<lambda>i. if i < 2 then confirming 1 else silent)) [0..<n] s4 = Inr s5
    \<and> state s5 = LEADER \<and> cur_term s5 = 1 \<and> getCommit (store s5) < 2"
proof -
  let ?s = four_written
  have L: "length (log_of (store ?s)) = 2" by (rule four_written_ok(2))
  have inv: "store_inv (store ?s)" by (rule node_ok_store [OF four_written_ok(1)])
  have last: "getLastLogIndex (store ?s) = 2" using inv L by (simp add: store_inv_def)
  have sel: "state ?s = LEADER" "cur_term ?s = 1" "nextIndex ?s = [1, 1, 1]" "matchIndex ?s = [0, 0, 0]"
    "getCommit (store ?s) = 0" "length (peers ?s) = 3" "running ?s = running four_leader"
    using four_leader_sel by (simp_all add: four_written_def)
  have nth0: "j < 3 \<Longrightarrow> [0, 0, 0 :: u64] ! j = 0" for j by (auto simp: less_Suc_eq numeral_3_eq_3)
  obtain p0 where p0: "connected p0" "sendAppendEntries (confirming 1) 0 ?s =
      Inr (?s\<lparr>peers := (peers ?s)[0 := p0], matchIndex := [2, 0, 0], nextIndex := [3, 1, 1]\<rparr>)" (is "_ = Inr ?s1")
    by (rule confirmed_alone [OF four_written_ok(1) sel(1,2,6,5), of 0 2]) (use sel(3,4) nth0 L in simp_all)
  have ok1: "node_ok ?s1" using four_written_ok(1) sel by (simp add: node_ok_def)
  obtain p1 where p1: "connected p1" "sendAppendEntries (confirming 1) 1 ?s1 = advanceCommitIndex
      (?s1\<lparr>peers := (peers ?s1)[1 := p1], matchIndex := [2, 2, 0], nextIndex := [3, 3, 1]\<rparr>)" (is "_ = advanceCommitIndex ?t")
    by (rule confirmed [OF ok1, of 1 1 2]) (use sel L in simp_all)
  have t: "store_inv (store ?t)" "length (matchIndex ?t) = length (peers ?t)" "committed_ok ?t"
    using inv sel four_written_ok(4) by (simp_all add: committed_ok_def)
  have "entry_term (log_of (store ?s)) 2 = 1"
    using four_written_ok(3) L by (cases "log_of (store ?s) = []") (simp_all add: entry_term_def last_term_def last_conv_nth)
  then have "committable ?t (getLastLogIndex (store ?t))"
    using sel p0(1) p1(1) last by (simp add: committable_def holders_def majority_def upt_rec)
  then obtain s where "advanceCommitIndex ?t = Inr s" "getLastLogIndex (store ?t) \<le> getCommit (store s)"
    by (rule advance_all [OF t])
  with last have s: "advanceCommitIndex ?t = Inr s" "2 \<le> getCommit (store s)" by simp_all
  obtain q0 where q0: "sendAppendEntries silent 0 ?s1 = Inr (?s1\<lparr>peers := (peers ?s1)[0 := q0], matchIndex := [0, 0, 0]\<rparr>)"
    (is "_ = Inr ?s2")
    by (rule unanswered [OF ok1, of 0]) (use sel last in \<open>simp_all add: all_sent_def\<close>)
  have ok2: "node_ok ?s2" using ok1 by (simp add: node_ok_def)
  obtain q1 where q1: "sendAppendEntries (confirming 1) 1 ?s2 =
      Inr (?s2\<lparr>peers := (peers ?s2)[1 := q1], matchIndex := [0, 2, 0], nextIndex := [3, 3, 1]\<rparr>)" (is "_ = Inr ?s3")
    by (rule confirmed_alone [OF ok2, of 1 1 2]) (use sel nth0 L in simp_all)
  have self: "idles ?s3 ?s3" by (rule idles_refl) simp
  have new: "nothing_new ?s3 (if i < 2 then confirming 1 else silent) i" if "i < 3" for i
    using that append_calm_confirming [of 1] last sel(2)
    by (auto simp: nothing_new_def sendRPC_confirming sendRPC_silent all_sent_def less_2_cases_iff)
  obtain s4 where s4: "backgroundLoop (map (\<lambda>ev. (ev, \<lambda>k i. if i < 2 then confirming 1 else silent)) evs) ?s3 = Inr s4"
    "idles ?s3 s4"
    using backgroundLoop_idles [OF self, of "map (\<lambda>ev. (ev, \<lambda>k i. if i < 2 then confirming 1 else silent)) evs"]
      new inv sel by auto
  have again: "\<exists>u. sendAll (\<lambda>i. if i < 2 then confirming 1 else silent) t = Inr u \<and> idles ?s3 u" if "idles ?s3 t" for t
    by (rule sendAll_idles [OF that]) (use inv sel new in simp_all)
  obtain s5 where s5: "for_each (\<lambda>k. sendAll (\<lambda>i. if i < 2 then confirming 1 else silent)) [0..<n] s4 = Inr s5"
    "idles ?s3 s5"
    using for_each_total [where P = "idles ?s3" and f = "\<lambda>k. sendAll (\<lambda>i. if i < 2 then confirming 1 else silent)"
        and xs = "[0..<n]", OF s4(2)] again by blast
  have "state s4 = LEADER" "cur_term s4 = 1" "getCommit (store s4) < 2"
    "state s5 = LEADER" "cur_term s5 = 1" "getCommit (store s5) < 2"
    using s4(2) s5(2) sel by (simp_all add: idles_def)
  with four_written_ok(5) p0(2) p1(2) s q0 q1 s4(1) s5(1) show ?thesis by auto
qed

end
