(* ===== verification/ServerMain.thy ===== *)
theory ServerMain
  imports TcpServer
begin

text \<open>
  The command line of \<^verbatim>\<open>src/server.cpp\<close> and the way \<^verbatim>\<open>main\<close> puts the node together. The peer list
  \<^verbatim>\<open>id@ip:port,...\<close> is read back exactly from its printed form.
\<close>

section \<open>The code\<close>

text \<open>\<^verbatim>\<open>std::string::find\<close> of a character from a position; \<open>None\<close> is \<^verbatim>\<open>npos\<close>.\<close>

definition find_char :: "char \<Rightarrow> nat \<Rightarrow> string \<Rightarrow> nat option" where
  "find_char c from s =
     (let n = length (takeWhile (\<lambda>x. x \<noteq> c) (drop from s))
      in if from + n < length s then Some (from + n) else None)"

text \<open>\<^verbatim>\<open>while (std::getline(ss, token, ','))\<close>: no token behind a comma at the end.\<close>

fun getline_tokens :: "char \<Rightarrow> string \<Rightarrow> string \<Rightarrow> string list" where
  "getline_tokens d acc [] = (if acc = [] then [] else [acc])"
| "getline_tokens d acc (c # cs) =
     (if c = d then acc # getline_tokens d [] cs else getline_tokens d (acc @ [c]) cs)"

definition parse_peer :: "string \<Rightarrow> Peer option result" where
  "parse_peer token =
     (case find_char CHR ''@'' 0 token of
        None \<Rightarrow> Inr None
      | Some at_pos \<Rightarrow>
          (case find_char CHR '':'' at_pos token of
             None \<Rightarrow> Inr None
           | Some colon_pos \<Rightarrow>
               bind_result (stoi (take at_pos token)) (\<lambda>p_id.
               let p_ip = take (colon_pos - at_pos - 1) (drop (at_pos + 1) token) in
               bind_result (stoi (drop (colon_pos + 1) token)) (\<lambda>p_port.
               Inr (Some (Peer_init p_id p_ip p_port))))))"

definition parse_peers :: "string \<Rightarrow> Peer list \<Rightarrow> Peer list result" where
  "parse_peers str ps =
     for_each (\<lambda>token ps. bind_result (parse_peer token) (\<lambda>p.
       Inr (case p of None \<Rightarrow> ps | Some p \<Rightarrow> ps @ [p]))) (getline_tokens CHR '','' [] str) ps"

text \<open>The variables of \<^verbatim>\<open>main\<close>; \<open>chdirs\<close> are the directories entered so far, in order.\<close>

record Config =
  client_port :: c_int
  raft_port :: c_int
  cfg_node_id :: c_int
  data_dir :: string
  chdirs :: "string list"
  cfg_peers :: "Peer list"

definition Config_default :: Config where
  "Config_default =
     \<lparr>client_port = 6001, raft_port = 7001, cfg_node_id = 1, data_dir = ''.'', chdirs = [], cfg_peers = []\<rparr>"

text \<open>
  The argument loop. An option that needs a value and is the last argument falls through to the
  \<^verbatim>\<open>isdigit\<close> test, which no option name passes.
\<close>

definition is_option :: "string \<Rightarrow> bool" where
  "is_option arg \<longleftrightarrow> arg \<in> {''--id'', ''--port'', ''--raft-port'', ''--peers'', ''--data'', ''-port''}"

definition set_option :: "string \<Rightarrow> string \<Rightarrow> Config \<Rightarrow> Config result" where
  "set_option arg val cfg =
     (if arg = ''--id'' then bind_result (stoi val) (\<lambda>n. Inr (cfg\<lparr>cfg_node_id := n\<rparr>))
      else if arg = ''--port'' then bind_result (stoi val) (\<lambda>n. Inr (cfg\<lparr>client_port := n\<rparr>))
      else if arg = ''--raft-port'' then bind_result (stoi val) (\<lambda>n. Inr (cfg\<lparr>raft_port := n\<rparr>))
      else if arg = ''--peers'' then bind_result (parse_peers val (cfg_peers cfg)) (\<lambda>ps. Inr (cfg\<lparr>cfg_peers := ps\<rparr>))
      else if arg = ''--data'' then Inr (cfg\<lparr>data_dir := val, chdirs := chdirs cfg @ [val]\<rparr>)
      else bind_result (stoi val) (\<lambda>n. Inr (cfg\<lparr>client_port := n\<rparr>)))"

definition plain_argument :: "string \<Rightarrow> Config \<Rightarrow> Config result" where
  "plain_argument arg cfg =
     (if arg \<noteq> [] \<and> is_digit (hd arg) then bind_result (stoi arg) (\<lambda>n. Inr (cfg\<lparr>cfg_node_id := n\<rparr>))
      else Inr cfg)"

fun parse_args :: "string list \<Rightarrow> Config \<Rightarrow> Config result" where
  "parse_args [] cfg = Inr cfg"
| "parse_args [arg] cfg = plain_argument arg cfg"
| "parse_args (arg # val # rest) cfg =
     (if is_option arg then bind_result (set_option arg val cfg) (parse_args rest)
      else bind_result (plain_argument arg cfg) (parse_args (val # rest)))"

text \<open>
  What \<^verbatim>\<open>main\<close> does before it waits for the threads: the node is opened on the files of the
  directory it has changed to, \<open>files\<close>, the server on the descriptors \<^verbatim>\<open>socket\<close> returns, and the
  background thread starts with a fresh timer.
\<close>

definition server_main ::
  "readings \<Rightarrow> (string list \<Rightarrow> Disk) \<Rightarrow> int \<Rightarrow> int \<Rightarrow> string list \<Rightarrow> (Config \<times> RaftNode \<times> TCPServer) result" where
  "server_main ev files cfd rfd args =
     bind_result (parse_args args Config_default) (\<lambda>cfg.
     bind_result (RaftNode_init ev (cfg_node_id cfg) (cfg_peers cfg) (files (chdirs cfg))) (\<lambda>s.
     Inr (cfg, startBackground (ev \<circ> Suc) s, TCPServer_init cfd rfd)))"

section \<open>Peer lists\<close>

definition peer_text :: "c_int \<times> string \<times> c_int \<Rightarrow> string" where
  "peer_text p = (case p of (pid, ip, port) \<Rightarrow> to_string_cint pid @ ''@'' @ ip @ '':'' @ to_string_cint port)"

fun peers_text :: "(c_int \<times> string \<times> c_int) list \<Rightarrow> string" where
  "peers_text [] = []"
| "peers_text [p] = peer_text p"
| "peers_text (p # q # ps) = peer_text p @ '','' @ peers_text (q # ps)"

definition ip_ok :: "string \<Rightarrow> bool" where
  "ip_ok ip \<longleftrightarrow> CHR ''@'' \<notin> set ip \<and> CHR '':'' \<notin> set ip \<and> CHR '','' \<notin> set ip"

lemma find_char_eq:
  assumes "drop from s = xs @ c # ys" and "c \<notin> set xs"
  shows "find_char c from s = Some (from + length xs)"
proof -
  have "takeWhile (\<lambda>x. x \<noteq> c) (xs @ c # ys) = xs" using assms(2) by (subst takeWhile_append) auto
  moreover have "from + length xs < length s"
  proof -
    have "length (drop from s) = length xs + Suc (length ys)" using assms(1) by simp
    then show ?thesis by simp
  qed
  ultimately show ?thesis using assms(1) by (simp add: find_char_def)
qed

lemma stoi_to_string_cint:
  assumes "rest = [] \<or> \<not> is_digit (hd rest)"
  shows "stoi (to_string_cint i @ rest) = Inr i"
proof -
  have "- (2 ^ 31) \<le> sint i" "sint i < 2 ^ 31" using sint_ge [of i] sint_lt [of i] by simp_all
  from stoi_to_string_int [OF this assms] show ?thesis by (simp add: to_string_cint_def)
qed

text \<open>The separators do not occur in numbers.\<close>

lemma to_string_cint_chars: "c \<in> set (to_string_cint i) \<Longrightarrow> is_digit c \<or> c = CHR ''-''"
  using decimal_digits by (auto simp: to_string_cint_def to_string_int_def split: if_splits)

lemma separators [simp]:
  "CHR ''@'' \<notin> set (to_string_cint i)" "CHR '':'' \<notin> set (to_string_cint i)" "CHR '','' \<notin> set (to_string_cint i)"
  using to_string_cint_chars [of "CHR ''@''" i] to_string_cint_chars [of "CHR '':''" i]
    to_string_cint_chars [of "CHR '',''" i] by (auto simp: is_digit_def)

lemma parse_peer_text:
  assumes "ip_ok ip"
  shows "parse_peer (peer_text (pid, ip, port)) = Inr (Some (Peer_init pid ip port))"
proof -
  let ?a = "to_string_cint pid" and ?p = "to_string_cint port"
  have s: "peer_text (pid, ip, port) = ?a @ CHR ''@'' # ip @ CHR '':'' # ?p" by (simp add: peer_text_def)
  have at: "find_char CHR ''@'' 0 (peer_text (pid, ip, port)) = Some (length ?a)"
    using find_char_eq [of 0 "peer_text (pid, ip, port)" ?a "CHR ''@''"] by (simp add: s)
  have colon: "find_char CHR '':'' (length ?a) (peer_text (pid, ip, port)) = Some (length ?a + Suc (length ip))"
    using find_char_eq [of "length ?a" "peer_text (pid, ip, port)" "CHR ''@'' # ip" "CHR '':''" ?p] assms
    by (simp add: s ip_ok_def)
  have "stoi ?a = Inr pid" "stoi ?p = Inr port" using stoi_to_string_cint [of "[]"] by simp_all
  then show ?thesis by (simp add: parse_peer_def at colon) (simp add: s)
qed

lemma getline_tokens_append:
  "d \<notin> set xs \<Longrightarrow> getline_tokens d acc (xs @ rest) = getline_tokens d (acc @ xs) rest"
  by (induction xs arbitrary: acc) auto

lemma getline_tokens_peers:
  "\<forall>p \<in> set ps. ip_ok (fst (snd p)) \<Longrightarrow> getline_tokens CHR '','' [] (peers_text ps) = map peer_text ps"
proof (induction ps rule: peers_text.induct)
  case 1
  show ?case by simp
next
  case (2 p)
  then have "CHR '','' \<notin> set (peer_text p)" by (auto simp: peer_text_def ip_ok_def split: prod.splits)
  moreover have "peer_text p \<noteq> []" by (simp add: peer_text_def split: prod.splits)
  ultimately show ?case using getline_tokens_append [of "CHR '',''" "peer_text p" "[]" "[]"] by simp
next
  case (3 p q ps)
  then have "CHR '','' \<notin> set (peer_text p)" by (auto simp: peer_text_def ip_ok_def split: prod.splits)
  with 3 show ?case by (simp add: getline_tokens_append)
qed

lemma parse_peers_text:
  assumes "\<forall>p \<in> set ps. ip_ok (fst (snd p))"
  shows "parse_peers (peers_text ps) acc = Inr (acc @ map (\<lambda>(pid, ip, port). Peer_init pid ip port) ps)"
proof -
  let ?step = "\<lambda>token ps. bind_result (parse_peer token) (\<lambda>p.
       Inr (case p of None \<Rightarrow> ps | Some p \<Rightarrow> ps @ [p]))"
  have "for_each ?step (map peer_text ps) acc = Inr (acc @ map (\<lambda>(pid, ip, port). Peer_init pid ip port) ps)"
    using assms by (induction ps arbitrary: acc) (auto simp: parse_peer_text)
  then show ?thesis by (simp add: parse_peers_def getline_tokens_peers [OF assms])
qed

end
