(* ===== verification/Client.thy ===== *)
theory Client
  imports ServerMain
begin

text \<open>
  The command line client, \<^verbatim>\<open>src/client.cpp\<close>: a line of input becomes a packet, and a packet is
  sent at most three times, following \<^verbatim>\<open>NOT_LEADER\<close> answers to the leader's port. The lemmas tie
  the client to the server's handlers: what the client encodes the server decodes, and the
  leader id the server prints is the one the client connects to.
\<close>

section \<open>Connecting\<close>

text \<open>\<open>sock\<close> is what \<^verbatim>\<open>socket\<close> returns and \<open>rc\<close> what \<^verbatim>\<open>connect\<close> to the port returns.\<close>

definition connect_to_server :: "int \<Rightarrow> int \<Rightarrow> int" where
  "connect_to_server sock rc = (if sock < 0 then -1 else if rc < 0 then -1 else sock)"

section \<open>Lines to packets\<close>

definition toupper :: "char \<Rightarrow> char" where
  "toupper c = (if 97 \<le> (of_char c :: nat) \<and> (of_char c :: nat) \<le> 122 then char_of ((of_char c :: nat) - 32) else c)"

text \<open>\<^verbatim>\<open>iss >> word\<close>: skip white space, then take what is not; the rest of the stream behind it.\<close>

definition next_word :: "string \<Rightarrow> string \<times> string" where
  "next_word s =
     (let t = dropWhile is_space s
      in (takeWhile (\<lambda>c. \<not> is_space c) t, dropWhile (\<lambda>c. \<not> is_space c) t))"

datatype request = Skip | Unknown | QuitPacket "byte list" | Packet "byte list"

definition parse_line :: "string \<Rightarrow> request" where
  "parse_line line =
     (if line = [] then Skip
      else
        let (w, rest) = next_word line; cmd = map toupper w in
        if cmd = CHR 0x5C # ''STATUS'' then Packet [of_char CHR ''S'']
        else if cmd = ''QUIT'' then QuitPacket [of_char CHR ''Q'']
        else if cmd = ''GET'' then
          let (key, _) = next_word rest in Packet (of_char CHR ''G'' # bytes_of key)
        else if cmd = ''PUT'' then
          let (key, rest) = next_word rest; (val, _) = next_word rest
          in Packet (of_char CHR ''C'' # Command_serialize (mk_Command PUT key val))
        else if cmd = ''DELETE'' then
          let (key, _) = next_word rest
          in Packet (of_char CHR ''C'' # Command_serialize (mk_Command DELETE key []))
        else Unknown)"

section \<open>Sending with retries\<close>

text \<open>The position of the first occurrence, \<^verbatim>\<open>std::string::find\<close> of a string.\<close>

fun find_sub :: "string \<Rightarrow> string \<Rightarrow> nat option" where
  "find_sub pat [] = (if pat = [] then Some 0 else None)"
| "find_sub pat (c # cs) =
     (if take (length pat) (c # cs) = pat then Some 0 else map_option Suc (find_sub pat cs))"

text \<open>\<^verbatim>\<open>erase(find_last_not_of(" \n\r\t") + 1)\<close>.\<close>

definition trim_right :: "string \<Rightarrow> string" where
  "trim_right s = rev (dropWhile (\<lambda>c. (of_char c :: nat) \<in> {32, 10, 13, 9}) (rev s))"

text \<open>
  The answer as the client sees it: up to 4095 bytes, and as a C string only up to the first
  NUL byte.
\<close>

definition response_text :: "byte list \<Rightarrow> string" where
  "response_text bs = takeWhile (\<lambda>c. (of_char c :: nat) \<noteq> 0) (string_of (take 4095 bs))"

datatype verdict = Redirect c_int | Retry | Show string

definition read_response :: "string \<Rightarrow> verdict result" where
  "read_response response =
     (if find_sub ''NOT_LEADER leader_id='' response \<noteq> None then
        (case find_sub ''leader_id='' response of
           None \<Rightarrow> Inr Retry
         | Some pos \<Rightarrow>
             bind_result (stoi (trim_right (drop (pos + 10) response))) (\<lambda>leader_id.
             if sint leader_id + 6000 < 2 ^ 31 then Inr (Redirect (6000 + leader_id))
             else Inl Undefined))
      else if find_sub ''NOT_LEADER unknown'' response \<noteq> None then Inr Retry
      else Inr (Show response))"

text \<open>
  One attempt: what \<^verbatim>\<open>send\<close> returns, what \<^verbatim>\<open>recv\<close> delivers (\<open>None\<close> on an error, nothing when the
  server has closed), and what \<^verbatim>\<open>socket\<close> and \<^verbatim>\<open>connect\<close> to a port return.
\<close>

record attempt =
  at_send :: int
  at_recv :: "byte list option"
  at_socket :: int
  at_connect :: "c_int \<Rightarrow> int"

datatype outcome = Shown string | Send_failed | Receive_error | Closed | Gave_up | No_leader c_int

text \<open>
  The retry loop: the number of attempts made, how it ended and the socket in use. \<open>No_leader\<close>
  ends the program with exit code 1.
\<close>

fun retry_loop :: "(nat \<Rightarrow> attempt) \<Rightarrow> nat \<Rightarrow> nat \<Rightarrow> int \<Rightarrow> (nat \<times> outcome \<times> int) result" where
  "retry_loop env 0 k sock = Inr (k, Gave_up, sock)"
| "retry_loop env (Suc r) k sock =
     (if at_send (env k) < 0 then Inr (Suc k, Send_failed, sock)
      else case at_recv (env k) of
        None \<Rightarrow> Inr (Suc k, Receive_error, sock)
      | Some [] \<Rightarrow> Inr (Suc k, Closed, sock)
      | Some (b # bs) \<Rightarrow>
          bind_result (read_response (response_text (b # bs))) (\<lambda>v.
          case v of
            Redirect port \<Rightarrow>
              let sock' = connect_to_server (at_socket (env k)) (at_connect (env k) port) in
              if sock' < 0 then Inr (Suc k, No_leader port, sock') else retry_loop env r (Suc k) sock'
          | Retry \<Rightarrow> retry_loop env r (Suc k) sock
          | Show text \<Rightarrow> Inr (Suc k, Shown text, sock)))"

definition client_exchange :: "(nat \<Rightarrow> attempt) \<Rightarrow> int \<Rightarrow> (nat \<times> outcome \<times> int) result" where
  "client_exchange env sock = retry_loop env 3 0 sock"

text \<open>
  The main loop over the lines of standard input, each with the attempts it would see: the
  outcomes that were reached, and the exit code.
\<close>

fun client_lines :: "(string \<times> int \<times> (nat \<Rightarrow> attempt)) list \<Rightarrow> int \<Rightarrow> (outcome list \<times> nat) result" where
  "client_lines [] sock = Inr ([], 0)"
| "client_lines ((line, quit_send, env) # rest) sock =
     (case parse_line line of
        Skip \<Rightarrow> client_lines rest sock
      | Unknown \<Rightarrow> client_lines rest sock
      | QuitPacket p \<Rightarrow> Inr (if quit_send < 0 then [Send_failed] else [], 0)
      | Packet p \<Rightarrow>
          bind_result (client_exchange env sock) (\<lambda>(n, oc, sock).
          case oc of
            No_leader port \<Rightarrow> Inr ([oc], 1)
          | _ \<Rightarrow> bind_result (client_lines rest sock) (\<lambda>(ocs, code). Inr (oc # ocs, code))))"

text \<open>
  \<^verbatim>\<open>main\<close>: the port is the second argument, 6001 without one.
\<close>

definition client_main ::
  "string list \<Rightarrow> int \<Rightarrow> (c_int \<Rightarrow> int) \<Rightarrow> (string \<times> int \<times> (nat \<Rightarrow> attempt)) list \<Rightarrow> (outcome list \<times> nat) result" where
  "client_main args fd connect input =
     bind_result (if length args \<ge> 2 then stoi (args ! 1) else Inr 6001) (\<lambda>port.
     let sock = connect_to_server fd (connect port) in
     if sock < 0 then Inr ([], 1) else client_lines input sock)"

section \<open>Properties\<close>

lemma retry_loop_bound:
  assumes "retry_loop env r k sock = Inr (n, oc, sock')"
  shows "n \<le> k + r \<and> (oc = Gave_up \<longrightarrow> n = k + r)"
  using assms
  by (induction env r k sock rule: retry_loop.induct)
    (auto simp: Let_def split: if_splits option.splits list.splits verdict.splits elim!: bind_result_InrE)

text \<open>Words of a line.\<close>

definition word_ok :: "string \<Rightarrow> bool" where
  "word_ok w \<longleftrightarrow> w \<noteq> [] \<and> (\<forall>c \<in> set w. \<not> is_space c)"

lemma next_word_eq:
  assumes "word_ok w" and "rest = [] \<or> is_space (hd rest)"
  shows "next_word (w @ rest) = (w, rest)" and "next_word (CHR '' '' # w @ rest) = (w, rest)"
proof -
  obtain c cs where w: "w = c # cs" using assms(1) by (cases w) (auto simp: word_ok_def)
  have "takeWhile (\<lambda>c. \<not> is_space c) (w @ rest) = w" "dropWhile (\<lambda>c. \<not> is_space c) (w @ rest) = rest"
    using assms by (cases rest; simp add: word_ok_def takeWhile_append2 dropWhile_append2)+
  moreover have "dropWhile is_space (w @ rest) = w @ rest" using assms(1) by (simp add: w word_ok_def)
  moreover have "is_space CHR '' ''" by (simp add: is_space_def)
  ultimately show "next_word (w @ rest) = (w, rest)" "next_word (CHR '' '' # w @ rest) = (w, rest)"
    by (simp_all add: next_word_def)
qed

lemma parse_line_put:
  assumes "word_ok k" and "word_ok v"
  shows "parse_line (''PUT '' @ k @ '' '' @ v) = Packet (of_char CHR ''C'' # Command_serialize (mk_Command PUT k v))"
proof -
  have "word_ok ''PUT''" by (simp add: word_ok_def is_space_def)
  from next_word_eq(1) [OF this, of "CHR '' '' # k @ CHR '' '' # v"]
  have 1: "next_word (''PUT '' @ k @ '' '' @ v) = (''PUT'', CHR '' '' # k @ CHR '' '' # v)"
    by (simp add: is_space_def)
  have 2: "next_word (CHR '' '' # k @ CHR '' '' # v) = (k, CHR '' '' # v)"
    using next_word_eq(2) [OF assms(1), of "CHR '' '' # v"] by (simp add: is_space_def)
  have 3: "next_word (CHR '' '' # v) = (v, [])" using next_word_eq(2) [OF assms(2), of "[]"] by simp
  have "map toupper ''PUT'' = ''PUT''" by (simp add: toupper_def)
  with 1 2 3 show ?thesis by (simp add: parse_line_def)
qed

text \<open>The server decodes what the client encoded, when it fits the server's buffer.\<close>

lemma length_put_packet:
  "length (of_char CHR ''C'' # Command_serialize (mk_Command PUT k v)) = 6 + length k + length v"
  by (simp add: Command_serialize_def mk_Command_def push_u16_def len_simps)

lemma server_decodes_put:
  assumes "length k + length v \<le> 4089"
  shows "client_request io polls
      (take buffer_size (of_char CHR ''C'' # Command_serialize (mk_Command PUT k v))) s =
    catch_runtime_error (bind_result (submit io (mk_Command PUT k v) polls s)
      (\<lambda>r. case r of None \<Rightarrow> Inr Blocked | Some s' \<Rightarrow> Inr (Reply (''OK'' @ newline) s')))"
proof -
  let ?p = "of_char CHR ''C'' # Command_serialize (mk_Command PUT k v)"
  have t: "take buffer_size ?p = ?p"
    using assms length_put_packet [of k v] by (intro take_all) (simp add: buffer_size_def)
  have "command_ok (mk_Command PUT k v)" using assms by (simp add: command_ok_def mk_Command_def)
  from Command_roundtrip_append [OF this, of "[]"]
  have "Command_deserialize (Command_serialize (mk_Command PUT k v)) = Inr (mk_Command PUT k v)" by simp
  then show ?thesis unfolding t by (simp add: client_request_def cong: option.case_cong)
qed

section \<open>Redirection\<close>

lemma find_leader_id:
  "find_sub ''NOT_LEADER leader_id='' (''NOT_LEADER leader_id='' @ x) = Some 0"
  "find_sub ''leader_id='' (''NOT_LEADER leader_id='' @ x) = Some 11"
  by simp_all

lemma trim_right_id: "trim_right (to_string_cint i @ newline) = to_string_cint i"
proof -
  obtain cs c where s: "to_string_cint i = cs @ [c]"
    by (metis append_butlast_last_id decimal_not_Nil list.distinct(1) to_string_cint_def to_string_int_def)
  have "c \<in> set (to_string_cint i)" by (simp add: s)
  from to_string_cint_chars [OF this] have "(of_char c :: nat) \<notin> {32, 10, 13, 9}"
    by (auto simp: is_digit_def)
  then show ?thesis by (simp add: trim_right_def newline_def s)
qed

lemma length_to_string_cint_20: "length (to_string_cint i) \<le> 20"
proof -
  have "sint i < 2 ^ 31" "- (2 ^ 31) \<le> sint i" using sint_lt [of i] sint_ge [of i] by simp_all
  then have "nat (sint i) < 10 ^ Suc 10" "nat (- sint i) < 10 ^ Suc 10" by simp_all
  from length_decimal [OF this(1)] length_decimal [OF this(2)] show ?thesis
    by (simp add: to_string_cint_def to_string_int_def)
qed

lemma redirect_response:
  assumes "getLeaderId s = i" and "i \<noteq> 0" and "sint i + 6000 < 2 ^ 31"
  shows "read_response (response_text (bytes_of (exception_response ''NOT_LEADER'' s))) =
    Inr (Redirect (6000 + i))"
proof -
  let ?r = "''NOT_LEADER leader_id='' @ to_string_cint i @ newline"
  have r: "exception_response ''NOT_LEADER'' s = ?r" using assms by (simp add: exception_response_def)
  have "length (bytes_of ?r) \<le> 4095"
    using length_to_string_cint_20 [of i] by (simp add: bytes_of_def newline_def)
  moreover have "(of_char c :: nat) \<noteq> 0" if "c \<in> set ?r" for c
    using that to_string_cint_chars [of c i] by (auto simp: newline_def is_digit_def)
  ultimately have "response_text (bytes_of ?r) = ?r"
    by (simp add: response_text_def takeWhile_eq_all_conv)
  moreover have "stoi (to_string_cint i) = Inr i" using stoi_to_string_cint [of "[]" i] by simp
  ultimately show ?thesis
    using assms(3) unfolding r read_response_def find_leader_id
    by (simp add: trim_right_id)
qed

end
