(* ===== verification/Timers.thy ===== *)
theory Timers
  imports ClusterRun
begin

text \<open>
  The election timer. Every operation of the node leaves its timeout alone or draws it anew, so in
  every reachable state of a cluster it lies between 3000 and 3200 milliseconds, also for a node
  that has just been constructed; an accepted AppendEntries message restarts it.
\<close>

section \<open>What operations do to the timer\<close>

definition timer_ok :: "RaftNode \<Rightarrow> bool" where
  "timer_ok s \<longleftrightarrow> 3000 \<le> current_timeout s \<and> current_timeout s \<le> 3200"

definition same_timer :: "RaftNode \<Rightarrow> RaftNode \<Rightarrow> bool" where
  "same_timer s s' \<longleftrightarrow> current_timeout s' = current_timeout s \<and> last_heartbeat s' = last_heartbeat s"

lemma same_timer_refl [simp]: "same_timer s s"
  by (simp add: same_timer_def)

lemma same_timer_trans: "same_timer s t \<Longrightarrow> same_timer t u \<Longrightarrow> same_timer s u"
  by (simp add: same_timer_def)

lemma same_timer_ok: "same_timer s s' \<Longrightarrow> timer_ok s \<Longrightarrow> timer_ok s'"
  by (simp add: same_timer_def timer_ok_def)

lemma timer_ok_reset [simp]: "timer_ok (reset_timer ev k s)"
proof -
  have "snd (ev k) mod 201 < 201" by simp
  then show ?thesis by (simp add: timer_ok_def reset_timer_def getRandomTimeout_def del: mod_less_divisor)
qed

lemma timer_applyCommitted: "applyCommitted s = Inr s' \<Longrightarrow> same_timer s s'"
  by (auto simp: applyCommitted_def same_timer_def Let_def split: if_splits elim!: bind_result_InrE)

lemma timer_advance: "advanceCommitIndex s = Inr s' \<Longrightarrow> same_timer s s'"
  by (auto simp: advanceCommitIndex_def Let_def split: if_splits elim!: bind_result_InrE
      dest!: timer_applyCommitted) (simp add: same_timer_def)

lemma timer_handle_append_reply:
  assumes "handle_append_reply i ae r s = Inr s'"
  shows "same_timer s s'"
  using assms
  by (auto simp: handle_append_reply_def back_off_def Let_def split: if_splits elim!: bind_result_InrE
      dest!: timer_advance) (simp_all add: same_timer_def)

lemma timer_local: "local_step s s' \<Longrightarrow> timer_ok s \<Longrightarrow> timer_ok s'"
proof (induction rule: local_step.induct)
  case (quiet s s')
  from quiet.hyps quiet.prems show ?case
    by (induction rule: quiet_step.induct)
      (auto simp: timer_ok_def submit_append_eq get_append_eq dest!: timer_applyCommitted simp: same_timer_def)
next
  case (reply i ae r s s')
  then show ?case by (blast intro: same_timer_ok timer_handle_append_reply)
qed

lemma timer_vote: "handleRequestVote ev m s = (r, s') \<Longrightarrow> timer_ok s \<Longrightarrow> timer_ok s'"
  by (auto simp: handleRequestVote_def Let_def split: if_splits)

lemma timer_follow:
  assumes "cur_term s \<le> ae_term m"
  shows "last_heartbeat (follow ev m s) = fst (ev 0)" and "timer_ok (follow ev m s)"
    and "state (follow ev m s) = FOLLOWER"
proof -
  have "timer_ok ((reset_timer ev 0 t)\<lparr>current_leader_id := x\<rparr>)" for t x
    using timer_ok_reset [of ev 0 t] by (simp add: timer_ok_def)
  then show "timer_ok (follow ev m s)" by (simp add: follow_def Let_def)
  show "last_heartbeat (follow ev m s) = fst (ev 0)" by (simp add: follow_def reset_timer_def Let_def)
  show "state (follow ev m s) = FOLLOWER" using follow_sel [OF assms] by simp
qed

text \<open>A message that is not stale restarts the timer, whether its entries fit or not.\<close>

lemma timer_append:
  assumes t: "cur_term s \<le> ae_term m" and call: "handleAppendEntries ev m s = Inr (r, s')"
  shows "last_heartbeat s' = fst (ev 0) \<and> timer_ok s' \<and> state s' = FOLLOWER"
proof -
  note f = timer_follow [OF t, of ev]
  from call consider "s' = follow ev m s"
    | st where "applyCommitted ((follow ev m s)\<lparr>store := st\<rparr>) = Inr s'"
    unfolding handleAppendEntries_unfold [OF t] by (auto elim!: bind_result_InrE split: if_splits)
  then show ?thesis
  proof cases
    case 2
    from timer_applyCommitted [OF this] applyCommitted_frame [OF this] f
    show ?thesis by (simp add: same_timer_def timer_ok_def)
  qed (use f in simp)
qed

lemma timer_receive: "handleAppendEntries ev m s = Inr (r, s') \<Longrightarrow> timer_ok s \<Longrightarrow> timer_ok s'"
proof (cases "cur_term s \<le> ae_term m")
  case True
  then show "handleAppendEntries ev m s = Inr (r, s') \<Longrightarrow> timer_ok s'" using timer_append by blast
qed (simp add: handleAppendEntries_def not_le)

lemma timer_election_reply: "election_reply ev r n s = Inr (v, s') \<Longrightarrow> timer_ok s \<Longrightarrow> timer_ok s'"
  by (auto simp: election_reply_def split: if_splits elim!: bind_result_InrE)

lemma timer_take_office: "timer_ok s \<Longrightarrow> timer_ok (take_office s)"
  by (simp add: timer_ok_def take_office_def Let_def)

lemma timer_init: "RaftNode_init ev c ps d = Inr s \<Longrightarrow> timer_ok s"
  by (auto simp: RaftNode_init_def elim!: bind_result_InrE)

section \<open>In a cluster\<close>

lemma timer_election_step:
  "election_step M cl cl' \<Longrightarrow> \<forall>c \<in> M. timer_ok (nodes cl c) \<Longrightarrow> \<forall>c \<in> M. timer_ok (nodes cl' c)"
proof (induction rule: election_step.induct)
  case (timeout c s cl ev s')
  then show ?case by (simp add: election_begin_def)
next
  case (vote p m cl ev r s')
  then show ?case by (auto intro: timer_vote)
next
  case (answer c s cl b i js io r p ev v s')
  have "timer_ok (s\<lparr>peers := (peers s)[i := p]\<rparr>)" using answer(1,2,8) by (simp add: timer_ok_def)
  with timer_election_reply [OF answer(7)] answer(8) show ?case by simp
next
  case (win c s cl b)
  then show ?case by (simp add: timer_take_office)
qed simp

lemma timer_cluster_step:
  "cluster_step M cl cl' \<Longrightarrow> \<forall>c \<in> M. timer_ok (nodes cl c) \<Longrightarrow> \<forall>c \<in> M. timer_ok (nodes cl' c)"
proof (induction rule: cluster_step.induct)
  case (local c cl s')
  then show ?case by (auto intro: timer_local)
next
  case (receive p ae cl ev resp s')
  then show ?case by (auto intro: timer_receive)
next
  case (election cl cl')
  then show ?case by (rule timer_election_step)
next
  case (crash c cl st ev ps s')
  then show ?case using timer_init by auto
qed simp

lemma timer_reachable: "reachable M cl \<Longrightarrow> c \<in> M \<Longrightarrow> timer_ok (nodes cl c)"
proof -
  have "reachable M cl \<Longrightarrow> \<forall>c \<in> M. timer_ok (nodes cl c)"
  proof (induction rule: reachable.induct)
    case (start cl)
    then show ?case unfolding cluster_start_def using timer_init by blast
  qed (rule timer_cluster_step)
  then show "reachable M cl \<Longrightarrow> c \<in> M \<Longrightarrow> timer_ok (nodes cl c)" by blast
qed

text \<open>
  C40. In every reachable state of a cluster the timeout of every member, restarted ones included,
  lies between 3000 and 3200 milliseconds. A node that is not the leader does nothing in a
  background round in the 3000 milliseconds behind the last event that set its clock, and stands for
  election in every round 3200 milliseconds or more behind it; and an AppendEntries message that is
  not stale is such an event: it keeps the receiver from standing for 3000 milliseconds.
\<close>

theorem election_timeout_respected:
  assumes "reachable M cl" and "c \<in> M" and "s = nodes cl c"
  shows "3000 \<le> current_timeout s \<and> current_timeout s \<le> 3200
    \<and> (state s \<noteq> LEADER \<longrightarrow> fst (ev 2) - last_heartbeat s < 3000 \<longrightarrow> background_step ev io s = Inr s)
    \<and> (state s \<noteq> LEADER \<longrightarrow> 3200 \<le> fst (ev 2) - last_heartbeat s \<longrightarrow> background_step ev io s = startElection ev io s)
    \<and> (cur_term s \<le> ae_term m \<longrightarrow> handleAppendEntries ev' m s = Inr (r, s') \<longrightarrow> fst (ev 2) < fst (ev' 0) + 3000 \<longrightarrow>
        background_step ev io s' = Inr s')"
proof (intro conjI impI)
  have ok: "timer_ok s" using timer_reachable [OF assms(1,2)] assms(3) by simp
  then show "3000 \<le> current_timeout s" "current_timeout s \<le> 3200" by (simp_all add: timer_ok_def)
  show "background_step ev io s = Inr s" if "state s \<noteq> LEADER" "fst (ev 2) - last_heartbeat s < 3000"
    using that ok by (simp add: background_step_def timer_ok_def)
  show "background_step ev io s = startElection ev io s" if "state s \<noteq> LEADER" "3200 \<le> fst (ev 2) - last_heartbeat s"
    using that ok by (simp add: background_step_def timer_ok_def)
  show "background_step ev io s' = Inr s'"
    if "cur_term s \<le> ae_term m" "handleAppendEntries ev' m s = Inr (r, s')" "fst (ev 2) < fst (ev' 0) + 3000"
    using timer_append [OF that(1,2)] that(3) by (simp add: background_step_def timer_ok_def)
qed

theorem election_timeout_respected_witness:
  "background_step (\<lambda>k. (2999, 0)) (\<lambda>k i. silent) (nodes start3 1) = Inr (nodes start3 1)
    \<and> background_step (\<lambda>k. (3200, 0)) (\<lambda>k i. silent) (nodes start3 1) = startElection (\<lambda>k. (3200, 0)) (\<lambda>k i. silent) (nodes start3 1)"
proof -
  have "state (nodes start3 1) \<noteq> LEADER" "last_heartbeat (nodes start3 1) = 0" by (simp_all add: start3_def fresh_node_def)
  moreover have "1 \<in> members3" by (simp add: members3_def)
  ultimately show ?thesis
    using election_timeout_respected [OF start3_reachable, of 1 _ "\<lambda>k. (2999, 0)" "\<lambda>k i. silent"]
      election_timeout_respected [OF start3_reachable, of 1 _ "\<lambda>k. (3200, 0)" "\<lambda>k i. silent"] by simp
qed

end
