(* ===== verification/NodeSpec.thy ===== *)
theory NodeSpec
  imports Election
begin

text \<open>
  An abstract Raft node, written without the code, and the refinement: every whole operation of the
  code, messages and waiting included, is a sequence of its events. The abstract node is a role, a
  term, a vote, a list of entries with a commit index, and a table of keys and values. An event has
  a guard: only a leader takes commands of clients, and only at the end of its log and in its own
  term; only a leader commits, and only entries of its own term; votes go to one candidate with an
  up-to-date log; a leader's entries are merged into the log behind an entry that matches.
\<close>

section \<open>The abstract node\<close>

record spec_node =
  sp_id :: string
  sp_role :: NodeState
  sp_term :: u64
  sp_vote :: string
  sp_log :: "LogEntry list"
  sp_commit :: nat
  sp_applied :: nat
  sp_table :: "string \<rightharpoonup> string"

definition effect :: "Command \<Rightarrow> (string \<rightharpoonup> string) \<Rightarrow> (string \<rightharpoonup> string)" where
  "effect c m = (if isPut c then m(Key c \<mapsto> Val c) else if isDelete c then m(Key c := None) else m)"

text \<open>Committed entries take effect at once.\<close>

definition sp_apply :: "spec_node \<Rightarrow> spec_node" where
  "sp_apply a =
     (if sp_applied a < sp_commit a
      then a\<lparr>sp_applied := sp_commit a,
             sp_table := fold effect (map command_of (drop (sp_applied a) (take (sp_commit a) (sp_log a)))) (sp_table a)\<rparr>
      else a)"

definition next_entry :: "spec_node \<Rightarrow> Command \<Rightarrow> LogEntry \<Rightarrow> bool" where
  "next_entry a cmd e \<longleftrightarrow>
     le_term e = sp_term a \<and> le_index e = of_nat (Suc (length (sp_log a))) \<and> command_of e = cmd"

definition sp_pos :: "spec_node \<Rightarrow> log_pos" where
  "sp_pos a = Log_pos (last_term (sp_log a)) (of_nat (length (sp_log a)))"

text \<open>\<open>Follow p t es c\<close>: entries \<open>es\<close> behind position \<open>p\<close> of term \<open>t\<close>, with the leader's commit index.\<close>

datatype event =
    Timeout | Newer u64 | Vote string log_pos | Office | Request Command
  | Recognise | Follow nat u64 "LogEntry list" nat | Commit nat

inductive spec_step :: "spec_node \<Rightarrow> event \<Rightarrow> spec_node \<Rightarrow> bool" where
  timeout: "sp_role a \<noteq> LEADER \<Longrightarrow> sp_term a + 1 \<noteq> 0 \<Longrightarrow>
    spec_step a Timeout (a\<lparr>sp_role := CANDIDATE, sp_term := sp_term a + 1, sp_vote := sp_id a\<rparr>)"
| newer: "sp_term a < t \<Longrightarrow>
    spec_step a (Newer t) (a\<lparr>sp_role := FOLLOWER, sp_term := t, sp_vote := []\<rparr>)"
| vote: "sp_vote a = [] \<or> sp_vote a = c \<Longrightarrow> sp_pos a \<le> p \<Longrightarrow> spec_step a (Vote c p) (a\<lparr>sp_vote := c\<rparr>)"
| office: "sp_role a = CANDIDATE \<Longrightarrow> next_entry a (mk_Command NOOP [] []) e \<Longrightarrow>
    spec_step a Office (a\<lparr>sp_role := LEADER, sp_log := sp_log a @ [e]\<rparr>)"
| client: "sp_role a = LEADER \<Longrightarrow> next_entry a cmd e \<Longrightarrow>
    spec_step a (Request cmd) (a\<lparr>sp_log := sp_log a @ [e]\<rparr>)"
| recognise: "spec_step a Recognise (a\<lparr>sp_role := FOLLOWER\<rparr>)"
| follow: "p = 0 \<or> p \<le> length (sp_log a) \<and> entry_term (sp_log a) p = t \<Longrightarrow>
    \<forall>e \<in> set es. le_term e \<le> sp_term a \<Longrightarrow> log' = merge_log (sp_log a) p es \<Longrightarrow>
    spec_step a (Follow p t es c) (sp_apply (a\<lparr>sp_role := FOLLOWER, sp_log := log',
      sp_commit := (if sp_commit a < c then min c (length log') else sp_commit a)\<rparr>))"
| commit: "sp_role a = LEADER \<Longrightarrow> sp_commit a < n \<Longrightarrow> n \<le> length (sp_log a) \<Longrightarrow>
    entry_term (sp_log a) n = sp_term a \<Longrightarrow> spec_step a (Commit n) (sp_apply (a\<lparr>sp_commit := n\<rparr>))"

inductive spec_run :: "spec_node \<Rightarrow> event list \<Rightarrow> spec_node \<Rightarrow> bool" where
  none: "spec_run a [] a"
| more: "spec_step a e b \<Longrightarrow> spec_run b es c \<Longrightarrow> spec_run a (e # es) c"

lemma spec_run_append: "spec_run a es b \<Longrightarrow> spec_run b fs c \<Longrightarrow> spec_run a (es @ fs) c"
  by (induction rule: spec_run.induct) (auto intro: spec_run.more)

lemma spec_run_one: "spec_step a e b \<Longrightarrow> spec_run a [e] b"
  by (blast intro: spec_run.intros)

text \<open>What every event keeps: no entry is of a later term, and nothing committed waits to be applied.\<close>

definition spec_ok :: "spec_node \<Rightarrow> bool" where
  "spec_ok a \<longleftrightarrow> (\<forall>e \<in> set (sp_log a). le_term e \<le> sp_term a) \<and> sp_commit a \<le> sp_applied a"

lemma sp_apply_sel [simp]:
  "sp_id (sp_apply a) = sp_id a" "sp_role (sp_apply a) = sp_role a" "sp_term (sp_apply a) = sp_term a"
  "sp_vote (sp_apply a) = sp_vote a" "sp_log (sp_apply a) = sp_log a" "sp_commit (sp_apply a) = sp_commit a"
  by (simp_all add: sp_apply_def)

lemma sp_apply_catches_up: "sp_commit a \<le> sp_applied (sp_apply a)"
  by (simp add: sp_apply_def)

lemma set_merge_log: "set (merge_log log p es) \<subseteq> set log \<union> set es"
proof (induction log p es rule: merge_log.induct)
  case (2 log p e es)
  then show ?case using set_take_subset [of p log] by auto
qed simp

lemma spec_step_ok: "spec_step a e b \<Longrightarrow> spec_ok a \<Longrightarrow> spec_ok b"
proof (induction rule: spec_step.induct)
  case (timeout a)
  have "sp_term a \<le> sp_term a + 1" using timeout(2) unatSuc [of "sp_term a"] by (simp add: word_le_nat_alt add.commute)
  with timeout(3) show ?case by (auto simp: spec_ok_def)
next
  case (newer a t)
  then show ?case by (auto simp: spec_ok_def)
next
  case (follow p a t es log' c)
  then have "\<forall>e \<in> set log'. le_term e \<le> sp_term a"
    using set_merge_log [of "sp_log a" p es] by (auto simp: spec_ok_def)
  then show ?case by (simp add: spec_ok_def sp_apply_catches_up [of "_\<lparr>sp_commit := _\<rparr>", simplified])
next
  case (commit a n)
  then show ?case using sp_apply_catches_up [of "a\<lparr>sp_commit := n\<rparr>"] by (simp add: spec_ok_def)
qed (auto simp: spec_ok_def next_entry_def)

lemma spec_run_ok: "spec_run a es b \<Longrightarrow> spec_ok a \<Longrightarrow> spec_ok b"
  by (induction rule: spec_run.induct) (auto dest: spec_step_ok)

end
