(* ===== verification/NodeRefines.thy ===== *)
theory NodeRefines
  imports NodeSpec Service
begin

text \<open>
  The node of the code refines the abstract node of \<open>NodeSpec\<close>: \<open>spec_of\<close> reads it off the store
  and the fields, and whole operations, with all the messages they send and the waiting of \<^verbatim>\<open>submit\<close>
  and \<^verbatim>\<open>get\<close>, are sequences of its events.
\<close>

section \<open>The abstraction\<close>

definition spec_of :: "RaftNode \<Rightarrow> spec_node" where
  "spec_of s = \<lparr>sp_id = to_string_cint (node_id s), sp_role = state s, sp_term = cur_term s,
     sp_vote = getVoted (store s), sp_log = log_of (store s), sp_commit = unat (getCommit (store s)),
     sp_applied = unat (getApplied (store s)), sp_table = db (sm s)\<rparr>"


lemma spec_of_eqI:
  "node_id t = node_id s \<Longrightarrow> state t = state s \<Longrightarrow> cur_term t = cur_term s \<Longrightarrow>
   getVoted (store t) = getVoted (store s) \<Longrightarrow> log_of (store t) = log_of (store s) \<Longrightarrow>
   getCommit (store t) = getCommit (store s) \<Longrightarrow> getApplied (store t) = getApplied (store s) \<Longrightarrow>
   sm t = sm s \<Longrightarrow> spec_of t = spec_of s"
  by (simp add: spec_of_def)

lemma spec_of_vectors [simp]:
  "spec_of (s\<lparr>peers := ps\<rparr>) = spec_of s" "spec_of (s\<lparr>matchIndex := a\<rparr>) = spec_of s"
  "spec_of (s\<lparr>matchIndex := a, nextIndex := b\<rparr>) = spec_of s" "spec_of (s\<lparr>last_heartbeat := now\<rparr>) = spec_of s"
  "spec_of (back_off i ae s) = spec_of s"
  by (simp_all add: spec_of_def back_off_def)





section \<open>What a leader does\<close>










section \<open>Requests of clients\<close>











section \<open>Elections\<close>









section \<open>Messages\<close>







section \<open>The refinement\<close>



end
