(* ===== verification/Spec2Isabelle.thy ===== *)
theory Spec2Isabelle
  imports Restarts StepDown Stall Client Timers NodeRefines
begin

text \<open>
  A verification development of a replicated key-value store: a Raft node in C++ with its
  storage, its network layer, a server program and a command line client.

  \<^bold>\<open>The program.\<close> A server process (\<^verbatim>\<open>src/server.cpp\<close>) reads its command line, opens a \<^verbatim>\<open>RaftNode\<close> on the
  files of its data directory and serves two ports (\<^verbatim>\<open>include/TCP_server.h\<close>): one for the other nodes
  (AppendEntries and RequestVote) and one for clients (write, read, status). The node
  (\<^verbatim>\<open>include/RaftNode.h\<close>) keeps its log, term and vote in \<^verbatim>\<open>include/Storage.h\<close>, applies committed
  entries to \<^verbatim>\<open>include/StateMachine.h\<close> and talks to the others through \<^verbatim>\<open>include/Peer.h\<close> with the messages
  of \<^verbatim>\<open>include/RPC.h\<close>; log entries (\<^verbatim>\<open>include/LogEntry.h\<close>) carry a command (\<^verbatim>\<open>include/Command.h\<close>) and a
  checksum (\<^verbatim>\<open>include/crc32.h\<close>). A background thread sends heartbeats or starts elections. The client
  (\<^verbatim>\<open>src/client.cpp\<close>) turns lines into packets and follows redirections to the leader.

  \<^bold>\<open>The theories\<close>, in the order of the imports:
  \<^item> \<open>Prelude\<close>: machine types, results (\<open>error + 'a\<close>, with \<open>Undefined\<close> for undefined behaviour; in a
    \<open>call\<close> the error carries the state of the object at the throw), the little-endian loops, \<^verbatim>\<open>htons\<close>/\<^verbatim>\<open>htonl\<close>, decimal text, and the locale \<open>record_codec\<close> of encoders and
    decoders;
  \<^item> \<open>Crc32\<close>, \<open>Command\<close>, \<open>LogEntry\<close>, \<open>Rpc\<close>: the byte formats, one encoder and one decoder per format as
    in the source; \<open>record_codec\<close> is interpreted for log entries and for the sized entries of messages;
  \<^item> \<open>LogSpec\<close>: the abstract log, \<open>merge_log\<close>, log matching, and the locale \<open>log_store\<close> that says what the
    node relies on; \<open>Storage\<close>: the class over the contents of \<^verbatim>\<open>raft.log\<close>, \<^verbatim>\<open>raft.meta\<close> and \<^verbatim>\<open>raft.meta.tmp\<close>,
    with the mode and offset of the log's descriptor, and the interpretation \<open>storage\<close>;
  \<^item> \<open>StateMachine\<close> (locale \<open>kv_machine\<close>, interpreted as \<open>kv\<close>) and \<open>Peer\<close> (connections over the results
    of the socket calls);
  \<^item> \<open>RaftNode\<close>: every operation of the class, as functions from a node to a result. Clock readings and
    random numbers are an argument \<open>ev\<close>, what the network answers an argument \<open>io\<close>. Exceptions in
    requests of clients leave the node as the throw found it, since the handler in \<open>TcpServer\<close> catches them
    and goes on; elsewhere they end the program (\<open>uncaught\<close>). Operations that give up the lock are cut there (\<open>election_begin\<close>, \<open>election_reply\<close>, \<open>election_end\<close>; \<open>take_office\<close>;
    \<open>submit_append\<close>, \<open>wait_commit\<close>), and the whole operation is their composition;
  \<^item> \<open>Replication\<close>, \<open>Leadership\<close>, \<open>Election\<close>: the lemmas on the follower's side, the leader's side, and on
    terms and votes;
  \<^item> \<open>Cluster\<close>: nodes, messages and crashes as a step relation, with election safety by the locale
    \<open>quorums\<close>, and the orderly runs (\<open>orderly_step\<close>, \<open>orderly_run\<close>) among its runs; \<open>ClusterRun\<close>: runs of
    three nodes, an election that is won and a round of replication; \<open>LogMatching\<close>: log matching, and
    that whole operations are runs of the step relation; \<open>Recovery\<close>: restarts, crashes, damaged files;
  \<^item> \<open>Completeness\<close>: the history of a run (votes, acknowledgements, logs) and the argument that a chosen
    entry is in every later leader's log; \<open>SafetyInv\<close> and \<open>SafetySteps\<close>: the invariant that ties nodes
    and messages to the history, kept by every orderly step; \<open>Safety\<close>: agreement of committed prefixes
    and of state machines; \<open>Contract\<close>: what a client can rely on;
  \<^item> \<open>Rounds\<close>, \<open>Restarts\<close>, \<open>StepDown\<close>: runs of three nodes that are orderly but for one step, a restart or
    a message of a node that is no leader, and end in disagreement; \<open>Stall\<close>: what heartbeats do once a
    leader has sent its whole log, and a write that is never committed;
  \<^item> \<open>TcpServer\<close>, \<open>ServerMain\<close>, \<open>Client\<close>: connection handlers, accept loops, command line, client;
    \<open>Service\<close>: client requests on the node, and behaviours the source does not guard against;
  \<^item> \<open>NodeSpec\<close>: an abstract Raft node of eight events, written without the code; \<open>NodeRefines\<close>: the whole
    operations of the code as sequences of its events; \<open>Timers\<close>: the election timer in a cluster;
  \<^item> this theory: the properties that span components, with a concrete instance behind each of those
    that has a hypothesis.

  \<^bold>\<open>What is shown.\<close> Across a cluster, for every run (C1 to C4, C15, C40): at most one leader per term,
  elected by a majority, at most one vote per node and term, log matching, terms and roles that only
  change as they should, and timeouts in their range; \<open>operations_are_runs\<close> says that the step relation
  contains the code's operations. Across a cluster,
  for orderly runs (C5 to C8): what one node has committed is what every node commits, and state
  machines are the result of it; leaders hold all that was committed; an acknowledged write is never
  lost; a read returns no older state than any node had when it began. For one node: what an
  AppendEntries message does to the log, when it is refused, the commit rule, replication from bytes to
  bytes, elections that are won, the vote handler in full (C9 to C14), freedom from undefined behaviour
  (C16), the refinement of an abstract Raft node by whole operations (C17), and what writes and reads
  return (C18, C19, C23). For the storage: restart, atomic metadata,
  refinement of a list (C20 to C22). For the formats: round trips, truncated input, the checksum as
  CRC-32 and what it catches (C32 to C36). For the outer layers: descriptors of a peer, requests of the
  client from its input line to the node (C37 to C39).

  \<^bold>\<open>Orderly runs\<close> are runs in which a node sends AppendEntries messages, and reads the answers to them, only
  as leader of their term, answers come from the peer that was asked, and a node restarts between two
  operations with nothing in its log that is not committed. The code does not force any of this:
  \<^item> a leader that has stepped down goes on sending and replaces committed entries (C25);
  \<^item> a restart applies the whole log, and when an uncommitted entry is replaced later, its effect stays
    and its replacement is never applied: two nodes with the same committed log differ in a value (C24);
  \<^item> a crash while the log is cut loses records that were to be kept (\<open>truncate_not_atomic\<close> in \<open>Recovery\<close>),
    and a record with a wrong checksum hides everything that is appended behind it (C30).

  \<^bold>\<open>What else the code does not guarantee.\<close> \<^verbatim>\<open>submit\<close> acknowledges a write that was replaced (C26; C7 has
  the same leader and term as a hypothesis), and \<^verbatim>\<open>get\<close> checks behind its wait that the node is a leader,
  not that it is still the leader of the same term (a hypothesis of C8). A lost answer makes a
  leader forget a copy, and heartbeats never make it count again, so that a write held by a majority may
  block for as long as no other request arrives (C27); a node without peers commits nothing while it
  runs, and only its next start takes the entries as committed (C28). A torn log record and an AppendEntries message longer
  than the receive buffer are read out of range (C29, C31).

  \<^bold>\<open>Bounds.\<close> Terms, indices and lengths are words of the width they have in the source. A log is shorter
  than \<open>2 ^ 64 - 1\<close> entries (\<open>log_ok\<close>; \<open>log_room\<close> where an operation appends), a term does not wrap when
  an election starts, commands in the log are decodable (\<open>entry_good\<close>), and node ids are not negative
  in a cluster: the vote is stored as text, and a negative id is printed differently as \<^verbatim>\<open>int\<close> and as
  \<^verbatim>\<open>uint64_t\<close>. Loops over files, messages and command lines are structural recursions or have a
  termination proof; threads that run until the program ends (\<open>backgroundLoop\<close>, the accept loops, the
  wait loop of \<^verbatim>\<open>submit\<close>) take the list of their rounds as an argument, and no fuel is used.

  \<^bold>\<open>What is not modelled.\<close> Console output; the operating system's side of sockets and files beyond their
  results (calls on files succeed, as the code takes for granted; a record of the log is written as a
  whole or torn at its end); data races between the unlocked parts of \<^verbatim>\<open>sendAppendEntries\<close> and the
  handlers below the granularity of its two halves; the CMake output under \<^verbatim>\<open>build\<close> and the shell
  scripts, which are not part of the program.
\<close>

section \<open>Concrete inputs\<close>

abbreviation ex_entry :: LogEntry where
  "ex_entry \<equiv> mk_LogEntry 1 1 put_kv"

abbreviation ex_append :: AppendEntries where
  "ex_append \<equiv> \<lparr>ae_term = 1, ae_leaderId = 1, ae_prevLogIndex = 0, ae_prevLogTerm = 0,
     ae_leaderCommit = 1, ae_entries = [ex_entry]\<rparr>"

abbreviation ex_follower :: RaftNode where
  "ex_follower \<equiv> fresh_node 2 []"

text \<open>A leader of a two node cluster that has appended a command and sees its peer connected.\<close>

definition ex_leader :: RaftNode where
  "ex_leader = on_store (append_entry (new_entry put_kv paired_leader)) paired_leader"

lemma ex_entry_good: "entry_good (mk_LogEntry t i put_kv)"
  using put_kv_ok by (simp add: entry_good_def mk_LogEntry_ok getCommand_mk_LogEntry)

lemma ex_append_wf: "append_wf ex_append"
  using ex_entry_good by (simp add: append_wf_def)

lemma ex_follower_ok: "store_inv (store ex_follower)" "accepts ex_append ex_follower" "committed_ok ex_follower"
  using node_ok_store [OF node_ok_fresh] log_of_fresh [of 2 "[]"]
  by (simp_all add: accepts_def committed_ok_def) (simp_all add: fresh_node_def)

lemma ex_leader_ok: "node_ok ex_leader" "log_of (store ex_leader) = [mk_LogEntry 0 1 put_kv]"
  using node_ok_new_entry [OF paired_leader_ok put_kv_ok] by (simp_all add: ex_leader_def)

section \<open>Elections\<close>

text \<open>
  C1. Election safety: in every reachable state of a cluster, under any interleaving of
  timeouts, votes, lost and repeated messages, replication, client requests, crashes and
  restarts, two nodes that are leaders of the same term are the same node.
\<close>

theorem election_safety:
  assumes "reachable M cl" and "c \<in> M" and "d \<in> M"
    and "state (nodes cl c) = LEADER" and "state (nodes cl d) = LEADER"
    and "cur_term (nodes cl c) = cur_term (nodes cl d)"
  shows "c = d"
proof -
  note inv = cluster_inv_reachable [OF assms(1)]
  have "(cur_term (nodes cl c), c) \<in> won cl" "(cur_term (nodes cl d), d) \<in> won cl"
    using cluster_invD(1) [OF inv assms(2)] cluster_invD(1) [OF inv assms(3)] assms(4,5)
    by (simp_all add: member_ok_def)
  with won_unique [OF inv] assms(6) show ?thesis by simp
qed

theorem election_safety_witness:
  "\<exists>cl. reachable members3 cl \<and> {d \<in> members3. state (nodes cl d) = LEADER \<and> cur_term (nodes cl d) = 1} = {1}"
proof -
  obtain cl where cl: "reachable members3 cl" "state (nodes cl 1) = LEADER" "cur_term (nodes cl 1) = 1"
    by (rule leader1_reachable)
  have m1: "1 \<in> members3" by (simp add: members3_def)
  have "d = 1" if "d \<in> members3" "state (nodes cl d) = LEADER" "cur_term (nodes cl d) = 1" for d
    by (rule election_safety [OF cl(1) that(1) m1 that(2) cl(2)]) (simp add: that(3) cl(3))
  with cl m1 have "{d \<in> members3. state (nodes cl d) = LEADER \<and> cur_term (nodes cl d) = 1} = {1}" by auto
  with cl(1) show ?thesis by blast
qed

text \<open>
  C2. Whoever won a term, at any time in the past, holds the votes of a majority of the members
  for that term, and nobody else ever won that term.
\<close>

theorem elected_by_majority:
  assumes "reachable M cl" and "(t, c) \<in> won cl"
  shows "majority_of M (supporters cl t c) \<and> {d. (t, d) \<in> won cl} = {c}"
  using cluster_invD(6) [OF cluster_inv_reachable [OF assms(1)] assms(2)]
    won_unique [OF cluster_inv_reachable [OF assms(1)]] assms(2) by auto

theorem elected_by_majority_witness:
  "\<exists>cl. reachable members3 cl \<and> majority_of members3 (supporters cl 1 1) \<and> {d. (1, d) \<in> won cl} = {1}"
proof -
  obtain cl where cl: "reachable members3 cl" "(1, 1) \<in> won cl" by (rule leader1_reachable)
  from elected_by_majority [OF cl] cl(1) show ?thesis by blast
qed

text \<open>
  C3. A node votes for at most one candidate in a term, also when it restarts in between, and
  while it stays in that term the vote it gave is the one in its store.
\<close>

theorem one_vote_per_term:
  assumes "reachable M cl" and "(p, t, c) \<in> granted cl"
  shows "{d. (p, t, d) \<in> granted cl} = {c}
    \<and> t \<le> cur_term (nodes cl p)
    \<and> (t = cur_term (nodes cl p) \<longrightarrow> getVoted (store (nodes cl p)) = to_string_cint c)"
proof (intro conjI)
  note v = cluster_invD(2) [OF cluster_inv_reachable [OF assms(1)] assms(2), unfolded vote_ok_def]
  from v assms(2) show "{d. (p, t, d) \<in> granted cl} = {c}" by blast
  from v show "t \<le> cur_term (nodes cl p)"
    "t = cur_term (nodes cl p) \<longrightarrow> getVoted (store (nodes cl p)) = to_string_cint c" by blast+
qed

theorem one_vote_per_term_witness:
  "\<exists>cl. reachable members3 cl \<and> {d. (2, 1, d) \<in> granted cl} = {1}"
proof -
  obtain cl where cl: "reachable members3 cl" "(2, 1, 1) \<in> granted cl" by (rule leader1_reachable)
  from one_vote_per_term [OF cl] cl(1) show ?thesis by blast
qed

section \<open>Log replication\<close>

text \<open>
  C9. An accepted AppendEntries message refines the merge of the abstract log: the handler
  returns success without undefined behaviour, the stored log is the merge of the old log and
  the received entries, the node follows the leader's term, and the commit index is the
  leader's, cut off at the end of the log.
\<close>

theorem append_entries_refines:
  assumes "store_inv (store s)" and "append_wf m" and "accepts m s"
  shows "\<exists>s'. handleAppendEntries ev m s = Inr (\<lparr>ar_term = ae_term m, ar_success = True\<rparr>, s')
    \<and> store_inv (store s')
    \<and> log_of (store s') = merge_log (log_of (store s)) (unat (ae_prevLogIndex m)) (ae_entries m)
    \<and> cur_term s' = ae_term m \<and> state s' = FOLLOWER
    \<and> getVoted (store s') = (if cur_term s < ae_term m then [] else getVoted (store s))
    \<and> getCommit (store s') = (if ae_leaderCommit m > getCommit (store s)
        then min (ae_leaderCommit m) (of_nat (length (log_of (store s')))) else getCommit (store s))"
  using handleAppendEntries_accept [OF assms, of ev] by (metis (no_types, lifting))

theorem append_entries_refines_witness:
  "\<exists>s'. handleAppendEntries (\<lambda>k. (0, 0)) ex_append ex_follower = Inr (\<lparr>ar_term = 1, ar_success = True\<rparr>, s')
    \<and> log_of (store s') = [ex_entry] \<and> getCommit (store s') = 1"
proof -
  have "getCommit (store ex_follower) = 0" by (simp add: fresh_node_def)
  with append_entries_refines [OF ex_follower_ok(1) ex_append_wf ex_follower_ok(2), of "\<lambda>k. (0, 0)"]
  show ?thesis by (auto simp: log_of_fresh)
qed

text \<open>
  C10. A message of an old term, or one whose preceding entry is not in the log, is refused with
  the larger of both terms, and log, commit index and state machine stay as they are.
\<close>

theorem append_entries_rejects:
  assumes inv: "store_inv (store s)" and rej: "\<not> accepts m s"
  shows "\<exists>s'. handleAppendEntries ev m s =
      Inr (\<lparr>ar_term = max (cur_term s) (ae_term m), ar_success = False\<rparr>, s')
    \<and> log_of (store s') = log_of (store s) \<and> getCommit (store s') = getCommit (store s) \<and> sm s' = sm s
    \<and> cur_term s' = max (cur_term s) (ae_term m)"
proof (cases "ae_term m < cur_term s")
  case True
  then have "max (cur_term s) (ae_term m) = cur_term s" by (intro max_absorb1) simp
  with True show ?thesis by (simp add: handleAppendEntries_reject [OF inv rej])
next
  case False
  then have le: "cur_term s \<le> ae_term m" by simp
  then have "max (cur_term s) (ae_term m) = ae_term m" by (rule max_absorb2)
  with False follow_sel [OF le, of ev] follow_store_inv [OF inv, of ev m] show ?thesis
    by (simp add: handleAppendEntries_reject [OF inv rej])
qed

theorem append_entries_rejects_witness:
  "\<exists>s'. handleAppendEntries (\<lambda>k. (0, 0)) (ex_append\<lparr>ae_prevLogIndex := 4\<rparr>) ex_follower =
      Inr (\<lparr>ar_term = 1, ar_success = False\<rparr>, s') \<and> log_of (store s') = []"
proof -
  have "\<not> accepts (ex_append\<lparr>ae_prevLogIndex := 4\<rparr>) ex_follower" by (simp add: accepts_def log_of_fresh)
  from append_entries_rejects [OF ex_follower_ok(1) this, of "\<lambda>k. (0, 0)"] show ?thesis
    by (auto simp: log_of_fresh max_def) (auto simp: fresh_node_def)
qed

text \<open>
  The committed prefix is stable: a well-formed message that does not contradict it is
  handled without undefined behaviour, the commit index does not fall, the committed entries
  stay, and the state machine remains the result of the applied entries.
\<close>

theorem committed_prefix_kept:
  assumes ok: "node_ok s" and "committed_ok s" and wf: "append_wf m" and "compatible m s"
  shows "\<exists>r s'. handleAppendEntries ev m s = Inr (r, s') \<and> committed_ok s'
    \<and> getCommit (store s) \<le> getCommit (store s')
    \<and> take (unat (getCommit (store s))) (log_of (store s')) = take (unat (getCommit (store s))) (log_of (store s))"
proof -
  obtain r s' where "handleAppendEntries ev m s = Inr (r, s')"
    using handleAppendEntries_ok [OF ok wf] by blast
  with committed_ok_append [OF node_ok_store [OF ok] assms(2-4) this] show ?thesis by blast
qed

theorem committed_prefix_kept_witness:
  "\<exists>r s'. handleAppendEntries (\<lambda>k. (0, 0)) ex_append ex_follower = Inr (r, s') \<and> committed_ok s'"
proof -
  have "compatible ex_append ex_follower" by (simp add: compatible_def log_of_fresh agrees_def)
  from committed_prefix_kept [OF node_ok_fresh ex_follower_ok(3) ex_append_wf this] show ?thesis by blast
qed

text \<open>
  C11. The commit rule: a leader raises its commit index to the largest index whose entry is of
  its own term and which a majority is known to hold, and no further; the state machine
  follows.
\<close>

theorem commit_rule:
  assumes "store_inv (store s)" and "length (matchIndex s) = length (peers s)" and "committed_ok s"
  shows "\<exists>s'. advanceCommitIndex s = Inr s' \<and> committed_ok s' \<and> commit_target s (getCommit (store s'))"
  by (rule advanceCommitIndex_committed [OF assms]) blast

theorem commit_rule_witness:
  "\<exists>s'. advanceCommitIndex (ex_leader\<lparr>matchIndex := [1]\<rparr>) = Inr s' \<and> getCommit (store s') = 1"
proof -
  let ?s = "ex_leader\<lparr>matchIndex := [1]\<rparr>"
  have sel: "peers ?s = peers paired_leader" "getCommit (store ?s) = 0" "logLen (store ?s) = 1" "cur_term ?s = 0"
    by (simp_all add: ex_leader_def)
  have "store_inv (store ?s)" using node_ok_store [OF ex_leader_ok(1)] by simp
  moreover have "committed_ok ?s" using ex_leader_ok(2) by (simp add: committed_ok_def) (simp add: ex_leader_def)
  ultimately obtain s' where s': "advanceCommitIndex ?s = Inr s'" "commit_target ?s (getCommit (store s'))"
    using commit_rule [of ?s] sel by auto
  have "committable ?s 1"
    using ex_leader_ok(2) sel by (simp add: committable_def entry_term_def holders_def majority_def)
  with s'(2) sel have "1 \<le> getCommit (store s')" "getCommit (store s') \<le> 1"
    by (auto simp: commit_target_def)
  with s'(1) show ?thesis by (intro exI [of _ s']) simp
qed

text \<open>
  C12. One round of replication, from bytes to bytes: the message the leader builds for a peer,
  if it fits the receiver's buffer and passes its check, is decoded, handled and answered with
  success, and the follower's log then is the leader's log, or extends it as it did before.
\<close>

theorem replication_from_bytes:
  assumes "node_ok l" and "i < length (nextIndex l)" and "unat (nextIndex l ! i) \<le> Suc (length (log_of (store l)))"
    and "prepare_AppendEntries i l = Inr m" and "length (AppendEntries_serialize m) \<le> buffer_size"
    and "store_inv (store f)" and "accepts m f" and "log_match (log_of (store l)) (log_of (store f))"
  shows "\<exists>resp f'. raft_request ev (take buffer_size (AppendEntries_serialize m)) f =
        Inr (Some (AppendEntriesResponse_serialize resp), f')
      \<and> ar_success resp \<and> store_inv (store f') \<and> cur_term f' = cur_term l
      \<and> log_of (store f') = (if take (length (log_of (store l))) (log_of (store f)) = log_of (store l)
          then log_of (store f) else log_of (store l))"
  using replication_round [OF assms, of ev] by blast

text \<open>The message of the example leader.\<close>

definition ex_message :: AppendEntries where
  "ex_message = \<lparr>ae_term = 0, ae_leaderId = 1, ae_prevLogIndex = 0, ae_prevLogTerm = 0, ae_leaderCommit = 0,
     ae_entries = [mk_LogEntry 0 1 put_kv]\<rparr>"

lemma ex_leader_sel [simp]:
  "nextIndex ex_leader = [1]" "matchIndex ex_leader = [0]" "peers ex_leader = peers paired_leader" "cur_term ex_leader = 0"
  "logLen (store ex_leader) = 1"
  by (simp_all add: ex_leader_def)

lemma ex_message_prepared: "prepare_AppendEntries 0 ex_leader = Inr ex_message"
  using prepare_AppendEntries_eq [of ex_leader 0] node_ok_store [OF ex_leader_ok(1)] ex_leader_ok(2)
  by (simp add: ex_message_def entry_term_def) (simp add: ex_leader_def)

lemma ex_message_fits: "length (AppendEntries_serialize ex_message) \<le> buffer_size"
  by (simp add: AppendEntries_bytes ex_message_def put_sized_entry_def buffer_size_def Let_def len_simps mk_Command_def)

lemma ex_message_accepted: "accepts ex_message ex_follower"
  by (simp add: accepts_def ex_message_def) (simp add: fresh_node_def)

lemma ex_match: "log_match (log_of (store ex_leader)) (log_of (store ex_follower))"
  by (simp add: log_match_def log_of_fresh)

theorem replication_from_bytes_witness:
  "\<exists>a f'. raft_request (\<lambda>k. (0, 0)) (take buffer_size (AppendEntries_serialize ex_message)) ex_follower = Inr (Some a, f')
     \<and> log_of (store f') = [mk_LogEntry 0 1 put_kv]"
  using replication_from_bytes [OF ex_leader_ok(1) _ _ ex_message_prepared ex_message_fits ex_follower_ok(1)
      ex_message_accepted ex_match, of "\<lambda>k. (0, 0)"]
  by (auto simp: ex_leader_ok(2) log_of_fresh)

text \<open>
  The leader's side of the same round: after a successful answer of the peer the leader
  knows that the peer holds everything up to the end of the leader's log, and sends from there
  on.
\<close>

theorem leader_learns_progress:
  assumes "node_ok l" and "i < length (nextIndex l)" and "unat (nextIndex l ! i) \<le> Suc (length (log_of (store l)))"
    and "prepare_AppendEntries i l = Inr m" and "length (AppendEntries_serialize m) \<le> buffer_size"
    and "store_inv (store f)" and "accepts m f" and "log_match (log_of (store l)) (log_of (store f))"
    and "ae_entries m \<noteq> []" and "connected (peers l ! i)"
    and "0 \<le> io_send io" and "io_recv io = answering ev f"
  shows "\<exists>l'. sendAppendEntries io i l = Inr l' \<and> matchIndex l' ! i = max (matchIndex l ! i) (logLen (store l))
    \<and> nextIndex l' ! i = max (matchIndex l ! i) (logLen (store l)) + 1"
  by (rule leader_learns [OF assms])

theorem leader_learns_progress_witness:
  "\<exists>l'. sendAppendEntries \<lparr>io_connect = None, io_send = 0, io_recv = answering (\<lambda>k. (0, 0)) ex_follower\<rparr> 0 ex_leader = Inr l'
     \<and> matchIndex l' ! 0 = 1 \<and> nextIndex l' ! 0 = 2"
  using leader_learns_progress [OF ex_leader_ok(1) _ _ ex_message_prepared ex_message_fits ex_follower_ok(1)
      ex_message_accepted ex_match, of "\<lparr>io_connect = None, io_send = 0, io_recv = answering (\<lambda>k. (0, 0)) ex_follower\<rparr>"
      "\<lambda>k. (0, 0)"]
  by (simp add: ex_leader_ok(2) ex_message_def)

section \<open>Votes and terms\<close>

text \<open>
  C13. An election is won: when no answer carries a newer term and the votes given, with the
  candidate's own, are a majority, \<^verbatim>\<open>startElection\<close> returns with the node as leader of the next
  term and a no-op entry of that term at the end of its log.
\<close>

theorem election_won:
  assumes "node_ok s" and "log_room s" and "\<And>k i. io_wf (io k i)"
    and "\<forall>i < length (peers s). vote_calm (cur_term s + 1) (reply_of (io 0) payload s i)"
    and "payload = RequestVote_serialize (make_RequestVote (election_begin ev s))"
    and "majority s \<le> 1 + length (filter (\<lambda>i. vote_given (reply_of (io 0) payload s i)) [0..<length (peers s)])"
    and "\<And>i req p. append_calm (cur_term s + 1) (fst (sendRPC (io 1 i) req p))"
  shows "\<exists>s'. startElection ev io s = Inr s' \<and> state s' = LEADER \<and> cur_term s' = cur_term s + 1 \<and> node_ok s'
    \<and> log_of (store s') = log_of (store s) @ [mk_LogEntry (cur_term s + 1) (logLen (store s) + 1) (mk_Command NOOP [] [])]"
  by (rule startElection_wins [OF assms])

definition ex_io :: "nat \<Rightarrow> nat \<Rightarrow> rpc_io" where
  "ex_io k i = (if k = 0 \<and> i = 0 then voting 1 else silent)"

theorem election_won_witness:
  "\<exists>s'. startElection (\<lambda>k. (5000, 0)) ex_io (fresh_node 1 (peers3 1)) = Inr s' \<and> state s' = LEADER \<and> cur_term s' = 1"
proof -
  let ?s = "fresh_node 1 (peers3 1)"
  let ?p = "RequestVote_serialize (make_RequestVote (election_begin (\<lambda>k. (5000, 0)) ?s))"
  have sel: "cur_term ?s = 0" "peers ?s = peers3 1" "length (peers3 1) = 2" "\<not> connected (peers3 1 ! 0)"
    by (simp_all add: fresh_node_def peers3_def Peer_init_def)
  have yes: "reply_of (ex_io 0) ?p ?s 0 = RequestVoteResponse_serialize \<lparr>vr_term = 1, vr_voteGranted = True\<rparr>"
    using sel by (simp add: reply_of_def ex_io_def sendRPC_voting)
  have none: "reply_of (ex_io 0) ?p ?s i = []" if "i \<noteq> 0" for i
    using that by (simp add: reply_of_def ex_io_def sendRPC_silent)
  have wf: "io_wf (ex_io k i)" for k i
    using io_wf_silent reply_wf_response(2) by (simp add: ex_io_def io_wf_def voting_def)
  have calm: "vote_calm (cur_term ?s + 1) (reply_of (ex_io 0) ?p ?s i)" for i
    using vote_yes(1) [of "yes 1" 1] yes none [of i] by (cases "i = 0") (simp_all add: sel vote_calm_def)
  have count: "majority ?s \<le> 1 + length (filter (\<lambda>i. vote_given (reply_of (ex_io 0) ?p ?s i)) [0..<length (peers ?s)])"
    using yes vote_yes(2) [of "yes 1" 1] by (simp add: majority_def sel upt_rec)
  have quiet: "append_calm (cur_term ?s + 1) (fst (sendRPC (ex_io 1 i) req p))" for i req p
    by (simp add: ex_io_def sendRPC_silent append_calm_def)
  have room: "log_room ?s" by (simp add: log_room_def log_of_fresh)
  from election_won [where io = ex_io, OF node_ok_fresh room wf _ refl count quiet] calm sel(1)
  show ?thesis by auto
qed

text \<open>
  C14. The vote handler, completely: a vote is given exactly when the candidate's term is not
  old, the node has not voted for somebody else in that term and the candidate's log is at
  least as far as its own, comparing last terms and then lengths; the answer carries the larger
  term; the vote given is stored; log, state machine and indices stay.
\<close>

theorem vote_handler_spec:
  "case handleRequestVote ev m s of (r, s') \<Rightarrow>
    (vr_voteGranted r \<longleftrightarrow> grants m s) \<and> vr_term r = max (cur_term s) (rv_term m) \<and> cur_term s' = vr_term r
    \<and> getVoted (store s') = (if grants m s then to_string_u64 (rv_candidateId m) else vote_before m s)
    \<and> state s' = (if rv_term m > cur_term s then FOLLOWER else state s)
    \<and> log_of (store s') = log_of (store s) \<and> sm s' = sm s \<and> getCommit (store s') = getCommit (store s)"
proof -
  obtain r s' where call: "handleRequestVote ev m s = (r, s')" by fastforce
  show ?thesis using handleRequestVote_eq [OF call] by (simp add: call)
qed

text \<open>
  C15. In every step of a cluster and for every node: the term never falls, a vote given in a
  term is not changed within it, whoever is leader afterwards was leader or candidate of that
  very term before, and whoever is candidate was candidate before or has just entered the next
  term. This covers heartbeats, messages in both directions, client requests, crashes and
  restarts.
\<close>

theorem terms_and_votes_monotone:
  assumes "reachable M cl" and "cluster_step M cl cl'"
  shows "cur_term (nodes cl c) \<le> cur_term (nodes cl' c) \<and> node_id (nodes cl' c) = node_id (nodes cl c)
    \<and> (cur_term (nodes cl' c) = cur_term (nodes cl c) \<longrightarrow> getVoted (store (nodes cl c)) \<noteq> [] \<longrightarrow>
        getVoted (store (nodes cl' c)) = getVoted (store (nodes cl c)))
    \<and> (state (nodes cl' c) = LEADER \<longrightarrow>
        state (nodes cl c) \<noteq> FOLLOWER \<and> cur_term (nodes cl' c) = cur_term (nodes cl c))
    \<and> (state (nodes cl' c) = CANDIDATE \<longrightarrow>
        state (nodes cl c) = CANDIDATE \<and> cur_term (nodes cl' c) = cur_term (nodes cl c)
        \<or> cur_term (nodes cl' c) = cur_term (nodes cl c) + 1)"
  using cluster_step_node [OF assms(2) cluster_inv_reachable [OF assms(1)]] unfolding role_step_def .

theorem terms_and_votes_monotone_witness:
  "cur_term (nodes start3 1) \<le> cur_term (nodes asked1 1) \<and> state (nodes asked1 1) = CANDIDATE"
  using terms_and_votes_monotone [OF start3_reachable cluster_step.election [OF asked1_step], of 1]
  by (simp add: asked1_def candidate1_sel)

section \<open>Logs across the cluster\<close>

text \<open>
  C4. Log matching: in every reachable state of a cluster, if the logs of two nodes have entries
  of the same term at the same index, they are identical up to and including that index, commands
  and checksums included. This holds for every interleaving, for lost, repeated and late messages,
  for messages of a leader that has stepped down, and across crashes between any two writes.
\<close>

theorem log_matching:
  assumes "reachable M cl" and "c \<in> M" and "d \<in> M"
    and "i < length (log_of (store (nodes cl c)))" and "i < length (log_of (store (nodes cl d)))"
    and "le_term (log_of (store (nodes cl c)) ! i) = le_term (log_of (store (nodes cl d)) ! i)"
  shows "take (Suc i) (log_of (store (nodes cl c))) = take (Suc i) (log_of (store (nodes cl d)))"
proof -
  from log_inv_reachable [OF assms(1)] obtain H where "log_inv M cl H" ..
  then have "log_match (log_of (store (nodes cl c))) (log_of (store (nodes cl d)))"
    using assms(2,3) unfolding log_inv_def history_ok_def log_member_def by blast
  with assms(4-) show ?thesis by (simp add: log_match_def)
qed

theorem log_matching_witness:
  "\<exists>cl. reachable members3 cl \<and> log_of (store (nodes cl 1)) \<noteq> []
    \<and> take 1 (log_of (store (nodes cl 1))) = take 1 (log_of (store (nodes cl 2)))"
proof -
  obtain cl where cl: "reachable members3 cl" "log_of (store (nodes cl 1)) = [noop1]"
    "log_of (store (nodes cl 2)) = [noop1]" by (rule replicated_reachable)
  have "1 \<in> members3" "2 \<in> members3" by (simp_all add: members3_def)
  from log_matching [OF cl(1) this, of 0] cl show ?thesis by auto
qed

text \<open>
  The steps of the cluster are the code's: a leader's round of the background thread, the
  appending and sending part of \<^verbatim>\<open>submit\<close> and \<^verbatim>\<open>get\<close>, and the end of an election with the first
  messages of a new leader, each as the whole operation of a node with any answers of its peers,
  is a run of steps of the cluster that takes this node where the operation takes it.
\<close>

theorem operations_are_runs:
  assumes "c \<in> M" and "log_room (nodes cl c)"
  shows "(state (nodes cl c) = LEADER \<longrightarrow> background_step ev io (nodes cl c) = Inr s' \<longrightarrow> node_run M cl c s')
    \<and> (command_ok cmd \<longrightarrow> submit_begin sio cmd (nodes cl c) = Inr (idx, s') \<longrightarrow> node_run M cl c s')
    \<and> (get_begin sio (nodes cl c) = Inr (idx, s') \<longrightarrow> node_run M cl c s')
    \<and> (ballots cl c = Some b \<longrightarrow> bl_todo b = [] \<longrightarrow>
        election_end sio (bl_votes b) (nodes cl c) = Inr s' \<longrightarrow> node_run M cl c s')"
  using heartbeat_runs [OF assms(1)] submit_runs [OF assms(1) _ assms(2)] get_runs [OF assms]
    election_end_runs [OF assms] by blast

theorem operations_are_runs_witness:
  "\<exists>cl s'. reachable members3 cl \<and> background_step (\<lambda>k. (0, 0)) (\<lambda>k i. silent) (nodes cl 1) = Inr s'
    \<and> node_run members3 cl 1 s'"
proof -
  obtain cl where cl: "reachable members3 cl" "state (nodes cl 1) = LEADER" "log_of (store (nodes cl 1)) = [noop1]"
    and ok: "node_ok (nodes cl 1)"
    by (rule leader1_reachable) blast
  have m1: "1 \<in> members3" by (simp add: members3_def)
  have room: "log_room (nodes cl 1)" by (simp add: log_room_def cl(3))
  obtain s' where s': "background_step (\<lambda>k. (0, 0)) (\<lambda>k i. silent) (nodes cl 1) = Inr s'"
    using background_step_ok [where io = "\<lambda>k i. silent", OF ok room io_wf_silent] by blast
  from operations_are_runs [OF m1 room] cl(2) s' have "node_run members3 cl 1 s'" by blast
  with cl(1) s' show ?thesis by blast
qed

section \<open>Freedom from undefined behaviour\<close>

text \<open>
  C16. A well-formed node never runs into undefined behaviour or an exception and stays well
  formed: in a round of the background thread, leader or not, whatever the peers answer as long
  as their answers to a vote or an AppendEntries request are not cut short, and in both message
  handlers on well-formed messages.
\<close>

theorem node_never_undefined:
  assumes "node_ok s" and "log_room s" and "\<And>k i. io_wf (io k i)" and "append_wf m"
  shows "(\<exists>s'. background_step ev io s = Inr s' \<and> node_ok s')
    \<and> (\<exists>r s'. handleAppendEntries ev m s = Inr (r, s') \<and> node_ok s')
    \<and> node_ok (snd (handleRequestVote ev v s))"
  using background_step_ok [where io = io, OF assms(1-3)] handleAppendEntries_ok [OF assms(1,4)]
    handleRequestVote_node_ok [OF assms(1) surjective_pairing] by blast

theorem node_never_undefined_witness:
  "(\<exists>s'. background_step (\<lambda>k. (4000, 0)) (\<lambda>k i. silent) (fresh_node 1 (peers3 1)) = Inr s' \<and> node_ok s')
    \<and> (\<exists>r s'. handleAppendEntries (\<lambda>k. (4000, 0)) ex_append (fresh_node 1 (peers3 1)) = Inr (r, s') \<and> node_ok s')
    \<and> node_ok (snd (handleRequestVote (\<lambda>k. (4000, 0)) (make_RequestVote candidate1) (fresh_node 1 (peers3 1))))"
proof -
  have "log_room (fresh_node 1 (peers3 1))" by (simp add: log_room_def log_of_fresh)
  from node_never_undefined [where io = "\<lambda>k i. silent", OF node_ok_fresh this io_wf_silent ex_append_wf]
  show ?thesis .
qed

section \<open>Storage\<close>

text \<open>
  C22. The storage class implements a list of entries: on a well-formed store reading, term
  lookup, suffixes, ranges and truncation give what the same operation on the list gives, and
  appending a next entry appends it to the list; the store stays well formed.
\<close>

theorem storage_refines_list:
  assumes inv: "store_inv s"
  shows "readAll s = Inr (log_of s) \<and> getTermAt i s = Inr (entry_term (log_of s) (unat i))
    \<and> readFrom i s = Inr (if i = 0 then [] else drop (unat i - 1) (log_of s))
    \<and> readRange i j s = Inr (if 1 \<le> i \<and> i \<le> j \<and> unat j \<le> length (log_of s)
        then drop (unat i - 1) (take (unat j) (log_of s)) else [])
    \<and> (\<exists>s'. truncate_log i s = Inr s' \<and> store_inv s' \<and> log_of s' = take (unat i) (log_of s))
    \<and> (log_ok (log_of s @ [e]) \<longrightarrow>
        store_inv (append_entry e s) \<and> log_of (append_entry e s) = log_of s @ [e])"
  using store_inv_readAll [OF inv] getTermAt_eq [OF inv] readFrom_eq [OF inv] readRange_eq [OF inv]
    store_inv_truncate [OF inv] store_inv_append [OF inv] by simp

theorem storage_refines_list_witness:
  "readAll (store ex_leader) = Inr [mk_LogEntry 0 1 put_kv] \<and> getTermAt 7 (store ex_leader) = Inr 0
    \<and> (\<exists>s'. truncate_log 0 (store ex_leader) = Inr s' \<and> log_of s' = [])"
proof -
  note r = storage_refines_list [OF node_ok_store [OF ex_leader_ok(1)]]
  from r [of 7] have "getTermAt 7 (store ex_leader) = Inr 0"
    by (simp add: ex_leader_ok(2) entry_term_def)
  with r [of 0] show ?thesis by (auto simp: ex_leader_ok(2))
qed

lemma accepts_again:
  assumes "accepts m s" and "cur_term s' = ae_term m"
    and "log_of (store s') = merge_log (log_of (store s)) (unat (ae_prevLogIndex m)) (ae_entries m)"
  shows "accepts m s'"
proof (cases "ae_prevLogIndex m = 0")
  case True
  with assms(2) show ?thesis by (simp add: accepts_def)
next
  case False
  let ?p = "unat (ae_prevLogIndex m)" and ?l = "log_of (store s)" and ?l' = "log_of (store s')"
  from False assms(1) have p: "?p \<le> length ?l" "entry_term ?l ?p = ae_prevLogTerm m" by (auto simp: accepts_def)
  have pre: "take ?p ?l' = take ?p ?l" unfolding assms(3) by (rule merge_log_before [OF p(1)])
  then have len: "?p \<le> length ?l'" using p(1) by (metis length_take min.absorb2 min.cobounded1)
  have "?p \<noteq> 0" using False by (simp add: unat_eq_zero)
  then have "?l' ! (?p - 1) = ?l ! (?p - 1)" using pre by (metis diff_less less_one nth_take not_gr_zero)
  with len p have "entry_term ?l' ?p = ae_prevLogTerm m" by (auto simp: entry_term_def split: if_splits)
  with len assms(2) show ?thesis by (simp add: accepts_def)
qed

text \<open>
  A repeated AppendEntries message changes nothing more: handling it a second time succeeds
  again and leaves the log as the first time left it.
\<close>

theorem append_entries_idempotent:
  assumes inv: "store_inv (store s)" and wf: "append_wf m" and acc: "accepts m s"
  shows "\<exists>r s1 s2. handleAppendEntries ev m s = Inr (r, s1) \<and> handleAppendEntries ev' m s1 = Inr (r, s2)
    \<and> ar_success r \<and> log_of (store s2) = log_of (store s1)"
proof -
  let ?p = "unat (ae_prevLogIndex m)" and ?r = "\<lparr>ar_term = ae_term m, ar_success = True\<rparr>"
  obtain s1 where s1: "handleAppendEntries ev m s = Inr (?r, s1)" "store_inv (store s1)"
    "log_of (store s1) = merge_log (log_of (store s)) ?p (ae_entries m)" "cur_term s1 = ae_term m"
    by (rule handleAppendEntries_accept [OF inv wf acc])
  obtain s2 where s2: "handleAppendEntries ev' m s1 = Inr (?r, s2)"
    "log_of (store s2) = merge_log (log_of (store s1)) ?p (ae_entries m)"
    by (rule handleAppendEntries_accept [OF s1(2) wf accepts_again [OF acc s1(4,3)]])
  have "?p \<le> length (log_of (store s))" using acc by (auto simp: accepts_def)
  then have "log_of (store s2) = log_of (store s1)" unfolding s2(2) s1(3) by (rule merge_log_idem)
  with s1(1) s2(1) show ?thesis by (metis AppendEntriesResponse.select_convs(2))
qed

theorem append_entries_idempotent_witness:
  "\<exists>r s1 s2. handleAppendEntries (\<lambda>k. (0, 0)) ex_append ex_follower = Inr (r, s1)
    \<and> handleAppendEntries (\<lambda>k. (9, 9)) ex_append s1 = Inr (r, s2) \<and> log_of (store s2) = log_of (store s1)"
  using append_entries_idempotent [OF ex_follower_ok(1) ex_append_wf ex_follower_ok(2)] by blast

section \<open>Wire and file formats\<close>

text \<open>
  C32. Log records: a checksummed entry is read back from its bytes at any place in a file, with
  the offset behind it, and every proper prefix of its bytes makes the reader run past the end.
\<close>

theorem log_entry_codec:
  assumes "entry_ok e"
  shows "LogEntry_deserialize (pre @ LogEntry_serialize e @ post) (length pre) =
      Inr (e, length pre + length (LogEntry_serialize e))
    \<and> (n < length (LogEntry_serialize e) \<longrightarrow>
        LogEntry_deserialize (pre @ take n (LogEntry_serialize e)) (length pre) = Inl Undefined)"
  using entry_codec.dec_enc [OF assms] entry_codec.dec_torn [OF assms] by simp

theorem log_entry_codec_witness:
  "LogEntry_deserialize (LogEntry_serialize ex_entry) 0 = Inr (ex_entry, 31)"
  using log_entry_codec [OF mk_LogEntry_ok [OF put_kv_ok], of "[]" 1 1 "[]"]
  by (simp add: len_simps mk_Command_def)

text \<open>
  C33. Commands: decoding gives back the encoded command exactly when key and value are shorter
  than 65536 bytes (and the operation byte, if it is none of the three named ones, is written
  as such); longer keys and values do not survive the 16-bit length fields.
\<close>

theorem command_codec: "Command_deserialize (Command_serialize c) = Inr c \<longleftrightarrow> command_ok c"
  using Command_roundtrip_append [of c "[]"] Command_deserialize_ok [of "Command_serialize c" c] by auto

text \<open>
  C34. All four messages are read back from their bytes, also with more data behind them, and
  every proper prefix of an AppendEntries message makes its reader run past the end.
\<close>

theorem message_codecs:
  assumes "append_ok m"
  shows "AppendEntries_deserialize (AppendEntries_serialize m @ post) = Inr m
    \<and> (n < length (AppendEntries_serialize m) \<longrightarrow>
        AppendEntries_deserialize (take n (AppendEntries_serialize m)) = Inl Undefined)
    \<and> RequestVote_deserialize (RequestVote_serialize v @ post) = Inr v
    \<and> RequestVoteResponse_deserialize (RequestVoteResponse_serialize w @ post) = Inr w
    \<and> AppendEntriesResponse_deserialize (AppendEntriesResponse_serialize r @ post) = Inr r"
  using AppendEntries_roundtrip_append [OF assms] AppendEntries_torn [OF assms]
    RequestVote_roundtrip_append RequestVoteResponse_roundtrip_append AppendEntriesResponse_roundtrip_append
  by simp

theorem message_codecs_witness:
  "AppendEntries_deserialize (AppendEntries_serialize ex_append @ [1, 2, 3]) = Inr ex_append"
proof -
  have "append_ok ex_append" using ex_entry_good by (simp add: append_ok_def entry_good_def)
  from message_codecs [OF this] show ?thesis by blast
qed

text \<open>
  C35. The checksum: every call computes, from a table that is filled at the first call and kept,
  the CRC-32 of the data as the bitwise division register defines it.
\<close>

theorem crc_is_serial:
  assumes "crc_static_ok st"
  shows "fst (crc32_call st data) = crc32_serial data \<and> crc_static_ok (snd (crc32_call st data))"
  using crc32_call_eq [OF assms, of data] crc32_compute_serial [of data] by simp

theorem crc_is_serial_witness:
  "fst (crc32_call crc_static0 [0x31, 0x32, 0x33, 0x34, 0x35, 0x36, 0x37, 0x38, 0x39]) = 0xCBF43926"
proof -
  have "crc32_serial [0x31, 0x32, 0x33, 0x34, 0x35, 0x36, 0x37, 0x38, 0x39] = 0xCBF43926" by code_simp
  with crc_is_serial [OF crc_static0_ok] show ?thesis by metis
qed

text \<open>
  C36. What the checksum of an entry catches: term, index or command altered within a window of
  at most four bytes, with the stored checksum unchanged, never verifies.
\<close>

theorem checksum_catches_window:
  assumes "LogEntry_verify e" and "le_crc e' = le_crc e"
    and "crc_input (le_term e) (le_index e) (le_command e) = xs @ u @ ys"
    and "crc_input (le_term e') (le_index e') (le_command e') = xs @ v @ ys"
    and "length u = length v" and "length u \<le> 4" and "u \<noteq> v"
  shows "\<not> LogEntry_verify e'"
  by (rule crc_catches_window [OF assms])

theorem checksum_catches_window_witness: "\<not> LogEntry_verify (ex_entry\<lparr>le_term := 2\<rparr>)"
proof -
  have "put_le 8 (1 :: u64) = [] @ [1] @ [0, 0, 0, 0, 0, 0, 0]" "put_le 8 (2 :: u64) = [] @ [2] @ [0, 0, 0, 0, 0, 0, 0]"
    by code_simp+
  then have "crc_input 1 1 c = [] @ [1] @ [0, 0, 0, 0, 0, 0, 0] @ put_le 8 (1 :: u64) @ c"
    "crc_input 2 1 c = [] @ [2] @ [0, 0, 0, 0, 0, 0, 0] @ put_le 8 (1 :: u64) @ c" for c
    by (simp_all add: crc_input_def)
  then show ?thesis
    by (intro checksum_catches_window [of ex_entry _ "[]" "[1]" _ "[2]"]) simp_all
qed

section \<open>Server and client\<close>

text \<open>
  C31. The connection handler reads at most 4095 bytes at a time: an AppendEntries message that
  is longer is decoded from its first 4095 bytes only, which runs past the end of the buffer.
\<close>

theorem oversized_append_undefined:
  assumes "append_ok m" and "buffer_size < length (AppendEntries_serialize m)" and "srv_running srv"
  shows "handleRaft ((srv, ev, AppendEntries_serialize m, s) # rounds) = Inl Undefined"
proof -
  have "take buffer_size (AppendEntries_serialize m) \<noteq> []" by (simp add: AppendEntries_bytes append_header_def buffer_size_def)
  with raft_request_cut [OF assms(1,2)] assms(3) show ?thesis by (simp add: Let_def)
qed

theorem oversized_append_undefined_witness:
  "handleRaft [(TCPServer_init 3 4, (\<lambda>k. (0, 0)), AppendEntries_serialize (ex_append\<lparr>ae_entries := replicate 200 ex_entry\<rparr>), ex_follower)] =
     Inl Undefined"
proof (rule oversized_append_undefined)
  show "append_ok (ex_append\<lparr>ae_entries := replicate 200 ex_entry\<rparr>)"
    using ex_entry_good by (simp add: append_ok_def entry_good_def)
  show "buffer_size < length (AppendEntries_serialize (ex_append\<lparr>ae_entries := replicate 200 ex_entry\<rparr>))"
    by (simp add: AppendEntries_bytes length_concat sum_list_replicate put_sized_entry_def buffer_size_def
        Let_def len_simps mk_Command_def)
  show "srv_running (TCPServer_init 3 4)" by (simp add: TCPServer_init_def)
qed

text \<open>
  The peer list of the command line: printing peers as \<^verbatim>\<open>id@ip:port\<close>, separated by commas, and
  parsing the text gives the same peers in the same order, for every id and port in the range
  of \<^verbatim>\<open>int\<close> and every address without a separator in it.
\<close>

theorem peer_list_roundtrip:
  assumes "\<forall>p \<in> set ps. ip_ok (fst (snd p))"
  shows "parse_args [''--peers'', peers_text ps] Config_default =
    Inr (Config_default\<lparr>cfg_peers := map (\<lambda>(pid, ip, port). Peer_init pid ip port) ps\<rparr>)"
  using parse_peers_text [OF assms, of "[]"]
  by (simp add: is_option_def set_option_def Config_default_def)

theorem peer_list_roundtrip_witness:
  "parse_args [''--peers'', peers_text [(2, ''127.0.0.1'', 7002), (3, ''127.0.0.1'', 7003)]] Config_default =
    Inr (Config_default\<lparr>cfg_peers := [Peer_init 2 ''127.0.0.1'' 7002, Peer_init 3 ''127.0.0.1'' 7003]\<rparr>)"
  using peer_list_roundtrip [of "[(2, ''127.0.0.1'', 7002), (3, ''127.0.0.1'', 7003)]"]
  by (simp add: ip_ok_def)

text \<open>
  C38. A write from the client's input line to the node: the line \<^verbatim>\<open>PUT key value\<close> becomes a packet
  that the server decodes to the same command and submits, as long as the packet fits the
  server's buffer.
\<close>

theorem client_put_reaches_node:
  assumes "word_ok k" and "word_ok v" and "length k + length v \<le> 4089"
  shows "\<exists>p. parse_line (''PUT '' @ k @ '' '' @ v) = Packet p \<and>
    client_request io polls (take buffer_size p) s =
      catch_runtime_error (bind_result (submit io (mk_Command PUT k v) polls s)
        (\<lambda>r. case r of None \<Rightarrow> Inr Blocked | Some s' \<Rightarrow> Inr (Reply (''OK'' @ newline) s')))"
  using parse_line_put [OF assms(1,2)] server_decodes_put [OF assms(3)] by blast

theorem client_put_reaches_node_witness:
  "\<exists>p. parse_line ''PUT k v'' = Packet p \<and>
    client_request (\<lambda>i. silent) (\<lambda>s. []) (take buffer_size p) ex_follower =
      Inr (Reply (''NOT_LEADER unknown'' @ newline) ex_follower)"
proof -
  have "state ex_follower \<noteq> LEADER" "current_leader_id ex_follower = 0" by (simp_all add: fresh_node_def)
  then have "submit (\<lambda>i. silent) put_kv (\<lambda>s. []) ex_follower = Inl (Runtime_error ''NOT_LEADER'', ex_follower)"
    and "exception_response ''NOT_LEADER'' ex_follower = ''NOT_LEADER unknown'' @ newline"
    by (simp_all add: submit_def submit_begin_def submit_append_def exception_response_def getLeaderId_def)
  moreover have "word_ok ''k''" "word_ok ''v''" by (simp_all add: word_ok_def is_space_def)
  ultimately show ?thesis
    using client_put_reaches_node [of "''k''" "''v''" "\<lambda>i. silent" "\<lambda>s. []" ex_follower]
    by (simp add: catch_runtime_error_def)
qed

text \<open>
  Redirection: the answer of a node that knows the leader makes the client connect to port
  6000 plus the leader's id.
\<close>

theorem client_follows_leader:
  assumes "getLeaderId s = i" and "i \<noteq> 0" and "sint i + 6000 < 2 ^ 31"
  shows "read_response (response_text (bytes_of (exception_response ''NOT_LEADER'' s))) = Inr (Redirect (6000 + i))"
  by (rule redirect_response [OF assms])

theorem client_follows_leader_witness:
  "read_response (response_text (bytes_of (exception_response ''NOT_LEADER'' (ex_follower\<lparr>current_leader_id := 3\<rparr>)))) =
     Inr (Redirect 6003)"
  using client_follows_leader [of "ex_follower\<lparr>current_leader_id := 3\<rparr>" 3] by (simp add: getLeaderId_def)

text \<open>
  C39. The client sends a packet at most three times, and it gives up without an answer only
  after the third.
\<close>

theorem client_retries_bounded:
  assumes "client_exchange env sock = Inr (n, oc, sock')"
  shows "n \<le> 3 \<and> (oc = Gave_up \<longrightarrow> n = 3)"
  using retry_loop_bound [OF assms [unfolded client_exchange_def]] by simp

theorem client_retries_bounded_witness:
  "\<exists>n. client_exchange (\<lambda>k. \<lparr>at_send = 1, at_recv = Some (bytes_of (''NOT_LEADER unknown'' @ newline)),
      at_socket = 5, at_connect = (\<lambda>port. 0)\<rparr>) 4 = Inr (n, Gave_up, 4) \<and> n = 3"
proof -
  have "response_text (bytes_of (''NOT_LEADER unknown'' @ newline)) = ''NOT_LEADER unknown'' @ newline" by code_simp
  moreover have "read_response (''NOT_LEADER unknown'' @ newline) = Inr Retry" by code_simp
  ultimately have "client_exchange (\<lambda>k. \<lparr>at_send = 1, at_recv = Some (bytes_of (''NOT_LEADER unknown'' @ newline)),
      at_socket = 5, at_connect = (\<lambda>port. 0)\<rparr>) 4 = Inr (3, Gave_up, 4)"
    by (simp add: client_exchange_def numeral_3_eq_3 bytes_of_def split: list.split)
  with client_retries_bounded [OF this] show ?thesis by simp
qed

section \<open>Connections\<close>

text \<open>
  C37. Over the whole life of a peer, any sequence of rounds of the connecting thread and of calls
  with any results of the socket calls: the connected flag and the descriptor agree, and once the
  destructor has run every descriptor that was opened has been closed, each exactly once. A call
  returns an answer exactly when the connection is still up afterwards.
\<close>

theorem peer_connection_invariant:
  "case peer_life events (Peer_init pid ip port) of (p, opened, closed) \<Rightarrow>
     peer_inv p \<and> mset (closed @ snd (Peer_destroy p)) = mset opened
     \<and> (fst (sendRPC io req p) \<noteq> [] \<longleftrightarrow> connected (snd (sendRPC io req p)))"
proof -
  obtain p opened closed where life: "peer_life events (Peer_init pid ip port) = (p, opened, closed)"
    by (metis prod_cases3)
  from peer_life_balance [OF peer_inv_init life] have "peer_inv p" and "mset opened = held p + mset closed"
    by (simp_all add: held_def Peer_init_def)
  then show ?thesis using sendRPC_answer [of io req p] by (simp add: life held_def Peer_destroy_def)
qed

text \<open>
  The accept loops start a handler for exactly the connections accepted while the server
  runs, in their order, and for none afterwards.
\<close>

theorem accept_loops_serve:
  "RunClient rounds = filter (\<lambda>fd. 0 \<le> fd) (map snd (takeWhile (srv_running \<circ> fst) rounds))
    \<and> RunRaft rounds = filter (\<lambda>fd. 0 \<le> fd) (map snd (takeWhile (srv_running \<circ> fst) rounds))
    \<and> RunClient ((fst (TCPServer_destroy srv), fd) # rounds) = []"
  using accept_loops by (simp add: TCPServer_destroy_def)

end
